theory Spec2Isabelle
  imports Main "HOL-Library.Word"
begin

section \<open>JavaScript values\<close>

text \<open>
  The values that travel through the library: what an undertaking or a scope callback
  returns or throws, and what the constructor receives as \<open>options.timeout\<close>.
  \<open>ErrorObj m\<close> is \<open>new Error(m)\<close>, the only kind of value for which
  \<open>instanceof Error\<close> holds. Numbers are \<open>NaN\<close> and the integers from
  \<open>- 2 ^ 53\<close> to \<open>2 ^ 53 - 1\<close> (a timeout in milliseconds), read off a 54-bit word
  by \<open>sint\<close>: a JavaScript number holds each of them exactly and prints it in plain
  decimal digits.
\<close>

datatype jsval =
  Undefined | Null | Boolean bool | Num "54 word" | NaN | Str string | ErrorObj string

text \<open>JavaScript's ToBoolean, as \<open>||\<close> and \<open>!\<close> use it.\<close>

fun truthy :: "jsval \<Rightarrow> bool" where
  "truthy Undefined = False"
| "truthy Null = False"
| "truthy (Boolean b) = b"
| "truthy (Num n) = (n \<noteq> 0)"
| "truthy NaN = False"
| "truthy (Str s) = (s \<noteq> [])"
| "truthy (ErrorObj m) = True"

text \<open>\<open>error instanceof Error\<close>.\<close>

fun is_Error :: "jsval \<Rightarrow> bool" where
  "is_Error (ErrorObj m) = True"
| "is_Error v = False"

text \<open>
  Decimal digits, for the template literal of the timeout message. \<open>show_int\<close> is
  applied to the integers a \<open>Num\<close> holds and to nothing else.
\<close>

function show_nat :: "nat \<Rightarrow> string" where
  "show_nat n =
     (if n < 10 then [''0123456789'' ! n]
      else show_nat (n div 10) @ [''0123456789'' ! (n mod 10)])"
  by pat_completeness auto
termination
  by (relation "measure id") auto

declare show_nat.simps [simp del]

definition show_int :: "int \<Rightarrow> string" where
  "show_int i = (if i < 0 then ''-'' @ show_nat (nat (- i)) else show_nat (nat i))"

text \<open>
  JavaScript's ToString, as a template literal applies it. An Error prints as its name
  alone when its message is empty.
\<close>

fun to_string :: "jsval \<Rightarrow> string" where
  "to_string Undefined = ''undefined''"
| "to_string Null = ''null''"
| "to_string (Boolean b) = (if b then ''true'' else ''false'')"
| "to_string (Num n) = show_int (sint n)"
| "to_string NaN = ''NaN''"
| "to_string (Str s) = s"
| "to_string (ErrorObj m) = (if m = [] then ''Error'' else ''Error: '' @ m)"

section \<open>TideToken\<close>

text \<open>
  \<open>class TideToken\<close> wraps an AbortController; its only state is the flag
  \<open>signal.aborted\<close>. \<open>AbortController.abort()\<close> sets the flag when it is not set
  and does nothing when it is.
\<close>

record TideToken =
  aborted :: bool

definition new_TideToken :: TideToken where
  "new_TideToken = \<lparr>aborted = False\<rparr>"

definition isFrozen :: "TideToken \<Rightarrow> bool" where
  "isFrozen t = aborted t"

definition freeze :: "TideToken \<Rightarrow> TideToken" where
  "freeze t = (if aborted t then t else t\<lparr>aborted := True\<rparr>)"

section \<open>Promises and the microtask queue\<close>

text \<open>
  Every promise the library creates gets a name. The \<open>k\<close>-th accepted call of
  \<open>flow\<close> creates \<open>flowPromise\<close> (\<open>FlowPromise k\<close>), the promise of its
  \<open>.then(...)\<close> (\<open>Handled k\<close>) and the promise of its \<open>.finally(...)\<close>, which
  \<open>flow\<close> returns (\<open>Returned k\<close>). The \<open>n\<close>-th refused call returns
  \<open>Refused n\<close>. The \<open>n\<close>-th call of \<open>settle\<close> returns \<open>SettleResult n\<close> and,
  when it waits, awaits \<open>AllSettled n\<close>. An orchestrator call has the promise of the
  scope callback (\<open>Body\<close>), the timer's promise and the race when a timeout is set, and
  its own result (\<open>CallResult\<close>).
\<close>

datatype pid =
    FlowPromise nat
  | Handled nat
  | Returned nat
  | Refused nat
  | AllSettled nat
  | SettleResult nat
  | Body
  | TimerPromise
  | Race
  | CallResult

datatype outcome = Fulfilled jsval | Rejected jsval

text \<open>
  The callbacks the library registers on promises, one constructor for each place of the
  source that registers one (a \<open>.then\<close>, a \<open>.finally\<close>, a combinator's element
  handlers, or the rest of an async function after an \<open>await\<close>).
\<close>

datatype reaction =
    OnFlow nat          \<comment> \<open>\<open>.then((result) => result, (error) => {freeze; throw error})\<close> of flow \<open>k\<close>\<close>
  | OnFinally nat       \<comment> \<open>\<open>.finally(() => this.flows.delete(flowPromise))\<close> of flow \<open>k\<close>\<close>
  | OnElement nat nat   \<comment> \<open>\<open>Promise.allSettled\<close> of settle call \<open>n\<close>: the handlers of element \<open>k\<close>\<close>
  | OnRace              \<comment> \<open>\<open>Promise.race\<close>: the handlers of an element\<close>
  | ResumeSettle nat    \<comment> \<open>\<open>settle\<close> call \<open>n\<close> after \<open>await Promise.allSettled(...)\<close>\<close>
  | ResumeBody          \<comment> \<open>the orchestrator after \<open>await this._executeWithTimeout(...)\<close>\<close>
  | ResumeTry jsval     \<comment> \<open>the orchestrator after \<open>await estuary.settle()\<close> in the try block\<close>
  | ResumeCatch jsval   \<comment> \<open>the orchestrator after \<open>await estuary.settle()\<close> in the catch block\<close>

text \<open>
  What an undertaking does when it is called: return a value that is not a promise, throw,
  or return a promise that is still pending (the host settles it later).
\<close>

datatype undertaking = SyncValue jsval | SyncThrow jsval | AsyncWork

datatype job =
    RunUndertaking nat undertaking   \<comment> \<open>\<open>() => undertaking()\<close>, queued by \<open>Promise.resolve().then\<close>\<close>
  | React reaction outcome           \<comment> \<open>a registered callback, with the outcome of its promise\<close>
  | Deliver nat nat outcome          \<comment> \<open>the jobs of \<open>.finally\<close> after its callback; the last settles \<open>Returned k\<close>\<close>

datatype stage = Calling | Awaiting | Thrown

text \<open>
  The state of one orchestrator call: its token, the fields of its Estuary (\<open>flows\<close>,
  \<open>settled\<close>), the promises, the registered callbacks in registration order, the
  microtask queue, and the timer. \<open>snapshot\<close>, \<open>invoked\<close>, \<open>thrown\<close> and
  \<open>observed\<close> record what happened: the array a settle call copied from \<open>flows\<close>,
  the undertakings that were called, the value the scope callback threw before it returned
  a promise, and the calls of the failure observer.
\<close>

record state =
  tideToken :: TideToken
  flows :: "nat list"
  settled :: bool
  heap :: "pid \<Rightarrow> outcome option"
  reactions :: "(pid \<times> reaction) list"
  queue :: "job list"
  launched :: nat
  refused :: nat
  settles :: nat
  remaining :: "nat \<Rightarrow> nat list"
  snapshot :: "nat \<Rightarrow> nat list"
  running :: "nat list"
  invoked :: "nat list"
  timer :: bool
  stage :: stage
  thrown :: "jsval option"
  observed :: "(jsval \<times> string) list"

definition enqueue :: "job \<Rightarrow> state \<Rightarrow> state" where
  "enqueue j st = st\<lparr>queue := queue st @ [j]\<rparr>"

text \<open>A promise that was just created is pending.\<close>

definition new_promise :: "pid \<Rightarrow> state \<Rightarrow> state" where
  "new_promise p st = st\<lparr>heap := (heap st)(p := None)\<rparr>"

text \<open>\<open>Promise.reject(e)\<close>: a new promise that is rejected already.\<close>

definition rejected_promise :: "pid \<Rightarrow> jsval \<Rightarrow> state \<Rightarrow> state" where
  "rejected_promise p e st = st\<lparr>heap := (heap st)(p \<mapsto> Rejected e)\<rparr>"

text \<open>
  Settling a promise: nothing happens when it is settled already; otherwise its
  callbacks are queued in registration order, each with the outcome.
\<close>

definition resolve :: "pid \<Rightarrow> outcome \<Rightarrow> state \<Rightarrow> state" where
  "resolve p oc st =
     (if heap st p \<noteq> None then st
      else st\<lparr>heap := (heap st)(p \<mapsto> oc),
              queue := queue st @ map (\<lambda>x. React (snd x) oc) (filter (\<lambda>x. fst x = p) (reactions st)),
              reactions := filter (\<lambda>x. fst x \<noteq> p) (reactions st)\<rparr>)"

text \<open>
  \<open>p.then(...)\<close> and \<open>await p\<close>: the callback is registered on a pending promise
  and queued at once on a settled one.
\<close>

definition then_do :: "pid \<Rightarrow> reaction \<Rightarrow> state \<Rightarrow> state" where
  "then_do p r st =
     (case heap st p of
        None \<Rightarrow> st\<lparr>reactions := reactions st @ [(p, r)]\<rparr>
      | Some oc \<Rightarrow> enqueue (React r oc) st)"

definition freeze_token :: "state \<Rightarrow> state" where
  "freeze_token st = st\<lparr>tideToken := freeze (tideToken st)\<rparr>"

section \<open>Estuary\<close>

definition scope_closed :: jsval where
  "scope_closed = ErrorObj ''Estuary frozen: scope closed or task error occurred''"

text \<open>\<open>Estuary.flow(undertaking)\<close>: the returned promise and the new state.\<close>

definition flow :: "undertaking \<Rightarrow> state \<Rightarrow> pid \<times> state" where
  "flow undertaking st =
     (if isFrozen (tideToken st) then
        (let n = refused st
         in (Refused n, rejected_promise (Refused n) scope_closed (st\<lparr>refused := Suc n\<rparr>)))
      else
        (let k = launched st;
             st1 = new_promise (FlowPromise k) (st\<lparr>launched := Suc k\<rparr>);
             st2 = enqueue (RunUndertaking k undertaking) st1;
             st3 = st2\<lparr>flows := flows st2 @ [k]\<rparr>;
             st4 = then_do (FlowPromise k) (OnFlow k) (new_promise (Handled k) st3);
             st5 = then_do (Handled k) (OnFinally k) (new_promise (Returned k) st4)
         in (Returned k, st5)))"

text \<open>\<open>Estuary.isFrozen()\<close>.\<close>

definition estuary_isFrozen :: "state \<Rightarrow> bool" where
  "estuary_isFrozen st = isFrozen (tideToken st)"

text \<open>
  \<open>Promise.allSettled(elems)\<close> for settle call \<open>n\<close>: a handler on every element, and
  the result fulfilled at once when there is no element. \<open>remaining st n\<close> lists the
  elements that have not reported yet (its length is the combinator's counter). The array
  of outcomes it fulfils with is never read, so \<open>Undefined\<close> stands for it.
\<close>

definition allSettled :: "nat \<Rightarrow> nat list \<Rightarrow> state \<Rightarrow> state" where
  "allSettled n elems st =
     (let st1 = new_promise (AllSettled n) (st\<lparr>remaining := (remaining st)(n := elems)\<rparr>);
          st2 = fold (\<lambda>k. then_do (FlowPromise k) (OnElement n k)) elems st1
      in if elems = [] then resolve (AllSettled n) (Fulfilled Undefined) st2 else st2)"

text \<open>\<open>Estuary.settle()\<close> up to its \<open>await\<close>: the returned promise and the new state.\<close>

definition settle :: "state \<Rightarrow> pid \<times> state" where
  "settle st =
     (let n = settles st;
          st0 = new_promise (SettleResult n) (st\<lparr>settles := Suc n\<rparr>)
      in if settled st0 then (SettleResult n, resolve (SettleResult n) (Fulfilled Undefined) st0)
         else
           (let st1 = st0\<lparr>settled := True\<rparr>;
                st2 = st1\<lparr>snapshot := (snapshot st1)(n := flows st1)\<rparr>;
                st3 = allSettled n (flows st2) st2
            in (SettleResult n, then_do (AllSettled n) (ResumeSettle n) st3)))"

text \<open>The rest of \<open>settle\<close>: the \<open>try\<close>/\<open>catch\<close> around the await silences a rejection.\<close>

definition settle_resume :: "nat \<Rightarrow> outcome \<Rightarrow> state \<Rightarrow> state" where
  "settle_resume n oc st = resolve (SettleResult n) (Fulfilled Undefined) st"

text \<open>
  The two callbacks of \<open>flowPromise.then(...)\<close> and the callback of \<open>.finally\<close>.
  After the callback of \<open>.finally\<close> three more jobs run before the returned promise
  settles: the one that passes the outcome on, the one that adopts the promise it made,
  and the one that settles the returned promise.
\<close>

definition flow_handled :: "nat \<Rightarrow> outcome \<Rightarrow> state \<Rightarrow> state" where
  "flow_handled k oc st =
     (case oc of
        Fulfilled result \<Rightarrow> resolve (Handled k) (Fulfilled result) st
      | Rejected error \<Rightarrow> resolve (Handled k) (Rejected error) (freeze_token st))"

definition flow_finally :: "nat \<Rightarrow> outcome \<Rightarrow> state \<Rightarrow> state" where
  "flow_finally k oc st = enqueue (Deliver 2 k oc) (st\<lparr>flows := removeAll k (flows st)\<rparr>)"

definition allSettled_element :: "nat \<Rightarrow> nat \<Rightarrow> state \<Rightarrow> state" where
  "allSettled_element n k st =
     (let st1 = st\<lparr>remaining := (remaining st)(n := remove1 k (remaining st n))\<rparr>
      in if remaining st1 n = [] then resolve (AllSettled n) (Fulfilled Undefined) st1 else st1)"

section \<open>Fjord\<close>

datatype policy = Cascade | Tributary

fun tag :: "policy \<Rightarrow> string" where
  "tag Cascade = ''cascade''"
| "tag Tributary = ''tributary''"

text \<open>
  A failure observer is called with the error and the tag; it returns (\<open>None\<close>) or
  throws a value (\<open>Some\<close>).
\<close>

type_synonym observer = "jsval \<Rightarrow> string \<Rightarrow> jsval option"

record options =
  opt_timeout :: jsval
  opt_onError :: "observer option"

record fjord =
  timeout :: jsval
  onError :: "observer option"

text \<open>The constructor: \<open>options.timeout || null\<close> and \<open>options.onError || null\<close>.\<close>

definition new_Fjord :: "options \<Rightarrow> fjord" where
  "new_Fjord opts =
     \<lparr>timeout = (if truthy (opt_timeout opts) then opt_timeout opts else Null),
      onError = opt_onError opts\<rparr>"

definition timeout_error :: "fjord \<Rightarrow> jsval" where
  "timeout_error cfg = ErrorObj (''Fjord timeout exceeded: '' @ to_string (timeout cfg) @ ''ms'')"

text \<open>\<open>_executeWithTimeout(promise, tideToken)\<close> for the promise of the scope callback.\<close>

definition executeWithTimeout :: "fjord \<Rightarrow> state \<Rightarrow> pid \<times> state" where
  "executeWithTimeout cfg st =
     (if \<not> truthy (timeout cfg) then (Body, st)
      else
        (let st1 = (new_promise TimerPromise st)\<lparr>timer := True\<rparr>;
             st2 = new_promise Race st1;
             st3 = then_do Body OnRace st2;
             st4 = then_do TimerPromise OnRace st3
         in (Race, st4)))"

text \<open>The callback of \<open>setTimeout\<close>.\<close>

definition timer_callback :: "fjord \<Rightarrow> state \<Rightarrow> state" where
  "timer_callback cfg st =
     resolve TimerPromise (Rejected (timeout_error cfg)) (freeze_token (st\<lparr>timer := False\<rparr>))"

text \<open>
  The start of \<open>cascade\<close> and of \<open>tributary\<close>: a fresh token and a fresh Estuary; the
  scope callback is about to run.
\<close>

definition begin_call :: state where
  "begin_call =
     \<lparr>tideToken = new_TideToken, flows = [], settled = False, heap = (\<lambda>p. None),
      reactions = [], queue = [], launched = 0, refused = 0, settles = 0,
      remaining = (\<lambda>n. []), snapshot = (\<lambda>n. []), running = [], invoked = [],
      timer = False, stage = Calling, thrown = None, observed = []\<rparr>"

text \<open>The scope callback returned its promise: the orchestrator awaits it.\<close>

definition await_body :: "fjord \<Rightarrow> state \<Rightarrow> state" where
  "await_body cfg st =
     (case executeWithTimeout cfg (new_promise Body (st\<lparr>stage := Awaiting\<rparr>)) of
        (p, st1) \<Rightarrow> then_do p ResumeBody st1)"

text \<open>\<open>cascade\<close>: the try block after the first await, the catch block, and its end.\<close>

definition cascade_try :: "jsval \<Rightarrow> state \<Rightarrow> state" where
  "cascade_try result st =
     (case settle st of (p, st1) \<Rightarrow> then_do p (ResumeTry result) st1)"

definition cascade_catch :: "jsval \<Rightarrow> state \<Rightarrow> state" where
  "cascade_catch error st =
     (case settle (freeze_token st) of
        (p, st1) \<Rightarrow> then_do p (ResumeCatch error) st1)"

definition cascade_rethrow :: "fjord \<Rightarrow> jsval \<Rightarrow> state \<Rightarrow> state" where
  "cascade_rethrow cfg error st =
     (case onError cfg of
        None \<Rightarrow> resolve CallResult (Rejected error) st
      | Some obs \<Rightarrow>
          if is_Error error then
            (case obs error ''cascade'' of
               None \<Rightarrow> resolve CallResult (Rejected error)
                         (st\<lparr>observed := observed st @ [(error, ''cascade'')]\<rparr>)
             | Some failure \<Rightarrow> resolve CallResult (Rejected failure)
                         (st\<lparr>observed := observed st @ [(error, ''cascade'')]\<rparr>))
          else resolve CallResult (Rejected error) st)"

text \<open>\<open>tributary\<close>: the same three places.\<close>

definition tributary_try :: "jsval \<Rightarrow> state \<Rightarrow> state" where
  "tributary_try result st =
     (case settle (freeze_token st) of (p, st1) \<Rightarrow> then_do p (ResumeTry result) st1)"

definition tributary_catch :: "jsval \<Rightarrow> state \<Rightarrow> state" where
  "tributary_catch error st =
     (case settle (freeze_token st) of
        (p, st1) \<Rightarrow> then_do p (ResumeCatch error) st1)"

definition tributary_rethrow :: "fjord \<Rightarrow> jsval \<Rightarrow> state \<Rightarrow> state" where
  "tributary_rethrow cfg error st =
     (case onError cfg of
        None \<Rightarrow> resolve CallResult (Rejected error) st
      | Some obs \<Rightarrow>
          if is_Error error then
            (case obs error ''tributary'' of
               None \<Rightarrow> resolve CallResult (Rejected error)
                         (st\<lparr>observed := observed st @ [(error, ''tributary'')]\<rparr>)
             | Some failure \<Rightarrow> resolve CallResult (Rejected failure)
                         (st\<lparr>observed := observed st @ [(error, ''tributary'')]\<rparr>))
          else resolve CallResult (Rejected error) st)"

text \<open>\<open>return result\<close> at the end of either try block.\<close>

definition return_result :: "jsval \<Rightarrow> state \<Rightarrow> state" where
  "return_result result st = resolve CallResult (Fulfilled result) st"

fun try_block :: "policy \<Rightarrow> jsval \<Rightarrow> state \<Rightarrow> state" where
  "try_block Cascade = cascade_try"
| "try_block Tributary = tributary_try"

fun catch_block :: "policy \<Rightarrow> jsval \<Rightarrow> state \<Rightarrow> state" where
  "catch_block Cascade = cascade_catch"
| "catch_block Tributary = tributary_catch"

fun rethrow :: "policy \<Rightarrow> fjord \<Rightarrow> jsval \<Rightarrow> state \<Rightarrow> state" where
  "rethrow Cascade = cascade_rethrow"
| "rethrow Tributary = tributary_rethrow"

section \<open>The event loop\<close>

text \<open>
  Running a registered callback. An await inside a try block that throws enters the
  catch block; an await inside the catch block that throws rejects the call.
\<close>

fun react :: "fjord \<Rightarrow> policy \<Rightarrow> reaction \<Rightarrow> outcome \<Rightarrow> state \<Rightarrow> state" where
  "react cfg pol (OnFlow k) oc st = flow_handled k oc st"
| "react cfg pol (OnFinally k) oc st = flow_finally k oc st"
| "react cfg pol (OnElement n k) oc st = allSettled_element n k st"
| "react cfg pol OnRace oc st = resolve Race oc st"
| "react cfg pol (ResumeSettle n) oc st = settle_resume n oc st"
| "react cfg pol ResumeBody (Fulfilled result) st = try_block pol result st"
| "react cfg pol ResumeBody (Rejected error) st = catch_block pol error st"
| "react cfg pol (ResumeTry result) (Fulfilled x) st = return_result result st"
| "react cfg pol (ResumeTry result) (Rejected error) st = catch_block pol error st"
| "react cfg pol (ResumeCatch error) (Fulfilled x) st = rethrow pol cfg error st"
| "react cfg pol (ResumeCatch error) (Rejected error') st = resolve CallResult (Rejected error') st"

fun run_job :: "fjord \<Rightarrow> policy \<Rightarrow> job \<Rightarrow> state \<Rightarrow> state" where
  "run_job cfg pol (RunUndertaking k (SyncValue v)) st =
     resolve (FlowPromise k) (Fulfilled v) (st\<lparr>invoked := invoked st @ [k]\<rparr>)"
| "run_job cfg pol (RunUndertaking k (SyncThrow e)) st =
     resolve (FlowPromise k) (Rejected e) (st\<lparr>invoked := invoked st @ [k]\<rparr>)"
| "run_job cfg pol (RunUndertaking k AsyncWork) st =
     st\<lparr>invoked := invoked st @ [k], running := running st @ [k]\<rparr>"
| "run_job cfg pol (React r oc) st = react cfg pol r oc st"
| "run_job cfg pol (Deliver (Suc h) k oc) st = enqueue (Deliver h k oc) st"
| "run_job cfg pol (Deliver 0 k oc) st = resolve (Returned k) oc st"

text \<open>
  What can happen next. \<open>Tick\<close> runs the first job of the microtask queue. The others
  are the moves of the host and of the caller's code: somebody holding the scope calls
  \<open>flow\<close> or \<open>settle\<close>, the promise of a running undertaking settles, the scope
  callback returns its promise, throws, or its promise settles, and the timer fires (a
  timer callback runs only when no microtask is left).
\<close>

datatype event =
    Tick
  | Launch undertaking
  | Finish nat outcome
  | BodyReturns
  | BodyThrows jsval
  | BodySettles outcome
  | TimerFires
  | CallSettle

fun step :: "fjord \<Rightarrow> policy \<Rightarrow> event \<Rightarrow> state \<Rightarrow> state option" where
  "step cfg pol Tick st =
     (case queue st of
        [] \<Rightarrow> None
      | j # q \<Rightarrow> Some (run_job cfg pol j (st\<lparr>queue := q\<rparr>)))"
| "step cfg pol (Launch u) st = Some (snd (flow u st))"
| "step cfg pol (Finish k oc) st =
     (if k \<in> set (running st)
      then Some (resolve (FlowPromise k) oc (st\<lparr>running := removeAll k (running st)\<rparr>))
      else None)"
| "step cfg pol BodyReturns st =
     (if stage st = Calling then Some (await_body cfg st) else None)"
| "step cfg pol (BodyThrows e) st =
     (if stage st = Calling
      then Some (catch_block pol e (st\<lparr>stage := Thrown, thrown := Some e\<rparr>))
      else None)"
| "step cfg pol (BodySettles oc) st =
     (if stage st = Awaiting \<and> heap st Body = None then Some (resolve Body oc st) else None)"
| "step cfg pol TimerFires st =
     (if timer st \<and> queue st = [] then Some (timer_callback cfg st) else None)"
| "step cfg pol CallSettle st = Some (snd (settle st))"

fun run :: "fjord \<Rightarrow> policy \<Rightarrow> event list \<Rightarrow> state \<Rightarrow> state option" where
  "run cfg pol [] st = Some st"
| "run cfg pol (ev # evs) st =
     (case step cfg pol ev st of None \<Rightarrow> None | Some st' \<Rightarrow> run cfg pol evs st')"

section \<open>Properties of the states of a call\<close>

text \<open>
  The promise the orchestrator awaits first: the race when a timeout is set, the promise
  of the scope callback otherwise.
\<close>

definition awaited :: "fjord \<Rightarrow> pid" where
  "awaited cfg = (if truthy (timeout cfg) then Race else Body)"

text \<open>
  What holds once the try block has called \<open>settle\<close> with the value \<open>v\<close>, what it
  means that the failure \<open>e\<close> was raised to the orchestrator, what holds once the catch
  block has called \<open>settle\<close>, and how the failure \<open>e\<close> the call is rejected with
  relates to the failure \<open>err\<close> that was caught.
\<close>

definition try_ok :: "fjord \<Rightarrow> policy \<Rightarrow> state \<Rightarrow> jsval \<Rightarrow> bool" where
  "try_ok cfg pol st v =
     (heap st (awaited cfg) = Some (Fulfilled v) \<and> heap st Body = Some (Fulfilled v)
      \<and> settled st \<and> (pol = Tributary \<longrightarrow> estuary_isFrozen st))"

definition raised :: "fjord \<Rightarrow> state \<Rightarrow> jsval \<Rightarrow> bool" where
  "raised cfg st e = (heap st (awaited cfg) = Some (Rejected e) \<or> thrown st = Some e)"

definition catch_ok :: "fjord \<Rightarrow> state \<Rightarrow> jsval \<Rightarrow> bool" where
  "catch_ok cfg st e = (raised cfg st e \<and> estuary_isFrozen st \<and> settled st)"

definition rethrown :: "fjord \<Rightarrow> policy \<Rightarrow> state \<Rightarrow> jsval \<Rightarrow> jsval \<Rightarrow> bool" where
  "rethrown cfg pol st err e =
     (case onError cfg of
        None \<Rightarrow> e = err
      | Some obs \<Rightarrow>
          if is_Error err
          then (err, tag pol) \<in> set (observed st) \<and>
               (case obs err (tag pol) of None \<Rightarrow> e = err | Some x \<Rightarrow> e = x)
          else e = err)"

text \<open>The promises that have been created so far.\<close>

fun allocated :: "state \<Rightarrow> pid \<Rightarrow> bool" where
  "allocated st (FlowPromise k) = (k < launched st)"
| "allocated st (Handled k) = (k < launched st)"
| "allocated st (Returned k) = (k < launched st)"
| "allocated st (Refused n) = (n < refused st)"
| "allocated st (AllSettled n) = (n < settles st)"
| "allocated st (SettleResult n) = (n < settles st)"
| "allocated st Body = (stage st = Awaiting)"
| "allocated st TimerPromise = (stage st = Awaiting)"
| "allocated st Race = (stage st = Awaiting)"
| "allocated st CallResult = True"

text \<open>
  Where each callback is registered, and what holds when a job stands in the microtask
  queue.
\<close>

fun reg_ok :: "fjord \<Rightarrow> policy \<Rightarrow> state \<Rightarrow> pid \<Rightarrow> reaction \<Rightarrow> bool" where
  "reg_ok cfg pol st p (OnFlow k) = (p = FlowPromise k)"
| "reg_ok cfg pol st p (OnFinally k) = (p = Handled k)"
| "reg_ok cfg pol st p (OnElement n k) = (p = FlowPromise k \<and> n < settles st)"
| "reg_ok cfg pol st p OnRace = (truthy (timeout cfg) \<and> (p = Body \<or> p = TimerPromise))"
| "reg_ok cfg pol st p (ResumeSettle n) = (p = AllSettled n)"
| "reg_ok cfg pol st p ResumeBody = (p = awaited cfg)"
| "reg_ok cfg pol st p (ResumeTry v) = ((\<exists>n. p = SettleResult n) \<and> try_ok cfg pol st v)"
| "reg_ok cfg pol st p (ResumeCatch e) = ((\<exists>n. p = SettleResult n) \<and> catch_ok cfg st e)"

fun job_ok :: "fjord \<Rightarrow> policy \<Rightarrow> state \<Rightarrow> job \<Rightarrow> bool" where
  "job_ok cfg pol st (RunUndertaking k u) = (k < launched st)"
| "job_ok cfg pol st (React (OnFlow k) oc) = (heap st (FlowPromise k) = Some oc)"
| "job_ok cfg pol st (React (OnFinally k) oc) = (heap st (Handled k) = Some oc)"
| "job_ok cfg pol st (React (OnElement n k) oc) =
     (heap st (FlowPromise k) = Some oc \<and> n < settles st)"
| "job_ok cfg pol st (React OnRace oc) =
     (truthy (timeout cfg) \<and> (heap st Body = Some oc \<or> heap st TimerPromise = Some oc))"
| "job_ok cfg pol st (React (ResumeSettle n) oc) = (heap st (AllSettled n) = Some oc)"
| "job_ok cfg pol st (React ResumeBody oc) = (heap st (awaited cfg) = Some oc)"
| "job_ok cfg pol st (React (ResumeTry v) oc) = (oc = Fulfilled Undefined \<and> try_ok cfg pol st v)"
| "job_ok cfg pol st (React (ResumeCatch e) oc) = (oc = Fulfilled Undefined \<and> catch_ok cfg st e)"
| "job_ok cfg pol st (Deliver h k oc) =
     (heap st (Handled k) = Some oc \<and> k \<notin> set (flows st) \<and> k < launched st)"

fun is_rejected :: "outcome \<Rightarrow> bool" where
  "is_rejected (Rejected e) = True"
| "is_rejected (Fulfilled v) = False"

text \<open>What holds when promise \<open>p\<close> is settled with \<open>oc\<close>.\<close>

fun settle_pre :: "fjord \<Rightarrow> policy \<Rightarrow> state \<Rightarrow> pid \<Rightarrow> outcome \<Rightarrow> bool" where
  "settle_pre cfg pol st (FlowPromise k) oc = True"
| "settle_pre cfg pol st (Handled k) oc =
     (heap st (FlowPromise k) = Some oc \<and> (is_rejected oc \<longrightarrow> estuary_isFrozen st))"
| "settle_pre cfg pol st (Returned k) oc = (heap st (Handled k) = Some oc \<and> k \<notin> set (flows st))"
| "settle_pre cfg pol st (Refused n) oc = True"
| "settle_pre cfg pol st (AllSettled n) oc = (remaining st n = [])"
| "settle_pre cfg pol st (SettleResult n) oc = (oc = Fulfilled Undefined)"
| "settle_pre cfg pol st Body oc = True"
| "settle_pre cfg pol st TimerPromise oc =
     (truthy (timeout cfg) \<and> oc = Rejected (timeout_error cfg) \<and> estuary_isFrozen st)"
| "settle_pre cfg pol st Race oc =
     (truthy (timeout cfg) \<and> (heap st Body = Some oc \<or> heap st TimerPromise = Some oc))"
| "settle_pre cfg pol st CallResult oc =
     (case oc of
        Fulfilled v \<Rightarrow> try_ok cfg pol st v
      | Rejected e \<Rightarrow> (\<exists>err. catch_ok cfg st err \<and> rethrown cfg pol st err e))"

text \<open>
  The invariant of a call: every settled promise was created and settled for a reason,
  every callback is registered on a pending promise of the right kind, every queued job
  is justified, and the bookkeeping fields are consistent.
\<close>

definition inv_main :: "fjord \<Rightarrow> policy \<Rightarrow> state \<Rightarrow> bool" where
  "inv_main cfg pol st =
     ((\<forall>p oc. heap st p = Some oc \<longrightarrow> allocated st p \<and> settle_pre cfg pol st p oc)
      \<and> (\<forall>p r. (p, r) \<in> set (reactions st) \<longrightarrow>
            allocated st p \<and> heap st p = None \<and> reg_ok cfg pol st p r)
      \<and> (\<forall>j. j \<in> set (queue st) \<longrightarrow> job_ok cfg pol st j)
      \<and> (\<forall>k. k \<in> set (flows st) \<longrightarrow> k < launched st)
      \<and> (\<forall>k. k \<in> set (running st) \<longrightarrow> k < launched st)
      \<and> (\<forall>x t. (x, t) \<in> set (observed st) \<longrightarrow>
            is_Error x \<and> t = tag pol \<and> onError cfg \<noteq> None \<and> catch_ok cfg st x)
      \<and> (stage st = Calling \<longrightarrow> \<not> timer st \<and> thrown st = None)
      \<and> (stage st = Thrown \<longrightarrow> \<not> timer st)
      \<and> (thrown st \<noteq> None \<longrightarrow> stage st = Thrown)
      \<and> (timer st \<longrightarrow> truthy (timeout cfg) \<and> heap st TimerPromise = None
            \<and> (TimerPromise, OnRace) \<in> set (reactions st)))"

text \<open>
  What no move undoes: a settled promise keeps its outcome, a frozen token stays frozen,
  \<open>settled\<close> stays set, the counters do not decrease, and a handle that left the
  tracking set does not come back.
\<close>

definition grows :: "state \<Rightarrow> state \<Rightarrow> bool" where
  "grows st st' =
     ((\<forall>p oc. heap st p = Some oc \<longrightarrow> heap st' p = Some oc)
      \<and> (estuary_isFrozen st \<longrightarrow> estuary_isFrozen st')
      \<and> (settled st \<longrightarrow> settled st')
      \<and> launched st \<le> launched st' \<and> refused st \<le> refused st' \<and> settles st \<le> settles st'
      \<and> (\<forall>k. k < launched st \<and> k \<notin> set (flows st) \<longrightarrow> k \<notin> set (flows st'))
      \<and> (\<forall>e. thrown st = Some e \<longrightarrow> thrown st' = Some e)
      \<and> set (observed st) \<subseteq> set (observed st')
      \<and> (stage st = Awaiting \<longrightarrow> stage st' = Awaiting)
      \<and> (\<forall>n. heap st (AllSettled n) \<noteq> None \<longrightarrow> remaining st' n = remaining st n))"

text \<open>
  \<open>guarded A B xs\<close>: every element of \<open>xs\<close> that satisfies \<open>B\<close> comes after one
  that satisfies \<open>A\<close>. Callbacks and jobs run in list order, so this says that an
  \<open>A\<close> runs before any \<open>B\<close> does.
\<close>

primrec guarded :: "('a \<Rightarrow> bool) \<Rightarrow> ('a \<Rightarrow> bool) \<Rightarrow> 'a list \<Rightarrow> bool" where
  "guarded A B [] = True"
| "guarded A B (x # xs) = (\<not> B x \<and> (A x \<or> guarded A B xs))"

definition is_job :: "reaction \<Rightarrow> job \<Rightarrow> bool" where
  "is_job r j = (\<exists>oc. j = React r oc)"

definition queued :: "state \<Rightarrow> reaction \<Rightarrow> bool" where
  "queued st r = (\<exists>j\<in>set (queue st). is_job r j)"

text \<open>
  The order in which things happen to a tracked handle. It is waiting for its undertaking,
  or its \<open>.then\<close> callback is queued, or its \<open>.finally\<close> callback is queued; the
  \<open>.then\<close> callback is registered, and queued, before any element handler of
  \<open>Promise.allSettled\<close>; and the \<open>.finally\<close> callback of a handle that
  \<open>settle\<close> copied is queued before \<open>settle\<close> resumes. So \<open>settle\<close> resumes only
  after the handles it copied have left the tracking set.
\<close>

definition inv_order :: "state \<Rightarrow> bool" where
  "inv_order st =
     ((\<forall>k. k \<in> set (flows st) \<longrightarrow>
          heap st (FlowPromise k) = None \<and> (FlowPromise k, OnFlow k) \<in> set (reactions st)
            \<and> (Handled k, OnFinally k) \<in> set (reactions st)
          \<or> heap st (FlowPromise k) \<noteq> None \<and> heap st (Handled k) = None
            \<and> queued st (OnFlow k) \<and> (Handled k, OnFinally k) \<in> set (reactions st)
          \<or> queued st (OnFinally k))
      \<and> (\<forall>k. guarded (\<lambda>x. x = (FlowPromise k, OnFlow k))
                (\<lambda>x. \<exists>n. x = (FlowPromise k, OnElement n k)) (reactions st))
      \<and> (\<forall>k. k \<in> set (flows st) \<longrightarrow>
            queued st (OnFinally k)
            \<or> guarded (is_job (OnFlow k)) (\<lambda>j. \<exists>n. is_job (OnElement n k) j) (queue st))
      \<and> (\<forall>n k. k \<in> set (snapshot st n) \<and> k \<notin> set (remaining st n) \<and> k \<in> set (flows st)
            \<longrightarrow> queued st (OnFinally k))
      \<and> (\<forall>n k. k \<in> set (snapshot st n) \<and> k \<in> set (flows st) \<longrightarrow>
            guarded (is_job (OnFinally k)) (is_job (ResumeSettle n)) (queue st))
      \<and> (\<forall>n oc k. heap st (SettleResult n) = Some oc \<and> k \<in> set (snapshot st n)
            \<longrightarrow> k \<notin> set (flows st))
      \<and> (\<forall>n k. k \<in> set (snapshot st n) \<longrightarrow> k < launched st)
      \<and> (\<forall>n. settles st \<le> n \<longrightarrow> snapshot st n = [])
      \<and> (\<forall>k. k < launched st \<and> k \<notin> set (flows st) \<longrightarrow> heap st (Handled k) \<noteq> None))"

text \<open>Jobs that no waiting job is ordered after.\<close>

definition leading :: "job \<Rightarrow> bool" where
  "leading j = (\<forall>n k. \<not> is_job (OnElement n k) j \<and> \<not> is_job (ResumeSettle n) j)"

text \<open>
  A move that only appends to the microtask queue and leaves the tracking set alone; and
  the invariant that a handle which left the tracking set has its returned promise settled
  or on its way.
\<close>

definition carries :: "state \<Rightarrow> state \<Rightarrow> bool" where
  "carries st st' =
     ((\<exists>zs. queue st' = queue st @ zs) \<and> launched st' = launched st \<and> flows st' = flows st
      \<and> (\<forall>k. heap st (Returned k) \<noteq> None \<longrightarrow> heap st' (Returned k) \<noteq> None))"

definition inv_deliver :: "state \<Rightarrow> bool" where
  "inv_deliver st =
     (\<forall>k. k < launched st \<and> k \<notin> set (flows st) \<and> heap st (Returned k) = None \<longrightarrow>
          (\<exists>h oc. Deliver h k oc \<in> set (queue st)))"

text \<open>
  Why the token is frozen when it is: \<open>tributary\<close> saw the promise it awaited fulfil,
  or a failure was raised to the orchestrator, or an undertaking failed, or the timer fired.
\<close>

definition freeze_cause :: "fjord \<Rightarrow> policy \<Rightarrow> state \<Rightarrow> bool" where
  "freeze_cause cfg pol st =
     (pol = Tributary \<and> (\<exists>v. heap st (awaited cfg) = Some (Fulfilled v))
      \<or> (\<exists>e. raised cfg st e)
      \<or> (\<exists>k e. heap st (FlowPromise k) = Some (Rejected e))
      \<or> heap st TimerPromise \<noteq> None)"

definition inv_freeze :: "fjord \<Rightarrow> policy \<Rightarrow> state \<Rightarrow> bool" where
  "inv_freeze cfg pol st = (estuary_isFrozen st \<longrightarrow> freeze_cause cfg pol st)"

text \<open>
  Progress of the orchestrator. \<open>forwards\<close>: a move only appends to the microtask
  queue, and a callback that was registered is still registered or has been queued.
  \<open>reporting n\<close>: the elements \<open>Promise.allSettled\<close> of settle call \<open>n\<close> still
  waits for each have their handler registered or queued. \<open>settling n\<close>: the rest of
  settle call \<open>n\<close> is queued, or it is registered and the elements are reporting.
  \<open>waits n c\<close>: the orchestrator's continuation \<open>c\<close> after \<open>await estuary.settle()\<close>
  is registered on settle call \<open>n\<close>, which is settling, or it is queued, or the call
  has settled. \<open>inv_pc\<close>: where the orchestrator stands.
\<close>

definition forwards :: "state \<Rightarrow> state \<Rightarrow> bool" where
  "forwards st st' =
     ((\<exists>zs. queue st' = queue st @ zs)
      \<and> (\<forall>q r. (q, r) \<in> set (reactions st) \<longrightarrow>
            (q, r) \<in> set (reactions st') \<or> queued st' r))"

definition reporting :: "nat \<Rightarrow> state \<Rightarrow> bool" where
  "reporting n st =
     (remaining st n \<noteq> [] \<and> distinct (remaining st n)
      \<and> (\<forall>k\<in>set (remaining st n).
            (FlowPromise k, OnElement n k) \<in> set (reactions st) \<or> queued st (OnElement n k)))"

definition settling :: "nat \<Rightarrow> state \<Rightarrow> bool" where
  "settling n st =
     (queued st (ResumeSettle n)
      \<or> (AllSettled n, ResumeSettle n) \<in> set (reactions st) \<and> reporting n st)"

definition waits :: "nat \<Rightarrow> reaction \<Rightarrow> state \<Rightarrow> bool" where
  "waits n c st =
     ((SettleResult n, c) \<in> set (reactions st) \<and> settling n st
      \<or> queued st c \<or> heap st CallResult \<noteq> None)"

fun resumes :: "reaction \<Rightarrow> bool" where
  "resumes (ResumeTry v) = True"
| "resumes (ResumeCatch e) = True"
| "resumes r = False"

definition inv_pc :: "fjord \<Rightarrow> state \<Rightarrow> bool" where
  "inv_pc cfg st =
     (stage st = Calling \<or> (awaited cfg, ResumeBody) \<in> set (reactions st)
      \<or> queued st ResumeBody \<or> (\<exists>n c. resumes c \<and> waits n c st))"

section \<open>Orchestrators for the examples\<close>

text \<open>
  No timeout and no observer; an observer that returns; an observer that throws; a
  timeout of 100 milliseconds; a timeout of 20 milliseconds with an observer that throws.
\<close>

definition plain :: fjord where
  "plain = new_Fjord \<lparr>opt_timeout = Undefined, opt_onError = None\<rparr>"



definition timed :: fjord where
  "timed = new_Fjord \<lparr>opt_timeout = Num 100, opt_onError = None\<rparr>"

definition timed_grumpy :: fjord where
  "timed_grumpy =
     new_Fjord \<lparr>opt_timeout = Num 20, opt_onError = Some (\<lambda>e t. Some (Str ''observer''))\<rparr>"

section \<open>The token is one-way\<close>

lemma isFrozen_freeze: "isFrozen (freeze t)"
  by (simp add: isFrozen_def freeze_def)

lemma freeze_frozen: "isFrozen t \<Longrightarrow> freeze t = t"
  by (simp add: isFrozen_def freeze_def)

lemma freeze_funpow: "(freeze ^^ Suc n) t = freeze t"
  by (induction n) (simp_all add: freeze_frozen isFrozen_freeze)

lemma fold_then_do_tideToken:
  "tideToken (fold (\<lambda>k. then_do (f k) (g k)) ks st) = tideToken st"
  by (induction ks arbitrary: st) (auto simp: then_do_def enqueue_def split: option.splits)

lemma tideToken_resolve: "tideToken (resolve p oc st) = tideToken st"
  by (simp add: resolve_def)

lemma tideToken_then_do: "tideToken (then_do p r st) = tideToken st"
  by (simp add: then_do_def enqueue_def split: option.splits)

lemma tideToken_allSettled: "tideToken (allSettled n ks st) = tideToken st"
  by (simp add: allSettled_def Let_def fold_then_do_tideToken tideToken_resolve new_promise_def)

lemma tideToken_settle: "tideToken (snd (settle st)) = tideToken st"
  by (simp add: settle_def Let_def tideToken_allSettled tideToken_then_do tideToken_resolve new_promise_def)

lemma tideToken_flow: "tideToken (snd (flow u st)) = tideToken st"
  by (simp add: flow_def Let_def tideToken_then_do new_promise_def enqueue_def rejected_promise_def)

lemmas tideToken_simps =
  tideToken_resolve tideToken_then_do tideToken_allSettled tideToken_settle tideToken_flow

lemma frozen_try_block:
  "isFrozen (tideToken st) \<Longrightarrow> isFrozen (tideToken (try_block pol v st))"
proof -
  have a: "tideToken (snd (settle st)) = tideToken st"
    by (simp add: tideToken_settle)
  have b: "tideToken (snd (settle (freeze_token st))) = freeze (tideToken st)"
    by (simp add: tideToken_settle freeze_token_def)
  assume "isFrozen (tideToken st)"
  with a b show ?thesis
    by (cases pol)
       (auto simp: cascade_try_def tributary_try_def isFrozen_freeze tideToken_then_do
          split: prod.splits)
qed

lemma frozen_catch_block: "isFrozen (tideToken (catch_block pol e st))"
proof -
  have "tideToken (snd (settle (freeze_token st))) = freeze (tideToken st)"
    by (simp add: tideToken_settle freeze_token_def)
  then show ?thesis
    by (cases pol)
       (auto simp: cascade_catch_def tributary_catch_def isFrozen_freeze tideToken_then_do
          split: prod.splits)
qed

lemma frozen_rethrow:
  "isFrozen (tideToken st) \<Longrightarrow> isFrozen (tideToken (rethrow pol cfg e st))"
  by (cases pol)
     (simp_all add: cascade_rethrow_def tributary_rethrow_def tideToken_resolve
        split: option.splits)

lemma frozen_react:
  "isFrozen (tideToken st) \<Longrightarrow> isFrozen (tideToken (react cfg pol r oc st))"
  by (cases r; cases oc)
     (simp_all add: flow_handled_def flow_finally_def allSettled_element_def Let_def
        settle_resume_def return_result_def freeze_token_def freeze_frozen enqueue_def
        tideToken_resolve frozen_try_block frozen_catch_block frozen_rethrow)

lemma frozen_run_job:
  assumes "isFrozen (tideToken st)"
  shows "isFrozen (tideToken (run_job cfg pol j st))"
proof (cases j)
  case (RunUndertaking k u)
  with assms show ?thesis by (cases u) (simp_all add: tideToken_resolve)
next
  case (React r oc)
  with assms show ?thesis by (simp add: frozen_react)
next
  case (Deliver h k oc)
  with assms show ?thesis by (cases h) (simp_all add: tideToken_resolve enqueue_def)
qed

lemma frozen_step:
  assumes "isFrozen (tideToken st)" and "step cfg pol ev st = Some st'"
  shows "isFrozen (tideToken st')"
proof (cases ev)
  case Tick
  with assms show ?thesis
    by (cases "queue st") (auto intro!: frozen_run_job)
next
  case (Launch u)
  with assms show ?thesis by (auto simp: tideToken_flow)
next
  case (Finish k oc)
  with assms show ?thesis by (auto simp: tideToken_resolve split: if_splits)
next
  case BodyReturns
  with assms show ?thesis
    by (auto simp: await_body_def executeWithTimeout_def Let_def tideToken_then_do
        new_promise_def split: if_splits)
next
  case (BodyThrows e)
  with assms show ?thesis by (auto simp: frozen_catch_block split: if_splits)
next
  case (BodySettles oc)
  with assms show ?thesis by (auto simp: tideToken_resolve split: if_splits)
next
  case TimerFires
  with assms show ?thesis
    by (auto simp: timer_callback_def tideToken_resolve freeze_token_def isFrozen_freeze
        split: if_splits)
next
  case CallSettle
  with assms show ?thesis by (auto simp: tideToken_settle)
qed

lemma frozen_run:
  "isFrozen (tideToken st) \<Longrightarrow> run cfg pol evs st = Some st' \<Longrightarrow> isFrozen (tideToken st')"
  by (induction evs arbitrary: st) (auto split: option.splits dest: frozen_step)

section \<open>Fields the primitives leave alone\<close>

lemma resolve_frame [simp]:
  "flows (resolve p oc st) = flows st"
  "settled (resolve p oc st) = settled st"
  "launched (resolve p oc st) = launched st"
  "refused (resolve p oc st) = refused st"
  "settles (resolve p oc st) = settles st"
  "remaining (resolve p oc st) = remaining st"
  "snapshot (resolve p oc st) = snapshot st"
  "running (resolve p oc st) = running st"
  "invoked (resolve p oc st) = invoked st"
  "timer (resolve p oc st) = timer st"
  "stage (resolve p oc st) = stage st"
  "thrown (resolve p oc st) = thrown st"
  "observed (resolve p oc st) = observed st"
  by (simp_all add: resolve_def)

lemma then_do_frame [simp]:
  "flows (then_do p r st) = flows st"
  "settled (then_do p r st) = settled st"
  "heap (then_do p r st) = heap st"
  "launched (then_do p r st) = launched st"
  "refused (then_do p r st) = refused st"
  "settles (then_do p r st) = settles st"
  "remaining (then_do p r st) = remaining st"
  "snapshot (then_do p r st) = snapshot st"
  "running (then_do p r st) = running st"
  "invoked (then_do p r st) = invoked st"
  "timer (then_do p r st) = timer st"
  "stage (then_do p r st) = stage st"
  "thrown (then_do p r st) = thrown st"
  "observed (then_do p r st) = observed st"
  by (simp_all add: then_do_def enqueue_def split: option.splits)

lemma fold_then_do_frame [simp]:
  "flows (fold (\<lambda>k. then_do (f k) (g k)) ks st) = flows st"
  "settled (fold (\<lambda>k. then_do (f k) (g k)) ks st) = settled st"
  "heap (fold (\<lambda>k. then_do (f k) (g k)) ks st) = heap st"
  "launched (fold (\<lambda>k. then_do (f k) (g k)) ks st) = launched st"
  "refused (fold (\<lambda>k. then_do (f k) (g k)) ks st) = refused st"
  "settles (fold (\<lambda>k. then_do (f k) (g k)) ks st) = settles st"
  "remaining (fold (\<lambda>k. then_do (f k) (g k)) ks st) = remaining st"
  "snapshot (fold (\<lambda>k. then_do (f k) (g k)) ks st) = snapshot st"
  "running (fold (\<lambda>k. then_do (f k) (g k)) ks st) = running st"
  "invoked (fold (\<lambda>k. then_do (f k) (g k)) ks st) = invoked st"
  "timer (fold (\<lambda>k. then_do (f k) (g k)) ks st) = timer st"
  "stage (fold (\<lambda>k. then_do (f k) (g k)) ks st) = stage st"
  "thrown (fold (\<lambda>k. then_do (f k) (g k)) ks st) = thrown st"
  "observed (fold (\<lambda>k. then_do (f k) (g k)) ks st) = observed st"
  by (induction ks arbitrary: st) simp_all

lemma allSettled_frame [simp]:
  "flows (allSettled n ks st) = flows st"
  "settled (allSettled n ks st) = settled st"
  "launched (allSettled n ks st) = launched st"
  "refused (allSettled n ks st) = refused st"
  "settles (allSettled n ks st) = settles st"
  "snapshot (allSettled n ks st) = snapshot st"
  "running (allSettled n ks st) = running st"
  "invoked (allSettled n ks st) = invoked st"
  "timer (allSettled n ks st) = timer st"
  "stage (allSettled n ks st) = stage st"
  "thrown (allSettled n ks st) = thrown st"
  "observed (allSettled n ks st) = observed st"
  by (simp_all add: allSettled_def Let_def new_promise_def)

lemma settle_frame [simp]:
  "flows (snd (settle st)) = flows st"
  "launched (snd (settle st)) = launched st"
  "refused (snd (settle st)) = refused st"
  "running (snd (settle st)) = running st"
  "invoked (snd (settle st)) = invoked st"
  "timer (snd (settle st)) = timer st"
  "stage (snd (settle st)) = stage st"
  "thrown (snd (settle st)) = thrown st"
  "observed (snd (settle st)) = observed st"
  "settled (snd (settle st))"
  "settles (snd (settle st)) = Suc (settles st)"
  "fst (settle st) = SettleResult (settles st)"
  by (simp_all add: settle_def Let_def new_promise_def)

lemma flow_frame [simp]:
  "settled (snd (flow u st)) = settled st"
  "settles (snd (flow u st)) = settles st"
  "remaining (snd (flow u st)) = remaining st"
  "snapshot (snd (flow u st)) = snapshot st"
  "running (snd (flow u st)) = running st"
  "invoked (snd (flow u st)) = invoked st"
  "timer (snd (flow u st)) = timer st"
  "stage (snd (flow u st)) = stage st"
  "thrown (snd (flow u st)) = thrown st"
  "observed (snd (flow u st)) = observed st"
  by (simp_all add: flow_def Let_def new_promise_def enqueue_def rejected_promise_def)

section \<open>A frozen scope accepts nothing\<close>

lemmas block_defs =
  cascade_try_def tributary_try_def cascade_catch_def tributary_catch_def
  cascade_rethrow_def tributary_rethrow_def return_result_def

lemma block_flows:
  "flows (try_block pol v st) = flows st" "launched (try_block pol v st) = launched st"
  "flows (catch_block pol e st) = flows st" "launched (catch_block pol e st) = launched st"
  "flows (rethrow pol cfg e st) = flows st" "launched (rethrow pol cfg e st) = launched st"
  by (cases pol; simp add: block_defs freeze_token_def case_prod_beta split: option.splits)+

lemma react_launched: "launched (react cfg pol r oc st) = launched st"
  by (cases r; cases oc)
     (simp_all add: flow_handled_def flow_finally_def allSettled_element_def Let_def
        settle_resume_def return_result_def freeze_token_def enqueue_def block_flows)

lemma react_flows: "set (flows (react cfg pol r oc st)) \<subseteq> set (flows st)"
  by (cases r; cases oc)
     (auto simp: flow_handled_def flow_finally_def allSettled_element_def Let_def
        settle_resume_def return_result_def freeze_token_def enqueue_def block_flows)

lemma run_job_launched: "launched (run_job cfg pol j st) = launched st"
proof (cases j)
  case (RunUndertaking k u)
  then show ?thesis by (cases u) simp_all
next
  case (React r oc)
  then show ?thesis by (simp add: react_launched)
next
  case (Deliver h k oc)
  then show ?thesis by (cases h) (simp_all add: enqueue_def)
qed

lemma run_job_flows: "set (flows (run_job cfg pol j st)) \<subseteq> set (flows st)"
proof (cases j)
  case (RunUndertaking k u)
  then show ?thesis by (cases u) simp_all
next
  case (React r oc)
  then show ?thesis by (simp add: react_flows)
next
  case (Deliver h k oc)
  then show ?thesis by (cases h) (simp_all add: enqueue_def)
qed

lemma flow_frozen:
  "isFrozen (tideToken st) \<Longrightarrow>
   flow u st = (Refused (refused st),
     st\<lparr>refused := Suc (refused st),
        heap := (heap st)(Refused (refused st) \<mapsto> Rejected scope_closed)\<rparr>)"
  by (simp add: flow_def Let_def rejected_promise_def)

lemma frozen_step_closed:
  assumes "isFrozen (tideToken st)" and "step cfg pol ev st = Some st'"
  shows "launched st' = launched st \<and> set (flows st') \<subseteq> set (flows st)"
proof (cases ev)
  case Tick
  with assms(2) show ?thesis
    using run_job_flows [of cfg pol _ "st\<lparr>queue := tl (queue st)\<rparr>"]
    by (cases "queue st") (auto simp: run_job_launched)
next
  case (Launch u)
  with assms show ?thesis by (auto simp: flow_frozen)
next
  case (Finish k oc)
  with assms(2) show ?thesis by (auto split: if_splits)
next
  case BodyReturns
  with assms(2) show ?thesis
    by (auto simp: await_body_def executeWithTimeout_def Let_def new_promise_def
        split: if_splits)
next
  case (BodyThrows e)
  with assms(2) show ?thesis by (auto simp: block_flows split: if_splits)
next
  case (BodySettles oc)
  with assms(2) show ?thesis by (auto split: if_splits)
next
  case TimerFires
  with assms(2) show ?thesis
    by (auto simp: timer_callback_def freeze_token_def split: if_splits)
next
  case CallSettle
  with assms(2) show ?thesis by auto
qed

lemma frozen_run_closed:
  "isFrozen (tideToken st) \<Longrightarrow> run cfg pol evs st = Some st' \<Longrightarrow>
   launched st' = launched st \<and> set (flows st') \<subseteq> set (flows st)"
proof (induction evs arbitrary: st)
  case Nil
  then show ?case by simp
next
  case (Cons ev evs)
  from Cons.prems obtain s where s: "step cfg pol ev st = Some s" and r: "run cfg pol evs s = Some st'"
    by (auto split: option.splits)
  from frozen_step [OF Cons.prems(1) s] have "isFrozen (tideToken s)" .
  from Cons.IH [OF this r] frozen_step_closed [OF Cons.prems(1) s] show ?case by auto
qed

lemma some_the: "\<not> Option.is_none x \<Longrightarrow> x = Some (the x)"
  by (cases x) simp_all

lemma tributary_is_cascade_after_freeze:
  "tributary_try v st = cascade_try v (freeze_token st)"
  by (simp add: tributary_try_def cascade_try_def)

lemma cascade_try_token: "tideToken (cascade_try v st) = tideToken st"
  by (simp add: cascade_try_def case_prod_beta tideToken_simps)

lemma try_settled: "settled (cascade_try v st)" "settled (tributary_try v st)"
  by (simp_all add: cascade_try_def tributary_try_def case_prod_beta)

section \<open>What every state of a call satisfies\<close>

lemma grows_refl: "grows st st"
  by (simp add: grows_def)

lemma grows_trans: "grows a b \<Longrightarrow> grows b c \<Longrightarrow> grows a c"
  unfolding grows_def by (intro conjI; fastforce)

lemma try_ok_grows: "grows st st' \<Longrightarrow> try_ok cfg pol st v \<Longrightarrow> try_ok cfg pol st' v"
  by (auto simp: grows_def try_ok_def)

lemma catch_ok_grows: "grows st st' \<Longrightarrow> catch_ok cfg st e \<Longrightarrow> catch_ok cfg st' e"
  by (auto simp: grows_def catch_ok_def raised_def)

lemma rethrown_grows: "grows st st' \<Longrightarrow> rethrown cfg pol st err e \<Longrightarrow> rethrown cfg pol st' err e"
  by (auto simp: grows_def rethrown_def split: option.splits)

lemma allocated_grows: "grows st st' \<Longrightarrow> allocated st p \<Longrightarrow> allocated st' p"
  by (cases p) (auto simp: grows_def)

lemma grows_settles: "grows st st' \<Longrightarrow> n < settles st \<Longrightarrow> n < settles st'"
  by (simp add: grows_def)

lemma reg_ok_grows: "grows st st' \<Longrightarrow> reg_ok cfg pol st p r \<Longrightarrow> reg_ok cfg pol st' p r"
  by (cases r) (auto dest: try_ok_grows catch_ok_grows grows_settles)

lemma grows_heap: "grows st st' \<Longrightarrow> heap st p = Some oc \<Longrightarrow> heap st' p = Some oc"
  by (simp add: grows_def)

lemma grows_launched: "grows st st' \<Longrightarrow> k < launched st \<Longrightarrow> k < launched st'"
  by (simp add: grows_def)

lemma grows_removed:
  "grows st st' \<Longrightarrow> k < launched st \<Longrightarrow> k \<notin> set (flows st) \<Longrightarrow> k \<notin> set (flows st')"
  by (simp add: grows_def)

lemma grows_frozen: "grows st st' \<Longrightarrow> estuary_isFrozen st \<Longrightarrow> estuary_isFrozen st'"
  by (simp add: grows_def)

lemma job_ok_grows: "grows st st' \<Longrightarrow> job_ok cfg pol st j \<Longrightarrow> job_ok cfg pol st' j"
proof (cases j)
  case (RunUndertaking k u)
  then show "grows st st' \<Longrightarrow> job_ok cfg pol st j \<Longrightarrow> job_ok cfg pol st' j"
    by (auto dest: grows_launched)
next
  case (React r oc)
  then show "grows st st' \<Longrightarrow> job_ok cfg pol st j \<Longrightarrow> job_ok cfg pol st' j"
    by (cases r) (auto dest: try_ok_grows catch_ok_grows grows_heap grows_settles)
next
  case (Deliver h k oc)
  then show "grows st st' \<Longrightarrow> job_ok cfg pol st j \<Longrightarrow> job_ok cfg pol st' j"
    by (auto dest: grows_heap grows_launched grows_removed)
qed

lemma grows_remaining:
  "grows st st' \<Longrightarrow> heap st (AllSettled n) = Some oc \<Longrightarrow> remaining st' n = remaining st n"
  by (simp add: grows_def)

lemma settle_pre_grows:
  "grows st st' \<Longrightarrow> heap st p = Some x \<Longrightarrow> allocated st p \<Longrightarrow>
   settle_pre cfg pol st p oc \<Longrightarrow> settle_pre cfg pol st' p oc"
proof (cases p)
  case CallResult
  then show "grows st st' \<Longrightarrow> heap st p = Some x \<Longrightarrow> allocated st p \<Longrightarrow>
      settle_pre cfg pol st p oc \<Longrightarrow> settle_pre cfg pol st' p oc"
    by (cases oc) (auto dest: try_ok_grows catch_ok_grows rethrown_grows)
qed (auto dest: grows_heap grows_removed grows_frozen grows_remaining)

lemma inv_mainD:
  assumes "inv_main cfg pol st"
  shows "heap st p = Some oc \<Longrightarrow> allocated st p"
    and "heap st p = Some oc \<Longrightarrow> settle_pre cfg pol st p oc"
    and "(p, r) \<in> set (reactions st) \<Longrightarrow> allocated st p"
    and "(p, r) \<in> set (reactions st) \<Longrightarrow> heap st p = None"
    and "(p, r) \<in> set (reactions st) \<Longrightarrow> reg_ok cfg pol st p r"
    and "j \<in> set (queue st) \<Longrightarrow> job_ok cfg pol st j"
    and "k \<in> set (flows st) \<Longrightarrow> k < launched st"
    and "k \<in> set (running st) \<Longrightarrow> k < launched st"
    and "(x, t) \<in> set (observed st) \<Longrightarrow>
           is_Error x \<and> t = tag pol \<and> onError cfg \<noteq> None \<and> catch_ok cfg st x"
    and "stage st = Calling \<Longrightarrow> \<not> timer st \<and> thrown st = None"
    and "stage st = Thrown \<Longrightarrow> \<not> timer st"
    and "thrown st \<noteq> None \<Longrightarrow> stage st = Thrown"
    and "timer st \<Longrightarrow> truthy (timeout cfg) \<and> heap st TimerPromise = None
           \<and> (TimerPromise, OnRace) \<in> set (reactions st)"
  using assms unfolding inv_main_def by blast+

text \<open>One rule for every move: the state grows, and whatever is new is in order.\<close>

lemma inv_main_delta:
  assumes inv: "inv_main cfg pol st" and g: "grows st st'"
    and h: "\<And>p oc. heap st' p = Some oc \<Longrightarrow>
              heap st p = Some oc \<or> allocated st' p \<and> settle_pre cfg pol st' p oc"
    and r: "\<And>p r. (p, r) \<in> set (reactions st') \<Longrightarrow>
              heap st' p = None \<and>
              ((p, r) \<in> set (reactions st) \<or> allocated st' p \<and> reg_ok cfg pol st' p r)"
    and q: "\<And>j. j \<in> set (queue st') \<Longrightarrow> j \<in> set (queue st) \<or> job_ok cfg pol st' j"
    and f: "\<And>k. k \<in> set (flows st') \<Longrightarrow> k \<in> set (flows st) \<or> k < launched st'"
    and u: "\<And>k. k \<in> set (running st') \<Longrightarrow> k \<in> set (running st) \<or> k < launched st'"
    and ob: "\<And>x t. (x, t) \<in> set (observed st') \<Longrightarrow> (x, t) \<in> set (observed st) \<or>
              is_Error x \<and> t = tag pol \<and> onError cfg \<noteq> None \<and> catch_ok cfg st' x"
    and s1: "stage st' = Calling \<Longrightarrow> \<not> timer st' \<and> thrown st' = None"
    and s2: "stage st' = Thrown \<Longrightarrow> \<not> timer st'"
    and s3: "thrown st' \<noteq> None \<Longrightarrow> stage st' = Thrown"
    and s4: "timer st' \<Longrightarrow> truthy (timeout cfg) \<and> heap st' TimerPromise = None
              \<and> (TimerPromise, OnRace) \<in> set (reactions st')"
  shows "inv_main cfg pol st'"
  unfolding inv_main_def
proof (intro conjI allI impI)
  fix p oc assume a: "heap st' p = Some oc"
  from h [OF a] inv_mainD(1) [OF inv] allocated_grows [OF g] show "allocated st' p"
    by blast
  from h [OF a] inv_mainD(1,2) [OF inv] settle_pre_grows [OF g]
  show "settle_pre cfg pol st' p oc"
    by metis
next
  fix p r assume a: "(p, r) \<in> set (reactions st')"
  from r [OF a] show "heap st' p = None" by simp
  from r [OF a] inv_mainD(3) [OF inv] allocated_grows [OF g] show "allocated st' p"
    by blast
  from r [OF a] inv_mainD(5) [OF inv] reg_ok_grows [OF g] show "reg_ok cfg pol st' p r"
    by blast
next
  fix j assume a: "j \<in> set (queue st')"
  from q [OF a] inv_mainD(6) [OF inv] job_ok_grows [OF g] show "job_ok cfg pol st' j"
    by blast
next
  fix k assume a: "k \<in> set (flows st')"
  from f [OF a] inv_mainD(7) [OF inv] grows_launched [OF g] show "k < launched st'"
    by blast
next
  fix k assume a: "k \<in> set (running st')"
  from u [OF a] inv_mainD(8) [OF inv] grows_launched [OF g] show "k < launched st'"
    by blast
next
  fix x t assume a: "(x, t) \<in> set (observed st')"
  from ob [OF a] inv_mainD(9) [OF inv] show "is_Error x" "t = tag pol" "onError cfg \<noteq> None"
    by blast+
  from ob [OF a] inv_mainD(9) [OF inv] catch_ok_grows [OF g] show "catch_ok cfg st' x"
    by blast
next
  assume "stage st' = Calling"
  with s1 show "\<not> timer st'" "thrown st' = None" by simp_all
next
  assume "stage st' = Thrown"
  with s2 show "\<not> timer st'" by simp
next
  assume "thrown st' \<noteq> None"
  with s3 show "stage st' = Thrown" by simp
next
  assume "timer st'"
  with s4 show "truthy (timeout cfg)" "heap st' TimerPromise = None"
    "(TimerPromise, OnRace) \<in> set (reactions st')" by simp_all
qed

lemma inv_unallocated: "inv_main cfg pol st \<Longrightarrow> \<not> allocated st p \<Longrightarrow> heap st p = None"
  using inv_mainD(1) by (cases "heap st p") blast+

lemma new_promise_id: "heap st p = None \<Longrightarrow> new_promise p st = st"
  by (simp add: new_promise_def fun_upd_idem)

lemma resolve_settled: "heap st p \<noteq> None \<Longrightarrow> resolve p oc st = st"
  by (simp add: resolve_def)

lemma resolve_pending:
  "heap st p = None \<Longrightarrow>
   heap (resolve p oc st) = (heap st)(p \<mapsto> oc) \<and>
   queue (resolve p oc st) =
     queue st @ map (\<lambda>x. React (snd x) oc) (filter (\<lambda>x. fst x = p) (reactions st)) \<and>
   reactions (resolve p oc st) = filter (\<lambda>x. fst x \<noteq> p) (reactions st) \<and>
   tideToken (resolve p oc st) = tideToken st"
  by (simp add: resolve_def)

lemma reg_job:
  assumes "reg_ok cfg pol st p r" and "heap st p = Some oc" and "settle_pre cfg pol st p oc"
  shows "job_ok cfg pol st (React r oc)"
  using assms by (cases r) (auto simp: awaited_def)

lemma grows_resolve: "grows st (resolve p oc st)"
  by (cases "heap st p")
     (auto simp: resolve_settled resolve_pending grows_def estuary_isFrozen_def)

lemma inv_main_resolve:
  assumes inv: "inv_main cfg pol st"
    and al: "allocated st p" and pre: "settle_pre cfg pol st p oc"
    and tm: "p = TimerPromise \<Longrightarrow> \<not> timer st"
  shows "inv_main cfg pol (resolve p oc st)"
proof (cases "heap st p")
  case (Some a)
  with inv show ?thesis by (simp add: resolve_settled)
next
  case None
  let ?s = "resolve p oc st"
  note rp = resolve_pending [OF None, of oc]
  note g = grows_resolve [of st p oc]
  have al': "allocated ?s p" using al g by (rule allocated_grows [rotated])
  have hp: "heap ?s p = Some oc" by (simp add: rp)
  have pre': "settle_pre cfg pol ?s p oc"
  proof (cases p)
    case CallResult
    with pre g show ?thesis
      by (cases oc) (auto dest: try_ok_grows catch_ok_grows rethrown_grows)
  next
    case (Returned k)
    with pre al g show ?thesis by (auto dest: grows_heap grows_removed)
  qed (use pre g in \<open>auto dest: grows_heap grows_frozen simp: grows_def\<close>)
  show ?thesis
  proof (rule inv_main_delta [OF inv g])
    fix q x assume "heap ?s q = Some x"
    then show "heap st q = Some x \<or> allocated ?s q \<and> settle_pre cfg pol ?s q x"
      using al' pre' by (auto simp: rp split: if_splits)
  next
    fix q r assume "(q, r) \<in> set (reactions ?s)"
    then show "heap ?s q = None \<and>
        ((q, r) \<in> set (reactions st) \<or> allocated ?s q \<and> reg_ok cfg pol ?s q r)"
      using inv_mainD(4) [OF inv] by (auto simp: rp)
  next
    fix j assume a: "j \<in> set (queue ?s)"
    show "j \<in> set (queue st) \<or> job_ok cfg pol ?s j"
    proof (cases "j \<in> set (queue st)")
      case False
      with a obtain r where r: "(p, r) \<in> set (reactions st)" and j: "j = React r oc"
        by (auto simp: rp)
      from inv_mainD(5) [OF inv r] g have "reg_ok cfg pol ?s p r" by (rule reg_ok_grows [rotated])
      with hp pre' j show ?thesis by (auto intro: reg_job)
    qed simp
  next
    assume "timer ?s"
    then show "truthy (timeout cfg) \<and> heap ?s TimerPromise = None
        \<and> (TimerPromise, OnRace) \<in> set (reactions ?s)"
      using inv_mainD(13) [OF inv] tm by (auto simp: rp)
  qed (use inv_mainD(10,11,12) [OF inv] in auto)
qed

lemma grows_then_do: "grows st (then_do p r st)"
  by (auto simp: then_do_def enqueue_def grows_def estuary_isFrozen_def split: option.splits)

lemma inv_main_then_do:
  assumes inv: "inv_main cfg pol st"
    and al: "allocated st p" and reg: "reg_ok cfg pol st p r"
  shows "inv_main cfg pol (then_do p r st)"
proof -
  let ?s = "then_do p r st"
  note g = grows_then_do [of st p r]
  have fr: "\<And>q. allocated ?s q = allocated st q"
    subgoal for q by (cases q) simp_all
    done
  have reg': "reg_ok cfg pol ?s p r" using reg g by (rule reg_ok_grows [rotated])
  show ?thesis
  proof (rule inv_main_delta [OF inv g])
    fix q x assume "(q, x) \<in> set (reactions ?s)"
    then show "heap ?s q = None \<and>
        ((q, x) \<in> set (reactions st) \<or> allocated ?s q \<and> reg_ok cfg pol ?s q x)"
      using inv_mainD(4) [OF inv] al reg' fr
      by (auto simp: then_do_def enqueue_def split: option.splits)
  next
    fix j assume a: "j \<in> set (queue ?s)"
    show "j \<in> set (queue st) \<or> job_ok cfg pol ?s j"
    proof (cases "j \<in> set (queue st)")
      case False
      with a obtain oc where h: "heap st p = Some oc" and j: "j = React r oc"
        by (auto simp: then_do_def enqueue_def split: option.splits)
      from inv_mainD(2) [OF inv h] reg h have "job_ok cfg pol st j"
        unfolding j by (intro reg_job)
      with g show ?thesis by (auto dest: job_ok_grows)
    qed simp
  next
    assume "timer ?s"
    then show "truthy (timeout cfg) \<and> heap ?s TimerPromise = None
        \<and> (TimerPromise, OnRace) \<in> set (reactions ?s)"
      using inv_mainD(13) [OF inv] by (auto simp: then_do_def enqueue_def split: option.splits)
  qed (use inv_mainD(10,11,12) [OF inv] in auto)
qed

lemma allocated_same:
  "launched st' = launched st \<Longrightarrow> refused st' = refused st \<Longrightarrow> settles st' = settles st \<Longrightarrow>
   stage st' = stage st \<Longrightarrow> allocated st' p = allocated st p"
  by (cases p) simp_all

lemma inv_main_enqueue:
  assumes inv: "inv_main cfg pol st" and j: "job_ok cfg pol st j"
  shows "inv_main cfg pol (enqueue j st)"
proof -
  have g: "grows st (enqueue j st)"
    by (simp add: grows_def enqueue_def estuary_isFrozen_def)
  show ?thesis
  proof (rule inv_main_delta [OF inv g])
    fix x assume "x \<in> set (queue (enqueue j st))"
    then show "x \<in> set (queue st) \<or> job_ok cfg pol (enqueue j st) x"
      using job_ok_grows [OF g j] by (auto simp: enqueue_def)
  next
    fix q r assume "(q, r) \<in> set (reactions (enqueue j st))"
    then show "heap (enqueue j st) q = None \<and>
        ((q, r) \<in> set (reactions st) \<or>
         allocated (enqueue j st) q \<and> reg_ok cfg pol (enqueue j st) q r)"
      using inv_mainD(4) [OF inv] by (auto simp: enqueue_def)
  qed (use inv_mainD(10,11,12,13) [OF inv] in \<open>auto simp: enqueue_def\<close>)
qed

lemma inv_main_freeze:
  assumes inv: "inv_main cfg pol st"
  shows "inv_main cfg pol (freeze_token st)"
proof -
  have g: "grows st (freeze_token st)"
    by (simp add: grows_def freeze_token_def estuary_isFrozen_def isFrozen_freeze)
  show ?thesis
  proof (rule inv_main_delta [OF inv g])
    fix q r assume "(q, r) \<in> set (reactions (freeze_token st))"
    then show "heap (freeze_token st) q = None \<and>
        ((q, r) \<in> set (reactions st) \<or>
         allocated (freeze_token st) q \<and> reg_ok cfg pol (freeze_token st) q r)"
      using inv_mainD(4) [OF inv] by (auto simp: freeze_token_def)
  qed (use inv_mainD(10,11,12,13) [OF inv] in \<open>auto simp: freeze_token_def\<close>)
qed

lemma inv_main_pop:
  assumes inv: "inv_main cfg pol st" and q: "queue st = j # js"
  shows "inv_main cfg pol (st\<lparr>queue := js\<rparr>)" and "job_ok cfg pol (st\<lparr>queue := js\<rparr>) j"
proof -
  have g: "grows st (st\<lparr>queue := js\<rparr>)"
    by (simp add: grows_def estuary_isFrozen_def)
  show "inv_main cfg pol (st\<lparr>queue := js\<rparr>)"
  proof (rule inv_main_delta [OF inv g])
    fix q r assume "(q, r) \<in> set (reactions (st\<lparr>queue := js\<rparr>))"
    then show "heap (st\<lparr>queue := js\<rparr>) q = None \<and>
        ((q, r) \<in> set (reactions st) \<or>
         allocated (st\<lparr>queue := js\<rparr>) q \<and> reg_ok cfg pol (st\<lparr>queue := js\<rparr>) q r)"
      using inv_mainD(4) [OF inv] by auto
  qed (use inv_mainD(10,11,12,13) [OF inv] q in auto)
  from inv_mainD(6) [OF inv, of j] q have "job_ok cfg pol st j" by simp
  with g show "job_ok cfg pol (st\<lparr>queue := js\<rparr>) j" by (rule job_ok_grows)
qed

text \<open>Updates of fields the invariant reads only through \<open>grows\<close>.\<close>

lemma inv_main_quiet:
  assumes inv: "inv_main cfg pol st" and g: "grows st st'"
    and same: "heap st' = heap st" "reactions st' = reactions st" "queue st' = queue st"
      "flows st' = flows st" "running st' = running st" "observed st' = observed st"
      "timer st' = timer st" "stage st' = stage st" "thrown st' = thrown st"
  shows "inv_main cfg pol st'"
proof (rule inv_main_delta [OF inv g])
  fix q r assume "(q, r) \<in> set (reactions st')"
  then show "heap st' q = None \<and>
      ((q, r) \<in> set (reactions st) \<or> allocated st' q \<and> reg_ok cfg pol st' q r)"
    using inv_mainD(4) [OF inv] same by auto
qed (use inv_mainD(10,11,12,13) [OF inv] same in auto)

lemma inv_main_settles:
  "inv_main cfg pol st \<Longrightarrow> inv_main cfg pol (st\<lparr>settles := Suc (settles st)\<rparr>)"
  by (erule inv_main_quiet) (simp_all add: grows_def estuary_isFrozen_def)

lemma inv_main_settled:
  "inv_main cfg pol st \<Longrightarrow> inv_main cfg pol (st\<lparr>settled := True\<rparr>)"
  by (erule inv_main_quiet) (simp_all add: grows_def estuary_isFrozen_def)

lemma inv_main_snapshot:
  "inv_main cfg pol st \<Longrightarrow> inv_main cfg pol (st\<lparr>snapshot := f\<rparr>)"
  by (erule inv_main_quiet) (simp_all add: grows_def estuary_isFrozen_def)

lemma inv_main_invoked:
  "inv_main cfg pol st \<Longrightarrow> inv_main cfg pol (st\<lparr>invoked := f\<rparr>)"
  by (erule inv_main_quiet) (simp_all add: grows_def estuary_isFrozen_def)

lemma inv_main_remaining_fresh:
  "inv_main cfg pol st \<Longrightarrow> heap st (AllSettled n) = None \<Longrightarrow>
   inv_main cfg pol (st\<lparr>remaining := (remaining st)(n := ks)\<rparr>)"
  by (erule inv_main_quiet) (auto simp: grows_def estuary_isFrozen_def)

lemma flow_open:
  assumes "\<not> isFrozen (tideToken st)"
  shows "flow u st = (Returned (launched st),
    st\<lparr>launched := Suc (launched st),
       heap := (heap st)(FlowPromise (launched st) := None, Handled (launched st) := None,
                 Returned (launched st) := None),
       queue := queue st @ [RunUndertaking (launched st) u],
       flows := flows st @ [launched st],
       reactions := reactions st @ [(FlowPromise (launched st), OnFlow (launched st)),
                      (Handled (launched st), OnFinally (launched st))]\<rparr>)"
  using assms by (simp add: flow_def Let_def new_promise_def enqueue_def then_do_def)

lemma inv_main_flow:
  assumes inv: "inv_main cfg pol st"
  shows "inv_main cfg pol (snd (flow u st))"
proof (cases "isFrozen (tideToken st)")
  case True
  let ?n = "refused st"
  let ?s = "st\<lparr>refused := Suc ?n, heap := (heap st)(Refused ?n \<mapsto> Rejected scope_closed)\<rparr>"
  have hn: "heap st (Refused ?n) = None"
    using inv by (rule inv_unallocated) simp
  have g: "grows st ?s"
    using hn by (auto simp: grows_def estuary_isFrozen_def)
  have "inv_main cfg pol ?s"
  proof (rule inv_main_delta [OF inv g])
    fix q r assume a: "(q, r) \<in> set (reactions ?s)"
    with inv_mainD(3) [OF inv, of q r] have "q \<noteq> Refused ?n" by auto
    with a show "heap ?s q = None \<and>
        ((q, r) \<in> set (reactions st) \<or> allocated ?s q \<and> reg_ok cfg pol ?s q r)"
      using inv_mainD(4) [OF inv] by auto
  next
    fix q x assume "heap ?s q = Some x"
    then show "heap st q = Some x \<or> allocated ?s q \<and> settle_pre cfg pol ?s q x"
      by (auto split: if_splits)
  qed (use inv_mainD(10,11,12,13) [OF inv] in auto)
  with True show ?thesis by (simp add: flow_frozen)
next
  case False
  let ?k = "launched st"
  let ?s = "st\<lparr>launched := Suc ?k,
       heap := (heap st)(FlowPromise ?k := None, Handled ?k := None, Returned ?k := None),
       queue := queue st @ [RunUndertaking ?k u],
       flows := flows st @ [?k],
       reactions := reactions st @ [(FlowPromise ?k, OnFlow ?k), (Handled ?k, OnFinally ?k)]\<rparr>"
  have hn: "heap st (FlowPromise ?k) = None" "heap st (Handled ?k) = None"
    "heap st (Returned ?k) = None"
    using inv by (auto intro: inv_unallocated)
  have hs: "heap ?s = heap st"
    using hn by (auto simp: fun_upd_idem)
  have g: "grows st ?s"
    unfolding grows_def using hs by (auto simp: estuary_isFrozen_def)
  have "inv_main cfg pol ?s"
  proof (rule inv_main_delta [OF inv g])
    fix q r assume a: "(q, r) \<in> set (reactions ?s)"
    then show "heap ?s q = None \<and>
        ((q, r) \<in> set (reactions st) \<or> allocated ?s q \<and> reg_ok cfg pol ?s q r)"
      using inv_mainD(4) [OF inv] hn unfolding hs by auto
  next
    fix q x assume "heap ?s q = Some x"
    then show "heap st q = Some x \<or> allocated ?s q \<and> settle_pre cfg pol ?s q x"
      unfolding hs by simp
  qed (use inv_mainD(10,11,12,13) [OF inv] hn in \<open>auto simp: hs\<close>)
  with False show ?thesis by (simp add: flow_open)
qed

lemma inv_main_fold:
  "inv_main cfg pol st \<Longrightarrow> \<forall>k\<in>set ks. k < launched st \<Longrightarrow> n < settles st \<Longrightarrow>
   inv_main cfg pol (fold (\<lambda>k. then_do (FlowPromise k) (OnElement n k)) ks st)"
proof (induction ks arbitrary: st)
  case Nil
  then show ?case by simp
next
  case (Cons k ks)
  from Cons.prems have "inv_main cfg pol (then_do (FlowPromise k) (OnElement n k) st)"
    by (intro inv_main_then_do) simp_all
  with Cons.prems show ?case by (simp add: Cons.IH)
qed

lemma inv_main_allSettled:
  assumes inv: "inv_main cfg pol st" and n: "heap st (AllSettled n) = None" "n < settles st"
    and ks: "\<forall>k\<in>set ks. k < launched st"
  shows "inv_main cfg pol (allSettled n ks st)"
proof -
  let ?a = "st\<lparr>remaining := (remaining st)(n := ks)\<rparr>"
  let ?b = "fold (\<lambda>k. then_do (FlowPromise k) (OnElement n k)) ks ?a"
  have a: "inv_main cfg pol ?a"
    using inv n(1) by (rule inv_main_remaining_fresh)
  have na: "new_promise (AllSettled n) ?a = ?a"
    using n(1) by (simp add: new_promise_id)
  have b: "inv_main cfg pol ?b"
    using a ks n(2) by (intro inv_main_fold) simp_all
  have "ks = [] \<Longrightarrow> inv_main cfg pol (resolve (AllSettled n) (Fulfilled Undefined) ?b)"
    using b n(2) by (intro inv_main_resolve) simp_all
  with b show ?thesis
    by (simp add: allSettled_def Let_def na)
qed

lemma inv_main_settle:
  assumes inv: "inv_main cfg pol st"
  shows "inv_main cfg pol (snd (settle st))"
proof -
  let ?n = "settles st"
  let ?s0 = "st\<lparr>settles := Suc ?n\<rparr>"
  have hn: "heap st (SettleResult ?n) = None" "heap st (AllSettled ?n) = None"
    using inv by (auto intro: inv_unallocated)
  have n0: "new_promise (SettleResult ?n) ?s0 = ?s0"
    using hn by (simp add: new_promise_id)
  have i0: "inv_main cfg pol ?s0"
    using inv by (rule inv_main_settles)
  show ?thesis
  proof (cases "settled st")
    case True
    have "inv_main cfg pol (resolve (SettleResult ?n) (Fulfilled Undefined) ?s0)"
      using i0 by (intro inv_main_resolve) simp_all
    with True show ?thesis by (simp add: settle_def Let_def n0)
  next
    case False
    let ?s2 = "?s0\<lparr>settled := True, snapshot := (snapshot st)(?n := flows st)\<rparr>"
    have i2: "inv_main cfg pol ?s2"
      using inv_main_snapshot [OF inv_main_settled [OF i0]] by simp
    have i3: "inv_main cfg pol (allSettled ?n (flows st) ?s2)"
      using i2 hn inv_mainD(7) [OF inv] by (intro inv_main_allSettled) auto
    have "inv_main cfg pol (then_do (AllSettled ?n) (ResumeSettle ?n) (allSettled ?n (flows st) ?s2))"
      using i3 by (intro inv_main_then_do) simp_all
    with False show ?thesis by (simp add: settle_def Let_def n0)
  qed
qed

lemma job_allocated:
  assumes inv: "inv_main cfg pol st" and h: "heap st p = Some oc"
  shows "allocated st p"
  using inv_mainD(1) [OF inv h] .

lemma stage_cases: "stage st \<noteq> Calling \<Longrightarrow> stage st \<noteq> Thrown \<Longrightarrow> stage st = Awaiting"
  by (cases "stage st") simp_all

lemma awaited_body:
  assumes inv: "inv_main cfg pol st" and h: "heap st (awaited cfg) = Some (Fulfilled v)"
  shows "heap st Body = Some (Fulfilled v)"
proof (cases "truthy (timeout cfg)")
  case True
  with h have r: "heap st Race = Some (Fulfilled v)" by (simp add: awaited_def)
  from inv_mainD(2) [OF inv r]
  have "heap st Body = Some (Fulfilled v) \<or> heap st TimerPromise = Some (Fulfilled v)" by simp
  moreover have "heap st TimerPromise \<noteq> Some (Fulfilled v)"
    using inv_mainD(2) [OF inv, of TimerPromise "Fulfilled v"] by auto
  ultimately show ?thesis by simp
next
  case False
  with h show ?thesis by (simp add: awaited_def)
qed

lemma grows_enqueue: "grows st (enqueue j st)"
  by (simp add: grows_def enqueue_def estuary_isFrozen_def)

lemma grows_freeze: "grows st (freeze_token st)"
  by (simp add: grows_def freeze_token_def estuary_isFrozen_def isFrozen_freeze)

lemma grows_fold: "grows st (fold (\<lambda>k. then_do (f k) (g k)) ks st)"
proof (induction ks arbitrary: st)
  case Nil
  show ?case by (simp add: grows_refl)
next
  case (Cons k ks)
  have "grows st (fold (\<lambda>k. then_do (f k) (g k)) ks (then_do (f k) (g k) st))"
    using grows_then_do Cons.IH by (rule grows_trans)
  then show ?case by simp
qed

lemma grows_allSettled:
  assumes "heap st (AllSettled n) = None"
  shows "grows st (allSettled n ks st)"
proof -
  let ?a = "st\<lparr>remaining := (remaining st)(n := ks)\<rparr>"
  let ?b = "fold (\<lambda>k. then_do (FlowPromise k) (OnElement n k)) ks ?a"
  have a: "grows st ?a"
    using assms by (auto simp: grows_def estuary_isFrozen_def)
  have na: "new_promise (AllSettled n) ?a = ?a"
    using assms by (simp add: new_promise_id)
  have b: "grows st ?b"
    using a grows_fold by (rule grows_trans)
  have "ks = [] \<Longrightarrow> grows st (resolve (AllSettled n) (Fulfilled Undefined) ?b)"
    using b grows_resolve by (rule grows_trans)
  with b show ?thesis
    by (simp add: allSettled_def Let_def na)
qed

lemma grows_settle:
  assumes inv: "inv_main cfg pol st"
  shows "grows st (snd (settle st))"
proof -
  let ?n = "settles st"
  let ?s0 = "st\<lparr>settles := Suc ?n\<rparr>"
  have hn: "heap st (SettleResult ?n) = None" "heap st (AllSettled ?n) = None"
    using inv by (auto intro: inv_unallocated)
  have n0: "new_promise (SettleResult ?n) ?s0 = ?s0"
    using hn by (simp add: new_promise_id)
  have g0: "grows st ?s0"
    by (simp add: grows_def estuary_isFrozen_def)
  show ?thesis
  proof (cases "settled st")
    case True
    have "grows st (resolve (SettleResult ?n) (Fulfilled Undefined) ?s0)"
      using g0 grows_resolve by (rule grows_trans)
    with True show ?thesis by (simp add: settle_def Let_def n0)
  next
    case False
    let ?s2 = "?s0\<lparr>settled := True, snapshot := (snapshot st)(?n := flows st)\<rparr>"
    have g2: "grows st ?s2"
      by (simp add: grows_def estuary_isFrozen_def)
    have "grows ?s2 (allSettled ?n (flows st) ?s2)"
      using hn by (intro grows_allSettled) simp
    with g2 have g3: "grows st (allSettled ?n (flows st) ?s2)"
      by (rule grows_trans)
    have "grows st (then_do (AllSettled ?n) (ResumeSettle ?n) (allSettled ?n (flows st) ?s2))"
      using g3 grows_then_do by (rule grows_trans)
    with False show ?thesis by (simp add: settle_def Let_def n0)
  qed
qed

lemma grows_flow:
  assumes inv: "inv_main cfg pol st"
  shows "grows st (snd (flow u st))"
proof (cases "isFrozen (tideToken st)")
  case True
  have "heap st (Refused (refused st)) = None"
    using inv by (rule inv_unallocated) simp
  with True show ?thesis
    by (auto simp: flow_frozen grows_def estuary_isFrozen_def)
next
  case False
  let ?k = "launched st"
  have hn: "heap st (FlowPromise ?k) = None" "heap st (Handled ?k) = None"
    "heap st (Returned ?k) = None"
    using inv by (auto intro: inv_unallocated)
  with False show ?thesis
    by (auto simp: flow_open grows_def estuary_isFrozen_def)
qed

lemma raised_grows: "grows st st' \<Longrightarrow> raised cfg st e \<Longrightarrow> raised cfg st' e"
  by (auto simp: raised_def grows_def)

lemma inv_main_try_block:
  assumes inv: "inv_main cfg pol st" and h: "heap st (awaited cfg) = Some (Fulfilled v)"
  shows "inv_main cfg pol (try_block pol v st)"
proof -
  have b: "heap st Body = Some (Fulfilled v)" using inv h by (rule awaited_body)
  show ?thesis
  proof (cases pol)
    case Cascade
    let ?s = "snd (settle st)"
    have i: "inv_main cfg pol ?s" using inv by (rule inv_main_settle)
    have "heap ?s Body = Some (Fulfilled v)" "heap ?s (awaited cfg) = Some (Fulfilled v)"
      using grows_settle [OF inv] b h by (auto intro: grows_heap)
    then have "try_ok cfg pol ?s v" using Cascade by (simp add: try_ok_def)
    then have "inv_main cfg pol (then_do (SettleResult (settles st)) (ResumeTry v) ?s)"
      using i by (intro inv_main_then_do) simp_all
    with Cascade show ?thesis by (simp add: cascade_try_def case_prod_beta)
  next
    case Tributary
    let ?f = "freeze_token st"
    let ?s = "snd (settle ?f)"
    have i: "inv_main cfg pol ?s" using inv by (intro inv_main_settle inv_main_freeze)
    have "grows st ?s"
      using grows_freeze grows_settle [OF inv_main_freeze [OF inv]] by (rule grows_trans)
    then have "heap ?s Body = Some (Fulfilled v)" "heap ?s (awaited cfg) = Some (Fulfilled v)"
      using b h by (auto intro: grows_heap)
    moreover have "estuary_isFrozen ?s"
      by (simp add: estuary_isFrozen_def tideToken_settle freeze_token_def isFrozen_freeze)
    ultimately have "try_ok cfg pol ?s v" by (simp add: try_ok_def)
    then have "inv_main cfg pol (then_do (SettleResult (settles ?f)) (ResumeTry v) ?s)"
      using i by (intro inv_main_then_do) simp_all
    with Tributary show ?thesis by (simp add: tributary_try_def case_prod_beta)
  qed
qed

lemma inv_main_catch_block:
  assumes inv: "inv_main cfg pol st" and h: "raised cfg st e"
  shows "inv_main cfg pol (catch_block pol e st)"
proof -
  let ?f = "freeze_token st"
  let ?s = "snd (settle ?f)"
  have i: "inv_main cfg pol ?s" using inv by (intro inv_main_settle inv_main_freeze)
  have g: "grows st ?s"
    using grows_freeze grows_settle [OF inv_main_freeze [OF inv]] by (rule grows_trans)
  then have "raised cfg ?s e" using h by (rule raised_grows)
  moreover have "estuary_isFrozen ?s"
    by (simp add: estuary_isFrozen_def tideToken_settle freeze_token_def isFrozen_freeze)
  ultimately have "catch_ok cfg ?s e" by (simp add: catch_ok_def)
  then have "inv_main cfg pol (then_do (SettleResult (settles ?f)) (ResumeCatch e) ?s)"
    using i by (intro inv_main_then_do) simp_all
  then show ?thesis
    by (cases pol) (simp_all add: cascade_catch_def tributary_catch_def case_prod_beta)
qed

lemma inv_main_observed:
  assumes inv: "inv_main cfg pol st"
    and e: "is_Error e" "onError cfg \<noteq> None" "catch_ok cfg st e"
  shows "inv_main cfg pol (st\<lparr>observed := observed st @ [(e, tag pol)]\<rparr>)"
    and "grows st (st\<lparr>observed := observed st @ [(e, tag pol)]\<rparr>)"
proof -
  let ?s = "st\<lparr>observed := observed st @ [(e, tag pol)]\<rparr>"
  show g: "grows st ?s"
    by (auto simp: grows_def estuary_isFrozen_def)
  show "inv_main cfg pol ?s"
  proof (rule inv_main_delta [OF inv g])
    fix q r assume "(q, r) \<in> set (reactions ?s)"
    then show "heap ?s q = None \<and>
        ((q, r) \<in> set (reactions st) \<or> allocated ?s q \<and> reg_ok cfg pol ?s q r)"
      using inv_mainD(4) [OF inv] by auto
  next
    fix x t assume "(x, t) \<in> set (observed ?s)"
    then show "(x, t) \<in> set (observed st) \<or>
        is_Error x \<and> t = tag pol \<and> onError cfg \<noteq> None \<and> catch_ok cfg ?s x"
      using e catch_ok_grows [OF g e(3)] by auto
  qed (use inv_mainD(10,11,12,13) [OF inv] in auto)
qed

lemma rethrow_eq:
  "rethrow pol cfg e st =
     (case onError cfg of
        None \<Rightarrow> resolve CallResult (Rejected e) st
      | Some obs \<Rightarrow>
          if is_Error e then
            (case obs e (tag pol) of
               None \<Rightarrow> resolve CallResult (Rejected e)
                         (st\<lparr>observed := observed st @ [(e, tag pol)]\<rparr>)
             | Some failure \<Rightarrow> resolve CallResult (Rejected failure)
                         (st\<lparr>observed := observed st @ [(e, tag pol)]\<rparr>))
          else resolve CallResult (Rejected e) st)"
  by (cases pol) (auto simp: cascade_rethrow_def tributary_rethrow_def split: option.splits)

lemma inv_main_rethrow:
  assumes inv: "inv_main cfg pol st" and c: "catch_ok cfg st e"
  shows "inv_main cfg pol (rethrow pol cfg e st) \<and> grows st (rethrow pol cfg e st)"
proof (cases "onError cfg")
  case None
  then have "settle_pre cfg pol st CallResult (Rejected e)"
    using c by (auto simp: rethrown_def)
  with inv have "inv_main cfg pol (resolve CallResult (Rejected e) st)"
    by (intro inv_main_resolve) simp_all
  with None show ?thesis by (simp add: rethrow_eq grows_resolve)
next
  case (Some obs)
  show ?thesis
  proof (cases "is_Error e")
    case False
    then have "settle_pre cfg pol st CallResult (Rejected e)"
      using c Some by (auto simp: rethrown_def)
    with inv have "inv_main cfg pol (resolve CallResult (Rejected e) st)"
      by (intro inv_main_resolve) simp_all
    with Some False show ?thesis by (simp add: rethrow_eq grows_resolve)
  next
    case True
    let ?s = "st\<lparr>observed := observed st @ [(e, tag pol)]\<rparr>"
    have i: "inv_main cfg pol ?s" and g: "grows st ?s"
      using inv True Some c by (auto intro: inv_main_observed)
    have c': "catch_ok cfg ?s e" using g c by (rule catch_ok_grows)
    have pre: "\<And>x. (case obs e (tag pol) of None \<Rightarrow> x = e | Some y \<Rightarrow> x = y) \<Longrightarrow>
                 settle_pre cfg pol ?s CallResult (Rejected x)"
      using c' Some True by (auto simp: rethrown_def)
    have r: "\<And>x. (case obs e (tag pol) of None \<Rightarrow> x = e | Some y \<Rightarrow> x = y) \<Longrightarrow>
                 inv_main cfg pol (resolve CallResult (Rejected x) ?s)
                 \<and> grows st (resolve CallResult (Rejected x) ?s)"
      using i pre g grows_resolve by (auto intro!: inv_main_resolve intro: grows_trans)
    show ?thesis
      using Some True r by (cases "obs e (tag pol)") (simp_all add: rethrow_eq)
  qed
qed

lemma inv_main_blocks_grow:
  assumes inv: "inv_main cfg pol st"
  shows "grows st (try_block pol v st)" and "grows st (catch_block pol e st)"
proof -
  have a: "grows st (snd (settle st))" using inv by (rule grows_settle)
  have b: "grows st (snd (settle (freeze_token st)))"
    using grows_freeze grows_settle [OF inv_main_freeze [OF inv]] by (rule grows_trans)
  have c: "\<And>s p r. grows st s \<Longrightarrow> grows st (then_do p r s)"
    using grows_then_do by (rule grows_trans [rotated])
  show "grows st (try_block pol v st)"
    using a b c by (cases pol) (simp_all add: cascade_try_def tributary_try_def case_prod_beta)
  show "grows st (catch_block pol e st)"
    using b c by (cases pol) (simp_all add: cascade_catch_def tributary_catch_def case_prod_beta)
qed

lemma inv_main_flows_remove:
  assumes inv: "inv_main cfg pol st"
  shows "inv_main cfg pol (st\<lparr>flows := removeAll k (flows st)\<rparr>)"
    and "grows st (st\<lparr>flows := removeAll k (flows st)\<rparr>)"
proof -
  let ?s = "st\<lparr>flows := removeAll k (flows st)\<rparr>"
  show g: "grows st ?s"
    by (auto simp: grows_def estuary_isFrozen_def)
  show "inv_main cfg pol ?s"
  proof (rule inv_main_delta [OF inv g])
    fix q r assume "(q, r) \<in> set (reactions ?s)"
    then show "heap ?s q = None \<and>
        ((q, r) \<in> set (reactions st) \<or> allocated ?s q \<and> reg_ok cfg pol ?s q r)"
      using inv_mainD(4) [OF inv] by auto
  qed (use inv_mainD(10,11,12,13) [OF inv] in auto)
qed

lemma inv_main_remaining:
  assumes inv: "inv_main cfg pol st" and n: "heap st (AllSettled n) \<noteq> None \<Longrightarrow> ks = remaining st n"
  shows "inv_main cfg pol (st\<lparr>remaining := (remaining st)(n := ks)\<rparr>)"
    and "grows st (st\<lparr>remaining := (remaining st)(n := ks)\<rparr>)"
proof -
  let ?s = "st\<lparr>remaining := (remaining st)(n := ks)\<rparr>"
  show g: "grows st ?s"
    using n by (auto simp: grows_def estuary_isFrozen_def)
  show "inv_main cfg pol ?s"
    using inv g by (rule inv_main_quiet) simp_all
qed

lemma inv_main_react:
  assumes inv: "inv_main cfg pol st" and j: "job_ok cfg pol st (React r oc)"
  shows "inv_main cfg pol (react cfg pol r oc st) \<and> grows st (react cfg pol r oc st)"
proof (cases r)
  case (OnFlow k)
  with j have h: "heap st (FlowPromise k) = Some oc" by simp
  from job_allocated [OF inv h] have al: "allocated st (Handled k)" by simp
  show ?thesis
  proof (cases oc)
    case (Fulfilled v)
    with inv al h have "inv_main cfg pol (resolve (Handled k) (Fulfilled v) st)"
      by (intro inv_main_resolve) simp_all
    with OnFlow Fulfilled show ?thesis by (simp add: flow_handled_def grows_resolve)
  next
    case (Rejected e)
    let ?f = "freeze_token st"
    have "heap ?f (FlowPromise k) = Some oc" using h by (simp add: freeze_token_def)
    moreover have "estuary_isFrozen ?f"
      by (simp add: estuary_isFrozen_def freeze_token_def isFrozen_freeze)
    moreover have "allocated ?f (Handled k)" using al by (simp add: freeze_token_def)
    ultimately have "inv_main cfg pol (resolve (Handled k) (Rejected e) ?f)"
      using inv_main_freeze [OF inv] Rejected by (intro inv_main_resolve) simp_all
    moreover have "grows st (resolve (Handled k) (Rejected e) ?f)"
      using grows_freeze grows_resolve by (rule grows_trans)
    ultimately show ?thesis using OnFlow Rejected by (simp add: flow_handled_def)
  qed
next
  case (OnFinally k)
  with j have h: "heap st (Handled k) = Some oc" by simp
  from job_allocated [OF inv h] have al: "k < launched st" by simp
  let ?s = "st\<lparr>flows := removeAll k (flows st)\<rparr>"
  have "job_ok cfg pol ?s (Deliver 2 k oc)" using h al by simp
  with inv_main_flows_remove [OF inv, of k]
  have "inv_main cfg pol (enqueue (Deliver 2 k oc) ?s)" "grows st (enqueue (Deliver 2 k oc) ?s)"
    using grows_enqueue by (auto intro: inv_main_enqueue grows_trans)
  with OnFinally show ?thesis by (simp add: flow_finally_def)
next
  case (OnElement n k)
  with j have n: "n < settles st" by simp
  let ?ks = "remove1 k (remaining st n)"
  let ?s = "st\<lparr>remaining := (remaining st)(n := ?ks)\<rparr>"
  have "heap st (AllSettled n) \<noteq> None \<Longrightarrow> ?ks = remaining st n"
    using inv_mainD(2) [OF inv, of "AllSettled n"] by auto
  from inv_main_remaining [OF inv this]
  have i: "inv_main cfg pol ?s" and g: "grows st ?s" by simp_all
  have e: "react cfg pol r oc st =
      (if ?ks = [] then resolve (AllSettled n) (Fulfilled Undefined) ?s else ?s)"
    using OnElement by (simp add: allSettled_element_def Let_def)
  show ?thesis
  proof (cases "?ks = []")
    case True
    have "inv_main cfg pol (resolve (AllSettled n) (Fulfilled Undefined) ?s)"
      using i n True by (intro inv_main_resolve) simp_all
    moreover have "grows st (resolve (AllSettled n) (Fulfilled Undefined) ?s)"
      using g grows_resolve by (rule grows_trans)
    ultimately show ?thesis unfolding e using True by simp
  next
    case False
    with i g show ?thesis unfolding e by simp
  qed
next
  case OnRace
  with j have t: "truthy (timeout cfg)"
    and h: "heap st Body = Some oc \<or> heap st TimerPromise = Some oc" by simp_all
  have "allocated st Race"
    using h job_allocated [OF inv, of Body oc] job_allocated [OF inv, of TimerPromise oc]
    by auto
  with inv t h have "inv_main cfg pol (resolve Race oc st)"
    by (intro inv_main_resolve) simp_all
  with OnRace show ?thesis by (simp add: grows_resolve)
next
  case (ResumeSettle n)
  with j have h: "heap st (AllSettled n) = Some oc" by simp
  from job_allocated [OF inv h] have "allocated st (SettleResult n)" by simp
  with inv have "inv_main cfg pol (resolve (SettleResult n) (Fulfilled Undefined) st)"
    by (intro inv_main_resolve) simp_all
  with ResumeSettle show ?thesis by (simp add: settle_resume_def grows_resolve)
next
  case ResumeBody
  with j have h: "heap st (awaited cfg) = Some oc" by simp
  show ?thesis
  proof (cases oc)
    case (Fulfilled v)
    with inv h ResumeBody show ?thesis
      by (simp add: inv_main_try_block inv_main_blocks_grow)
  next
    case (Rejected e)
    with h have "raised cfg st e" by (simp add: raised_def)
    with inv Rejected ResumeBody show ?thesis
      by (simp add: inv_main_catch_block inv_main_blocks_grow)
  qed
next
  case (ResumeTry v)
  with j have oc: "oc = Fulfilled Undefined" and t: "try_ok cfg pol st v" by simp_all
  from inv t have "inv_main cfg pol (resolve CallResult (Fulfilled v) st)"
    by (intro inv_main_resolve) simp_all
  with ResumeTry oc show ?thesis by (simp add: return_result_def grows_resolve)
next
  case (ResumeCatch e)
  with j have oc: "oc = Fulfilled Undefined" and c: "catch_ok cfg st e" by simp_all
  from inv_main_rethrow [OF inv c] ResumeCatch oc show ?thesis by simp
qed

lemma inv_main_run_job:
  assumes inv: "inv_main cfg pol st" and j: "job_ok cfg pol st j"
  shows "inv_main cfg pol (run_job cfg pol j st) \<and> grows st (run_job cfg pol j st)"
proof (cases j)
  case (RunUndertaking k u)
  with j have k: "k < launched st" by simp
  let ?s = "st\<lparr>invoked := invoked st @ [k]\<rparr>"
  have i: "inv_main cfg pol ?s" using inv by (rule inv_main_invoked)
  have g: "grows st ?s" by (simp add: grows_def estuary_isFrozen_def)
  have r: "\<And>oc. inv_main cfg pol (resolve (FlowPromise k) oc ?s)
              \<and> grows st (resolve (FlowPromise k) oc ?s)"
    using i k g grows_resolve by (auto intro!: inv_main_resolve intro: grows_trans)
  show ?thesis
  proof (cases u)
    case AsyncWork
    let ?t = "st\<lparr>invoked := invoked st @ [k], running := running st @ [k]\<rparr>"
    have gt: "grows st ?t" by (simp add: grows_def estuary_isFrozen_def)
    have "inv_main cfg pol ?t"
    proof (rule inv_main_delta [OF inv gt])
      fix q r assume "(q, r) \<in> set (reactions ?t)"
      then show "heap ?t q = None \<and>
          ((q, r) \<in> set (reactions st) \<or> allocated ?t q \<and> reg_ok cfg pol ?t q r)"
        using inv_mainD(4) [OF inv] by auto
    qed (use inv_mainD(10,11,12,13) [OF inv] k in auto)
    with gt RunUndertaking AsyncWork show ?thesis by simp
  qed (use r RunUndertaking in simp_all)
next
  case (React r oc)
  with inv_main_react [OF inv] j show ?thesis by simp
next
  case (Deliver h k oc)
  with j have a: "heap st (Handled k) = Some oc" "k \<notin> set (flows st)" "k < launched st"
    by simp_all
  show ?thesis
  proof (cases h)
    case 0
    have "inv_main cfg pol (resolve (Returned k) oc st)"
      using inv a by (intro inv_main_resolve) simp_all
    with Deliver 0 show ?thesis by (simp add: grows_resolve)
  next
    case (Suc h')
    have "job_ok cfg pol st (Deliver h' k oc)" using a by simp
    with inv have "inv_main cfg pol (enqueue (Deliver h' k oc) st)" by (rule inv_main_enqueue)
    with Deliver Suc show ?thesis by (simp add: grows_enqueue)
  qed
qed

lemma inv_main_await_body:
  assumes inv: "inv_main cfg pol st" and c: "stage st = Calling"
  shows "inv_main cfg pol (await_body cfg st) \<and> grows st (await_body cfg st)"
proof -
  let ?a = "st\<lparr>stage := Awaiting\<rparr>"
  have hn: "heap st Body = None" "heap st TimerPromise = None" "heap st Race = None"
    using inv c by (auto intro: inv_unallocated)
  have nb: "new_promise Body ?a = ?a" using hn by (simp add: new_promise_id)
  have ga: "grows st ?a" using c by (simp add: grows_def estuary_isFrozen_def)
  have ia: "inv_main cfg pol ?a"
  proof (rule inv_main_delta [OF inv ga])
    fix q r assume "(q, r) \<in> set (reactions ?a)"
    then show "heap ?a q = None \<and>
        ((q, r) \<in> set (reactions st) \<or> allocated ?a q \<and> reg_ok cfg pol ?a q r)"
      using inv_mainD(4) [OF inv] by auto
  qed (use inv_mainD(10) [OF inv] c in auto)
  show ?thesis
  proof (cases "truthy (timeout cfg)")
    case False
    have "inv_main cfg pol (then_do Body ResumeBody ?a)"
      using ia False by (intro inv_main_then_do) (simp_all add: awaited_def)
    moreover have "grows st (then_do Body ResumeBody ?a)"
      using ga grows_then_do by (rule grows_trans)
    ultimately show ?thesis using False
      by (simp add: await_body_def executeWithTimeout_def nb)
  next
    case True
    let ?b = "?a\<lparr>timer := True, reactions := reactions st @ [(Body, OnRace), (TimerPromise, OnRace)]\<rparr>"
    have e: "executeWithTimeout cfg ?a = (Race, ?b)"
      using True hn
      by (simp add: executeWithTimeout_def Let_def new_promise_def then_do_def fun_upd_idem)
    have gb: "grows st ?b" using c by (simp add: grows_def estuary_isFrozen_def)
    have ib: "inv_main cfg pol ?b"
    proof (rule inv_main_delta [OF inv gb])
      fix q r assume "(q, r) \<in> set (reactions ?b)"
      then show "heap ?b q = None \<and>
          ((q, r) \<in> set (reactions st) \<or> allocated ?b q \<and> reg_ok cfg pol ?b q r)"
        using inv_mainD(4) [OF inv] hn True by auto
    qed (use inv_mainD(10) [OF inv] c hn True in auto)
    have "inv_main cfg pol (then_do Race ResumeBody ?b)"
      using ib True by (intro inv_main_then_do) (simp_all add: awaited_def)
    moreover have "grows st (then_do Race ResumeBody ?b)"
      using gb grows_then_do by (rule grows_trans)
    ultimately show ?thesis
      by (simp add: await_body_def nb e)
  qed
qed

lemma inv_main_step:
  assumes inv: "inv_main cfg pol st" and s: "step cfg pol ev st = Some st'"
  shows "inv_main cfg pol st' \<and> grows st st'"
proof (cases ev)
  case Tick
  with s obtain j js where q: "queue st = j # js"
    and st': "st' = run_job cfg pol j (st\<lparr>queue := js\<rparr>)"
    by (cases "queue st") auto
  have g: "grows st (st\<lparr>queue := js\<rparr>)" by (simp add: grows_def estuary_isFrozen_def)
  from inv_main_run_job [OF inv_main_pop [OF inv q]] g show ?thesis
    unfolding st' by (auto intro: grows_trans)
next
  case (Launch u)
  with s inv show ?thesis by (auto intro: inv_main_flow grows_flow)
next
  case (Finish k oc)
  with s have k: "k \<in> set (running st)"
    and st': "st' = resolve (FlowPromise k) oc (st\<lparr>running := removeAll k (running st)\<rparr>)"
    by (auto split: if_splits)
  let ?a = "st\<lparr>running := removeAll k (running st)\<rparr>"
  have ga: "grows st ?a" by (simp add: grows_def estuary_isFrozen_def)
  have ia: "inv_main cfg pol ?a"
  proof (rule inv_main_delta [OF inv ga])
    fix q r assume "(q, r) \<in> set (reactions ?a)"
    then show "heap ?a q = None \<and>
        ((q, r) \<in> set (reactions st) \<or> allocated ?a q \<and> reg_ok cfg pol ?a q r)"
      using inv_mainD(4) [OF inv] by auto
  qed (use inv_mainD(10,11,12,13) [OF inv] in auto)
  have "inv_main cfg pol (resolve (FlowPromise k) oc ?a)"
    using ia inv_mainD(8) [OF inv k] by (intro inv_main_resolve) simp_all
  moreover have "grows st (resolve (FlowPromise k) oc ?a)"
    using ga grows_resolve by (rule grows_trans)
  ultimately show ?thesis unfolding st' by simp
next
  case BodyReturns
  with s inv_main_await_body [OF inv] show ?thesis by (auto split: if_splits)
next
  case (BodyThrows e)
  with s have c: "stage st = Calling"
    and st': "st' = catch_block pol e (st\<lparr>stage := Thrown, thrown := Some e\<rparr>)"
    by (auto split: if_splits)
  let ?a = "st\<lparr>stage := Thrown, thrown := Some e\<rparr>"
  have ga: "grows st ?a"
    using c inv_mainD(10) [OF inv] by (simp add: grows_def estuary_isFrozen_def)
  have ia: "inv_main cfg pol ?a"
  proof (rule inv_main_delta [OF inv ga])
    fix q r assume "(q, r) \<in> set (reactions ?a)"
    then show "heap ?a q = None \<and>
        ((q, r) \<in> set (reactions st) \<or> allocated ?a q \<and> reg_ok cfg pol ?a q r)"
      using inv_mainD(4) [OF inv] by auto
  qed (use inv_mainD(10) [OF inv] c in auto)
  have "raised cfg ?a e" by (simp add: raised_def)
  with ia have "inv_main cfg pol (catch_block pol e ?a)" by (rule inv_main_catch_block)
  moreover have "grows st (catch_block pol e ?a)"
    using ga inv_main_blocks_grow(2) [OF ia] by (rule grows_trans)
  ultimately show ?thesis unfolding st' by simp
next
  case (BodySettles oc)
  with s have c: "stage st = Awaiting" and st': "st' = resolve Body oc st"
    by (auto split: if_splits)
  have "inv_main cfg pol (resolve Body oc st)"
    using inv c by (intro inv_main_resolve) simp_all
  then show ?thesis unfolding st' by (simp add: grows_resolve)
next
  case TimerFires
  with s have t: "timer st" and st': "st' = timer_callback cfg st"
    by (auto split: if_splits)
  let ?a = "st\<lparr>timer := False\<rparr>"
  let ?f = "freeze_token ?a"
  have c: "stage st = Awaiting"
    using inv_mainD(10,11) [OF inv] t by (auto intro: stage_cases)
  have ga: "grows st ?a" by (simp add: grows_def estuary_isFrozen_def)
  have ia: "inv_main cfg pol ?a"
  proof (rule inv_main_delta [OF inv ga])
    fix q r assume "(q, r) \<in> set (reactions ?a)"
    then show "heap ?a q = None \<and>
        ((q, r) \<in> set (reactions st) \<or> allocated ?a q \<and> reg_ok cfg pol ?a q r)"
      using inv_mainD(4) [OF inv] by auto
  qed (use inv_mainD(10,11,12) [OF inv] in auto)
  have f: "estuary_isFrozen ?f" "allocated ?f TimerPromise" "\<not> timer ?f"
    using c by (simp_all add: estuary_isFrozen_def freeze_token_def isFrozen_freeze)
  have "inv_main cfg pol (resolve TimerPromise (Rejected (timeout_error cfg)) ?f)"
    using inv_main_freeze [OF ia] f inv_mainD(13) [OF inv t]
    by (intro inv_main_resolve) simp_all
  moreover have "grows st (resolve TimerPromise (Rejected (timeout_error cfg)) ?f)"
    using grows_trans [OF ga grows_freeze] grows_resolve by (rule grows_trans)
  ultimately show ?thesis unfolding st' by (simp add: timer_callback_def)
next
  case CallSettle
  with s inv show ?thesis by (auto intro: inv_main_settle grows_settle)
qed

lemma inv_main_begin: "inv_main cfg pol begin_call"
  by (simp add: inv_main_def begin_call_def)

lemma inv_main_run_from:
  "inv_main cfg pol st \<Longrightarrow> run cfg pol evs st = Some st' \<Longrightarrow>
   inv_main cfg pol st' \<and> grows st st'"
proof (induction evs arbitrary: st)
  case Nil
  then show ?case by (simp add: grows_refl)
next
  case (Cons ev evs)
  from Cons.prems obtain s where s: "step cfg pol ev st = Some s"
    and r: "run cfg pol evs s = Some st'"
    by (auto split: option.splits)
  from inv_main_step [OF Cons.prems(1) s] Cons.IH [OF _ r] show ?case
    by (auto intro: grows_trans)
qed

lemma inv_main_run:
  "run cfg pol evs begin_call = Some st \<Longrightarrow> inv_main cfg pol st"
  using inv_main_run_from [OF inv_main_begin] by blast

lemma run_append:
  "run cfg pol (xs @ ys) st =
     (case run cfg pol xs st of None \<Rightarrow> None | Some s \<Rightarrow> run cfg pol ys s)"
  by (induction xs arbitrary: st) (auto split: option.splits)

section \<open>The order of callbacks and jobs\<close>

lemma guarded_none: "\<forall>x\<in>set xs. \<not> B x \<Longrightarrow> guarded A B xs"
  by (induction xs) auto

lemma guarded_append:
  "guarded A B (xs @ ys) = (guarded A B xs \<and> ((\<exists>a\<in>set xs. A a) \<or> guarded A B ys))"
  by (induction xs) auto

lemma guarded_filter:
  "guarded A B xs \<Longrightarrow> \<forall>x\<in>set xs. A x \<longrightarrow> P x \<Longrightarrow> guarded A B (filter P xs)"
  by (induction xs) auto

lemma guarded_map: "guarded A B (map f xs) = guarded (\<lambda>x. A (f x)) (\<lambda>x. B (f x)) xs"
  by (induction xs) auto

lemma guarded_cong:
  "\<forall>x\<in>set xs. A x = A' x \<and> B x = B' x \<Longrightarrow> guarded A B xs = guarded A' B' xs"
  by (induction xs) auto

lemma guarded_tl: "guarded A B (x # xs) \<Longrightarrow> \<not> A x \<Longrightarrow> guarded A B xs"
  by simp

lemma guarded_hd: "guarded A B (x # xs) \<Longrightarrow> \<not> B x"
  by simp

lemma inv_orderD:
  assumes "inv_order st"
  shows "k \<in> set (flows st) \<Longrightarrow>
          heap st (FlowPromise k) = None \<and> (FlowPromise k, OnFlow k) \<in> set (reactions st)
            \<and> (Handled k, OnFinally k) \<in> set (reactions st)
          \<or> heap st (FlowPromise k) \<noteq> None \<and> heap st (Handled k) = None
            \<and> queued st (OnFlow k) \<and> (Handled k, OnFinally k) \<in> set (reactions st)
          \<or> queued st (OnFinally k)"
    and "guarded (\<lambda>x. x = (FlowPromise k, OnFlow k))
                (\<lambda>x. \<exists>n. x = (FlowPromise k, OnElement n k)) (reactions st)"
    and "k \<in> set (flows st) \<Longrightarrow>
            queued st (OnFinally k)
            \<or> guarded (is_job (OnFlow k)) (\<lambda>j. \<exists>n. is_job (OnElement n k) j) (queue st)"
    and "k \<in> set (snapshot st n) \<Longrightarrow> k \<notin> set (remaining st n) \<Longrightarrow> k \<in> set (flows st)
            \<Longrightarrow> queued st (OnFinally k)"
    and "k \<in> set (snapshot st n) \<Longrightarrow> k \<in> set (flows st) \<Longrightarrow>
            guarded (is_job (OnFinally k)) (is_job (ResumeSettle n)) (queue st)"
    and "heap st (SettleResult n) = Some oc \<Longrightarrow> k \<in> set (snapshot st n) \<Longrightarrow> k \<notin> set (flows st)"
    and "k \<in> set (snapshot st n) \<Longrightarrow> k < launched st"
    and "settles st \<le> n \<Longrightarrow> snapshot st n = []"
    and "k < launched st \<Longrightarrow> k \<notin> set (flows st) \<Longrightarrow> heap st (Handled k) \<noteq> None"
  using assms unfolding inv_order_def by blast+

lemma inv_order_begin: "inv_order begin_call"
  by (simp add: inv_order_def begin_call_def)

lemma inv_orderI:
  assumes "\<And>k. k \<in> set (flows st) \<Longrightarrow>
          heap st (FlowPromise k) = None \<and> (FlowPromise k, OnFlow k) \<in> set (reactions st)
            \<and> (Handled k, OnFinally k) \<in> set (reactions st)
          \<or> heap st (FlowPromise k) \<noteq> None \<and> heap st (Handled k) = None
            \<and> queued st (OnFlow k) \<and> (Handled k, OnFinally k) \<in> set (reactions st)
          \<or> queued st (OnFinally k)"
    and "\<And>k. guarded (\<lambda>x. x = (FlowPromise k, OnFlow k))
                (\<lambda>x. \<exists>n. x = (FlowPromise k, OnElement n k)) (reactions st)"
    and "\<And>k. k \<in> set (flows st) \<Longrightarrow>
            queued st (OnFinally k)
            \<or> guarded (is_job (OnFlow k)) (\<lambda>j. \<exists>n. is_job (OnElement n k) j) (queue st)"
    and "\<And>n k. k \<in> set (snapshot st n) \<Longrightarrow> k \<notin> set (remaining st n) \<Longrightarrow> k \<in> set (flows st)
            \<Longrightarrow> queued st (OnFinally k)"
    and "\<And>n k. k \<in> set (snapshot st n) \<Longrightarrow> k \<in> set (flows st) \<Longrightarrow>
            guarded (is_job (OnFinally k)) (is_job (ResumeSettle n)) (queue st)"
    and "\<And>n oc k. heap st (SettleResult n) = Some oc \<Longrightarrow> k \<in> set (snapshot st n)
            \<Longrightarrow> k \<notin> set (flows st)"
    and "\<And>n k. k \<in> set (snapshot st n) \<Longrightarrow> k < launched st"
    and "\<And>n. settles st \<le> n \<Longrightarrow> snapshot st n = []"
    and "\<And>k. k < launched st \<Longrightarrow> k \<notin> set (flows st) \<Longrightarrow> heap st (Handled k) \<noteq> None"
  shows "inv_order st"
  unfolding inv_order_def using assms by blast

lemma inv_order_cong:
  assumes "inv_order st"
    and "heap st' = heap st" "reactions st' = reactions st" "queue st' = queue st"
      "flows st' = flows st" "snapshot st' = snapshot st" "remaining st' = remaining st"
      "launched st' = launched st" "settles st \<le> settles st'"
  shows "inv_order st'"
  using assms unfolding inv_order_def queued_def by auto

lemma queued_append:
  "queued (st\<lparr>queue := queue st @ js\<rparr>) r = (queued st r \<or> (\<exists>j\<in>set js. is_job r j))"
  by (auto simp: queued_def)

lemma inv_order_queue_append:
  assumes inv: "inv_order st" and js: "\<forall>j\<in>set js. leading j"
    and h: "heap st' = heap st" "reactions st' = reactions st" "queue st' = queue st @ js"
      "flows st' = flows st" "snapshot st' = snapshot st" "remaining st' = remaining st"
      "launched st' = launched st" "settles st \<le> settles st'"
  shows "inv_order st'"
proof -
  have q: "\<And>r. queued st r \<Longrightarrow> queued st' r"
    by (auto simp: queued_def h)
  have g: "\<And>A B. guarded A B (queue st) \<Longrightarrow> \<forall>j\<in>set js. \<not> B j \<Longrightarrow> guarded A B (queue st')"
    by (simp add: h guarded_append guarded_none)
  show ?thesis
  proof (rule inv_orderI)
    fix k assume "k \<in> set (flows st')"
    with inv_orderD(1) [OF inv, of k] q show
      "heap st' (FlowPromise k) = None \<and> (FlowPromise k, OnFlow k) \<in> set (reactions st')
            \<and> (Handled k, OnFinally k) \<in> set (reactions st')
          \<or> heap st' (FlowPromise k) \<noteq> None \<and> heap st' (Handled k) = None
            \<and> queued st' (OnFlow k) \<and> (Handled k, OnFinally k) \<in> set (reactions st')
          \<or> queued st' (OnFinally k)"
      by (auto simp: h)
  next
    fix k show "guarded (\<lambda>x. x = (FlowPromise k, OnFlow k))
                (\<lambda>x. \<exists>n. x = (FlowPromise k, OnElement n k)) (reactions st')"
      using inv_orderD(2) [OF inv] by (simp add: h)
  next
    fix k assume "k \<in> set (flows st')"
    with inv_orderD(3) [OF inv, of k] q g js show "queued st' (OnFinally k)
            \<or> guarded (is_job (OnFlow k)) (\<lambda>j. \<exists>n. is_job (OnElement n k) j) (queue st')"
      by (auto simp: h leading_def)
  next
    fix n k assume "k \<in> set (snapshot st' n)" "k \<notin> set (remaining st' n)" "k \<in> set (flows st')"
    with inv_orderD(4) [OF inv, of k n] q show "queued st' (OnFinally k)"
      by (auto simp: h)
  next
    fix n k assume "k \<in> set (snapshot st' n)" "k \<in> set (flows st')"
    with inv_orderD(5) [OF inv, of k n] g js
    show "guarded (is_job (OnFinally k)) (is_job (ResumeSettle n)) (queue st')"
      by (auto simp: h leading_def)
  next
    fix n oc k assume "heap st' (SettleResult n) = Some oc" "k \<in> set (snapshot st' n)"
    with inv_orderD(6) [OF inv, of n oc k] show "k \<notin> set (flows st')"
      by (auto simp: h)
  next
    fix n k assume "k \<in> set (snapshot st' n)"
    with inv_orderD(7) [OF inv, of k n] show "k < launched st'" by (simp add: h)
  next
    fix n assume "settles st' \<le> n"
    with inv_orderD(8) [OF inv, of n] h show "snapshot st' n = []" by simp
  next
    fix k assume "k < launched st'" "k \<notin> set (flows st')"
    with inv_orderD(9) [OF inv, of k] show "heap st' (Handled k) \<noteq> None" by (simp add: h)
  qed
qed

lemma inv_order_pop:
  assumes inv: "inv_order st" and q: "queue st = j # js"
    and j: "\<forall>k. \<not> is_job (OnFlow k) j \<and> \<not> is_job (OnFinally k) j"
  shows "inv_order (st\<lparr>queue := js\<rparr>)"
proof -
  let ?s = "st\<lparr>queue := js\<rparr>"
  have qd: "\<And>k. queued st (OnFlow k) \<Longrightarrow> queued ?s (OnFlow k)"
    "\<And>k. queued st (OnFinally k) \<Longrightarrow> queued ?s (OnFinally k)"
    using j by (auto simp: queued_def q)
  show ?thesis
  proof (rule inv_orderI)
    fix k assume "k \<in> set (flows ?s)"
    with inv_orderD(1) [OF inv, of k] qd show
      "heap ?s (FlowPromise k) = None \<and> (FlowPromise k, OnFlow k) \<in> set (reactions ?s)
            \<and> (Handled k, OnFinally k) \<in> set (reactions ?s)
          \<or> heap ?s (FlowPromise k) \<noteq> None \<and> heap ?s (Handled k) = None
            \<and> queued ?s (OnFlow k) \<and> (Handled k, OnFinally k) \<in> set (reactions ?s)
          \<or> queued ?s (OnFinally k)"
      by auto
  next
    fix k show "guarded (\<lambda>x. x = (FlowPromise k, OnFlow k))
                (\<lambda>x. \<exists>n. x = (FlowPromise k, OnElement n k)) (reactions ?s)"
      using inv_orderD(2) [OF inv] by simp
  next
    fix k assume "k \<in> set (flows ?s)"
    with inv_orderD(3) [OF inv, of k] qd j show "queued ?s (OnFinally k)
            \<or> guarded (is_job (OnFlow k)) (\<lambda>j. \<exists>n. is_job (OnElement n k) j) (queue ?s)"
      by (auto simp: q)
  next
    fix n k assume "k \<in> set (snapshot ?s n)" "k \<notin> set (remaining ?s n)" "k \<in> set (flows ?s)"
    with inv_orderD(4) [OF inv, of k n] qd show "queued ?s (OnFinally k)"
      by auto
  next
    fix n k assume "k \<in> set (snapshot ?s n)" "k \<in> set (flows ?s)"
    with inv_orderD(5) [OF inv, of k n] j
    show "guarded (is_job (OnFinally k)) (is_job (ResumeSettle n)) (queue ?s)"
      by (auto simp: q)
  next
    fix n oc k assume "heap ?s (SettleResult n) = Some oc" "k \<in> set (snapshot ?s n)"
    with inv_orderD(6) [OF inv, of n oc k] show "k \<notin> set (flows ?s)"
      by auto
  next
    fix n k assume "k \<in> set (snapshot ?s n)"
    with inv_orderD(7) [OF inv, of k n] show "k < launched ?s" by simp
  next
    fix n assume "settles ?s \<le> n"
    with inv_orderD(8) [OF inv, of n] show "snapshot ?s n = []" by simp
  next
    fix k assume "k < launched ?s" "k \<notin> set (flows ?s)"
    with inv_orderD(9) [OF inv, of k] show "heap ?s (Handled k) \<noteq> None" by simp
  qed
qed

lemma moved_jobs:
  "set (map (\<lambda>x. React (snd x) oc) (filter (\<lambda>x. fst x = p) rs)) = {React r oc |r. (p, r) \<in> set rs}"
  by force

lemma reg_src:
  assumes inv: "inv_main cfg pol st" and r: "(p, r) \<in> set (reactions st)"
  shows "r = OnFlow k \<Longrightarrow> p = FlowPromise k" "r = OnFinally k \<Longrightarrow> p = Handled k"
    "r = OnElement n k \<Longrightarrow> p = FlowPromise k" "r = ResumeSettle n \<Longrightarrow> p = AllSettled n"
    "heap st p = None"
  using inv_mainD(5) [OF inv r] inv_mainD(4) [OF inv r] by auto

lemma guarded_moved:
  assumes g: "guarded (\<lambda>x. x = (p, a)) (\<lambda>x. \<exists>n. x = (p, b n)) rs"
  shows "guarded (is_job a) (\<lambda>j. \<exists>n. is_job (b n) j)
           (map (\<lambda>x. React (snd x) oc) (filter (\<lambda>x. fst x = p) rs))"
proof -
  have "guarded (\<lambda>x. x = (p, a)) (\<lambda>x. \<exists>n. x = (p, b n)) (filter (\<lambda>x. fst x = p) rs)"
    using g by (rule guarded_filter) auto
  moreover have "guarded (\<lambda>x. is_job a (React (snd x) oc)) (\<lambda>x. \<exists>n. is_job (b n) (React (snd x) oc))
      (filter (\<lambda>x. fst x = p) rs)
    = guarded (\<lambda>x. x = (p, a)) (\<lambda>x. \<exists>n. x = (p, b n)) (filter (\<lambda>x. fst x = p) rs)"
    by (rule guarded_cong) (auto simp: is_job_def)
  ultimately show ?thesis by (simp add: guarded_map)
qed

lemma inv_order_resolve:
  assumes invm: "inv_main cfg pol st" and inv: "inv_order st"
    and s1: "\<And>n k. p = SettleResult n \<Longrightarrow> k \<in> set (snapshot st n) \<Longrightarrow> k \<notin> set (flows st)"
    and s2: "\<And>n k. p = AllSettled n \<Longrightarrow> k \<in> set (snapshot st n) \<Longrightarrow> k \<in> set (flows st) \<Longrightarrow>
               queued st (OnFinally k)"
    and s3: "\<And>k. p \<noteq> Handled k"
  shows "inv_order (resolve p oc st)"
proof (cases "heap st p")
  case (Some a)
  with inv show ?thesis by (simp add: resolve_settled)
next
  case None
  let ?s = "resolve p oc st"
  let ?m = "map (\<lambda>x. React (snd x) oc) (filter (\<lambda>x. fst x = p) (reactions st))"
  note rp = resolve_pending [OF None, of oc]
  have hq: "heap ?s = (heap st)(p \<mapsto> oc)" and qq: "queue ?s = queue st @ ?m"
    and rq: "reactions ?s = filter (\<lambda>x. fst x \<noteq> p) (reactions st)"
    using rp by simp_all
  have qd: "\<And>r. queued st r \<Longrightarrow> queued ?s r"
    by (auto simp: queued_def qq)
  have ms: "set ?m = {React r oc |r. (p, r) \<in> set (reactions st)}"
    by (rule moved_jobs)
  have qn: "\<And>r. (p, r) \<in> set (reactions st) \<Longrightarrow> queued ?s r"
  proof -
    fix r assume "(p, r) \<in> set (reactions st)"
    then have "React r oc \<in> set ?m" unfolding ms by blast
    then have "React r oc \<in> set (queue ?s)" unfolding qq by simp
    moreover have "is_job r (React r oc)" by (simp add: is_job_def)
    ultimately show "queued ?s r" unfolding queued_def by blast
  qed
  have mv: "\<And>j. j \<in> set ?m \<Longrightarrow> \<exists>r. (p, r) \<in> set (reactions st) \<and> j = React r oc"
    unfolding ms by blast
  show ?thesis
  proof (rule inv_orderI)
    fix k assume k: "k \<in> set (flows ?s)"
    then have k': "k \<in> set (flows st)" by simp
    from inv_orderD(1) [OF inv k'] show
      "heap ?s (FlowPromise k) = None \<and> (FlowPromise k, OnFlow k) \<in> set (reactions ?s)
            \<and> (Handled k, OnFinally k) \<in> set (reactions ?s)
          \<or> heap ?s (FlowPromise k) \<noteq> None \<and> heap ?s (Handled k) = None
            \<and> queued ?s (OnFlow k) \<and> (Handled k, OnFinally k) \<in> set (reactions ?s)
          \<or> queued ?s (OnFinally k)"
    proof (elim disjE conjE)
      assume a: "heap st (FlowPromise k) = None" "(FlowPromise k, OnFlow k) \<in> set (reactions st)"
        "(Handled k, OnFinally k) \<in> set (reactions st)"
      from reg_src(5) [OF invm a(3)] have hn: "heap st (Handled k) = None" .
      show ?thesis
      proof (cases "p = FlowPromise k")
        case True
        with a hn qn [of "OnFlow k"] hq rq show ?thesis by auto
      next
        case False
        with a s3 [of k] hq rq show ?thesis by auto
      qed
    next
      assume a: "heap st (FlowPromise k) \<noteq> None" "heap st (Handled k) = None"
        "queued st (OnFlow k)" "(Handled k, OnFinally k) \<in> set (reactions st)"
      with None s3 [of k] qd hq rq show ?thesis by auto
    next
      assume "queued st (OnFinally k)"
      with qd show ?thesis by simp
    qed
  next
    fix k
    show "guarded (\<lambda>x. x = (FlowPromise k, OnFlow k))
                (\<lambda>x. \<exists>n. x = (FlowPromise k, OnElement n k)) (reactions ?s)"
    proof (cases "p = FlowPromise k")
      case True
      have "\<forall>x\<in>set (reactions ?s). fst x \<noteq> p" unfolding rq by simp
      then show ?thesis unfolding True by (intro guarded_none) auto
    next
      case False
      with inv_orderD(2) [OF inv, of k] show ?thesis
        unfolding rq by (intro guarded_filter) auto
    qed
  next
    fix k assume k: "k \<in> set (flows ?s)"
    then have k': "k \<in> set (flows st)" by simp
    have gm: "guarded (is_job (OnFlow k)) (\<lambda>j. \<exists>n. is_job (OnElement n k) j) ?m"
    proof (cases "p = FlowPromise k")
      case True
      from inv_orderD(2) [OF inv, of k] show ?thesis
        unfolding True
        by (rule guarded_moved [where a = "OnFlow k" and b = "\<lambda>n. OnElement n k"])
    next
      case False
      show ?thesis
      proof (rule guarded_none, rule ballI)
        fix j assume "j \<in> set ?m"
        from mv [OF this] obtain r where r: "(p, r) \<in> set (reactions st)" "j = React r oc"
          by blast
        with reg_src(3) [OF invm r(1)] False show "\<not> (\<exists>n. is_job (OnElement n k) j)"
          by (auto simp: is_job_def)
      qed
    qed
    from inv_orderD(3) [OF inv k'] qd gm show "queued ?s (OnFinally k)
            \<or> guarded (is_job (OnFlow k)) (\<lambda>j. \<exists>n. is_job (OnElement n k) j) (queue ?s)"
      by (auto simp: qq guarded_append)
  next
    fix n k assume "k \<in> set (snapshot ?s n)" "k \<notin> set (remaining ?s n)" "k \<in> set (flows ?s)"
    with inv_orderD(4) [OF inv, of k n] qd show "queued ?s (OnFinally k)" by simp
  next
    fix n k assume a: "k \<in> set (snapshot ?s n)" "k \<in> set (flows ?s)"
    then have g: "guarded (is_job (OnFinally k)) (is_job (ResumeSettle n)) (queue st)"
      using inv_orderD(5) [OF inv, of k n] by simp
    show "guarded (is_job (OnFinally k)) (is_job (ResumeSettle n)) (queue ?s)"
    proof (cases "p = AllSettled n")
      case True
      from s2 [OF True] a have "queued st (OnFinally k)" by simp
      with g show ?thesis by (auto simp: qq guarded_append queued_def)
    next
      case False
      have "guarded (is_job (OnFinally k)) (is_job (ResumeSettle n)) ?m"
      proof (rule guarded_none, rule ballI)
        fix j assume "j \<in> set ?m"
        from mv [OF this] obtain r where r: "(p, r) \<in> set (reactions st)" "j = React r oc"
          by blast
        with reg_src(4) [OF invm r(1)] False show "\<not> is_job (ResumeSettle n) j"
          by (auto simp: is_job_def)
      qed
      with g show ?thesis by (simp add: qq guarded_append)
    qed
  next
    fix n x k assume a: "heap ?s (SettleResult n) = Some x" "k \<in> set (snapshot ?s n)"
    show "k \<notin> set (flows ?s)"
    proof (cases "p = SettleResult n")
      case True
      with s1 a show ?thesis by simp
    next
      case False
      with a inv_orderD(6) [OF inv, of n x k] show ?thesis by (simp add: hq)
    qed
  next
    fix n k assume "k \<in> set (snapshot ?s n)"
    with inv_orderD(7) [OF inv, of k n] show "k < launched ?s" by simp
  next
    fix n assume "settles ?s \<le> n"
    with inv_orderD(8) [OF inv, of n] show "snapshot ?s n = []" by simp
  next
    fix k assume "k < launched ?s" "k \<notin> set (flows ?s)"
    with inv_orderD(9) [OF inv, of k] show "heap ?s (Handled k) \<noteq> None" by (simp add: hq)
  qed
qed

lemma queued_tl:
  assumes "queue st = j # js" and "queued st r" and "\<not> is_job r j"
  shows "queued (st\<lparr>queue := js\<rparr>) r"
  using assms by (auto simp: queued_def)

lemma is_job_React [simp]: "is_job r (React r' oc) = (r = r')"
  by (auto simp: is_job_def)

lemma is_job_other [simp]: "\<not> is_job r (RunUndertaking k u)" "\<not> is_job r (Deliver h k oc)"
  by (auto simp: is_job_def)

lemma queued_job_ok:
  assumes inv: "inv_main cfg pol st" and q: "queued st r"
  shows "\<exists>oc. job_ok cfg pol st (React r oc)"
  using q inv_mainD(6) [OF inv] by (auto simp: queued_def is_job_def)

text \<open>The callback of \<open>flowPromise.then\<close> runs.\<close>

lemma inv_order_handled:
  assumes invm: "inv_main cfg pol st" and inv: "inv_order st"
    and q: "queue st = React (OnFlow k) oc # js"
  shows "inv_order (resolve (Handled k) oc' (st\<lparr>queue := js\<rparr>))"
proof -
  let ?p = "st\<lparr>queue := js\<rparr>"
  let ?s = "resolve (Handled k) oc' ?p"
  let ?m = "map (\<lambda>x. React (snd x) oc') (filter (\<lambda>x. fst x = Handled k) (reactions st))"
  have fs: "heap st (FlowPromise k) = Some oc"
    using inv_mainD(6) [OF invm, of "React (OnFlow k) oc"] q by simp
  have ms: "set ?m = {React r oc' |r. (Handled k, r) \<in> set (reactions st)}"
    by (rule moved_jobs)
  have mo: "\<And>j. j \<in> set ?m \<Longrightarrow> \<exists>x. j = React (OnFinally k) x"
  proof -
    fix j assume "j \<in> set ?m"
    then obtain r where r: "(Handled k, r) \<in> set (reactions st)" "j = React r oc'"
      unfolding ms by blast
    from inv_mainD(5) [OF invm r(1)] have "r = OnFinally k"
      by (cases r) (auto simp: awaited_def split: if_splits)
    with r show "\<exists>x. j = React (OnFinally k) x" by simp
  qed
  have sq: "\<exists>zs. queue ?s = js @ zs \<and> (\<forall>j\<in>set zs. \<exists>x. j = React (OnFinally k) x)
      \<and> (heap st (Handled k) = None \<and> (Handled k, OnFinally k) \<in> set (reactions st)
           \<longrightarrow> (\<exists>j\<in>set zs. is_job (OnFinally k) j))"
  proof (cases "heap st (Handled k)")
    case None
    then have "queue ?s = js @ ?m" by (simp add: resolve_def)
    moreover have "(Handled k, OnFinally k) \<in> set (reactions st) \<Longrightarrow>
        \<exists>j\<in>set ?m. is_job (OnFinally k) j"
      unfolding ms by force
    ultimately show ?thesis using mo by blast
  next
    case (Some a)
    then have "queue ?s = js @ []" by (simp add: resolve_def)
    with Some show ?thesis by auto
  qed
  then obtain zs where zs: "queue ?s = js @ zs" "\<forall>j\<in>set zs. \<exists>x. j = React (OnFinally k) x"
    "heap st (Handled k) = None \<Longrightarrow> (Handled k, OnFinally k) \<in> set (reactions st)
       \<Longrightarrow> \<exists>j\<in>set zs. is_job (OnFinally k) j"
    by blast
  have hs: "\<And>p x. heap st p = Some x \<Longrightarrow> heap ?s p = Some x"
    "\<And>p. p \<noteq> Handled k \<Longrightarrow> heap ?s p = heap st p"
    "heap st (Handled k) = None \<Longrightarrow> heap ?s (Handled k) = Some oc'"
    by (auto simp: resolve_def)
  have rs: "\<And>p r. p \<noteq> Handled k \<Longrightarrow>
      ((p, r) \<in> set (reactions ?s)) = ((p, r) \<in> set (reactions st))"
    "\<exists>P. reactions ?s = filter P (reactions st) \<and> (\<forall>x. fst x \<noteq> Handled k \<longrightarrow> P x)"
  proof -
    show "\<And>p r. p \<noteq> Handled k \<Longrightarrow>
      ((p, r) \<in> set (reactions ?s)) = ((p, r) \<in> set (reactions st))"
      by (auto simp: resolve_def)
    show "\<exists>P. reactions ?s = filter P (reactions st) \<and> (\<forall>x. fst x \<noteq> Handled k \<longrightarrow> P x)"
    proof (cases "heap st (Handled k)")
      case None
      then have "reactions ?s = filter (\<lambda>x. fst x \<noteq> Handled k) (reactions st)"
        by (simp add: resolve_def)
      then show ?thesis by blast
    next
      case (Some a)
      then have "reactions ?s = filter (\<lambda>x. True) (reactions st)"
        by (simp add: resolve_def)
      then show ?thesis by blast
    qed
  qed
  have fr: "flows ?s = flows st" "snapshot ?s = snapshot st" "remaining ?s = remaining st"
    "launched ?s = launched st" "settles ?s = settles st"
    by simp_all
  have qk: "\<And>r. queued st r \<Longrightarrow> r \<noteq> OnFlow k \<Longrightarrow> queued ?s r"
    using q by (auto simp: queued_def zs(1))
  have fin: "\<And>i. i \<in> set (flows st) \<Longrightarrow> i = k \<Longrightarrow> queued ?s (OnFinally k)"
  proof -
    fix i assume i: "i \<in> set (flows st)" "i = k"
    from inv_orderD(1) [OF inv i(1)] i(2) fs
    have "heap st (Handled k) = None \<and> (Handled k, OnFinally k) \<in> set (reactions st)
          \<or> queued st (OnFinally k)"
      by auto
    then show "queued ?s (OnFinally k)"
    proof
      assume "heap st (Handled k) = None \<and> (Handled k, OnFinally k) \<in> set (reactions st)"
      with zs(3) show ?thesis by (auto simp: queued_def zs(1))
    next
      assume "queued st (OnFinally k)"
      then show ?thesis by (rule qk) simp
    qed
  qed
  show ?thesis
  proof (rule inv_orderI)
    fix i assume "i \<in> set (flows ?s)"
    then have i: "i \<in> set (flows st)" by simp
    show "heap ?s (FlowPromise i) = None \<and> (FlowPromise i, OnFlow i) \<in> set (reactions ?s)
            \<and> (Handled i, OnFinally i) \<in> set (reactions ?s)
          \<or> heap ?s (FlowPromise i) \<noteq> None \<and> heap ?s (Handled i) = None
            \<and> queued ?s (OnFlow i) \<and> (Handled i, OnFinally i) \<in> set (reactions ?s)
          \<or> queued ?s (OnFinally i)"
    proof (cases "i = k")
      case True
      with fin [OF i] show ?thesis by simp
    next
      case False
      with inv_orderD(1) [OF inv i] qk [of "OnFlow i"] qk [of "OnFinally i"] show ?thesis
        by (auto simp: hs(2) rs(1))
    qed
  next
    fix i
    from rs(2) obtain P where P: "reactions ?s = filter P (reactions st)"
      "\<forall>x. fst x \<noteq> Handled k \<longrightarrow> P x" by blast
    from inv_orderD(2) [OF inv, of i]
    show "guarded (\<lambda>x. x = (FlowPromise i, OnFlow i))
                (\<lambda>x. \<exists>n. x = (FlowPromise i, OnElement n i)) (reactions ?s)"
      unfolding P(1) using P(2) by (intro guarded_filter) auto
  next
    fix i assume "i \<in> set (flows ?s)"
    then have i: "i \<in> set (flows st)" by simp
    show "queued ?s (OnFinally i)
            \<or> guarded (is_job (OnFlow i)) (\<lambda>j. \<exists>n. is_job (OnElement n i) j) (queue ?s)"
    proof (cases "i = k")
      case True
      with fin [OF i] show ?thesis by simp
    next
      case False
      from inv_orderD(3) [OF inv i] show ?thesis
      proof
        assume "queued st (OnFinally i)"
        then show ?thesis using qk by simp
      next
        assume "guarded (is_job (OnFlow i)) (\<lambda>j. \<exists>n. is_job (OnElement n i) j) (queue st)"
        with False have "guarded (is_job (OnFlow i)) (\<lambda>j. \<exists>n. is_job (OnElement n i) j) js"
          by (simp add: q)
        moreover have "guarded (is_job (OnFlow i)) (\<lambda>j. \<exists>n. is_job (OnElement n i) j) zs"
          using zs(2) by (intro guarded_none) auto
        ultimately show ?thesis by (simp add: zs(1) guarded_append)
      qed
    qed
  next
    fix n i assume "i \<in> set (snapshot ?s n)" "i \<notin> set (remaining ?s n)" "i \<in> set (flows ?s)"
    with inv_orderD(4) [OF inv, of i n] qk [of "OnFinally i"] show "queued ?s (OnFinally i)"
      by simp
  next
    fix n i assume "i \<in> set (snapshot ?s n)" "i \<in> set (flows ?s)"
    with inv_orderD(5) [OF inv, of i n]
    have "guarded (is_job (OnFinally i)) (is_job (ResumeSettle n)) js"
      by (simp add: q)
    moreover have "guarded (is_job (OnFinally i)) (is_job (ResumeSettle n)) zs"
      using zs(2) by (intro guarded_none) auto
    ultimately show "guarded (is_job (OnFinally i)) (is_job (ResumeSettle n)) (queue ?s)"
      by (simp add: zs(1) guarded_append)
  next
    fix n x i assume "heap ?s (SettleResult n) = Some x" "i \<in> set (snapshot ?s n)"
    with inv_orderD(6) [OF inv, of n x i] show "i \<notin> set (flows ?s)"
      by (simp add: hs(2))
  next
    fix n i assume "i \<in> set (snapshot ?s n)"
    with inv_orderD(7) [OF inv, of i n] show "i < launched ?s" by simp
  next
    fix n assume "settles ?s \<le> n"
    with inv_orderD(8) [OF inv, of n] show "snapshot ?s n = []" by simp
  next
    fix i assume "i < launched ?s" "i \<notin> set (flows ?s)"
    with inv_orderD(9) [OF inv, of i] hs(1) [of "Handled i"]
    show "heap ?s (Handled i) \<noteq> None" by auto
  qed
qed

text \<open>The callback of \<open>.finally\<close> runs.\<close>

lemma inv_order_finally:
  assumes invm: "inv_main cfg pol st" and inv: "inv_order st"
    and q: "queue st = React (OnFinally k) oc # js"
  shows "inv_order (flow_finally k oc' (st\<lparr>queue := js\<rparr>))"
proof -
  let ?s = "flow_finally k oc' (st\<lparr>queue := js\<rparr>)"
  have hk: "heap st (Handled k) = Some oc"
    using inv_mainD(6) [OF invm, of "React (OnFinally k) oc"] q by simp
  have f: "heap ?s = heap st" "reactions ?s = reactions st"
    "queue ?s = js @ [Deliver 2 k oc']" "flows ?s = removeAll k (flows st)"
    "snapshot ?s = snapshot st" "remaining ?s = remaining st"
    "launched ?s = launched st" "settles ?s = settles st"
    by (simp_all add: flow_finally_def enqueue_def)
  have qk: "\<And>r. queued st r \<Longrightarrow> r \<noteq> OnFinally k \<Longrightarrow> queued ?s r"
    using q by (auto simp: queued_def f)
  show ?thesis
  proof (rule inv_orderI)
    fix i assume "i \<in> set (flows ?s)"
    then have i: "i \<in> set (flows st)" "i \<noteq> k" by (simp_all add: f)
    with inv_orderD(1) [OF inv i(1)] qk [of "OnFlow i"] qk [of "OnFinally i"] show
      "heap ?s (FlowPromise i) = None \<and> (FlowPromise i, OnFlow i) \<in> set (reactions ?s)
            \<and> (Handled i, OnFinally i) \<in> set (reactions ?s)
          \<or> heap ?s (FlowPromise i) \<noteq> None \<and> heap ?s (Handled i) = None
            \<and> queued ?s (OnFlow i) \<and> (Handled i, OnFinally i) \<in> set (reactions ?s)
          \<or> queued ?s (OnFinally i)"
      by (auto simp: f)
  next
    fix i
    from inv_orderD(2) [OF inv, of i]
    show "guarded (\<lambda>x. x = (FlowPromise i, OnFlow i))
                (\<lambda>x. \<exists>n. x = (FlowPromise i, OnElement n i)) (reactions ?s)"
      by (simp add: f)
  next
    fix i assume "i \<in> set (flows ?s)"
    then have i: "i \<in> set (flows st)" "i \<noteq> k" by (simp_all add: f)
    from inv_orderD(3) [OF inv i(1)] show "queued ?s (OnFinally i)
            \<or> guarded (is_job (OnFlow i)) (\<lambda>j. \<exists>n. is_job (OnElement n i) j) (queue ?s)"
    proof
      assume "queued st (OnFinally i)"
      then show ?thesis using qk i by simp
    next
      assume "guarded (is_job (OnFlow i)) (\<lambda>j. \<exists>n. is_job (OnElement n i) j) (queue st)"
      then have "guarded (is_job (OnFlow i)) (\<lambda>j. \<exists>n. is_job (OnElement n i) j) js"
        by (simp add: q)
      then show ?thesis by (simp add: f guarded_append)
    qed
  next
    fix n i assume "i \<in> set (snapshot ?s n)" "i \<notin> set (remaining ?s n)" "i \<in> set (flows ?s)"
    with inv_orderD(4) [OF inv, of i n] qk [of "OnFinally i"] show "queued ?s (OnFinally i)"
      by (simp add: f)
  next
    fix n i assume "i \<in> set (snapshot ?s n)" "i \<in> set (flows ?s)"
    with inv_orderD(5) [OF inv, of i n]
    have "guarded (is_job (OnFinally i)) (is_job (ResumeSettle n)) js"
      by (simp add: q f)
    then show "guarded (is_job (OnFinally i)) (is_job (ResumeSettle n)) (queue ?s)"
      by (simp add: f guarded_append)
  next
    fix n x i assume "heap ?s (SettleResult n) = Some x" "i \<in> set (snapshot ?s n)"
    with inv_orderD(6) [OF inv, of n x i] show "i \<notin> set (flows ?s)"
      by (simp add: f)
  next
    fix n i assume "i \<in> set (snapshot ?s n)"
    with inv_orderD(7) [OF inv, of i n] show "i < launched ?s" by (simp add: f)
  next
    fix n assume "settles ?s \<le> n"
    with inv_orderD(8) [OF inv, of n] show "snapshot ?s n = []" by (simp add: f)
  next
    fix i assume "i < launched ?s" "i \<notin> set (flows ?s)"
    with inv_orderD(9) [OF inv, of i] hk show "heap ?s (Handled i) \<noteq> None"
      by (cases "i = k") (auto simp: f)
  qed
qed

text \<open>An element of \<open>Promise.allSettled\<close> reports.\<close>

lemma inv_order_element:
  assumes invm: "inv_main cfg pol st" and inv: "inv_order st"
    and q: "queue st = React (OnElement n k) oc # js"
  shows "inv_order (allSettled_element n k (st\<lparr>queue := js\<rparr>))"
proof -
  let ?p = "st\<lparr>queue := js\<rparr>"
  let ?ks = "remove1 k (remaining st n)"
  let ?a = "?p\<lparr>remaining := (remaining st)(n := ?ks)\<rparr>"
  have ip: "inv_order ?p"
    using inv q by (rule inv_order_pop) simp
  have mp: "inv_main cfg pol ?p"
    using invm q by (rule inv_main_pop)
  have fk: "k \<in> set (flows st) \<Longrightarrow> queued ?p (OnFinally k)"
  proof -
    assume k: "k \<in> set (flows st)"
    from inv_orderD(3) [OF inv k] have "queued st (OnFinally k)" by (auto simp: q)
    then show ?thesis using q by (auto simp: queued_def)
  qed
  have ia: "inv_order ?a"
  proof (rule inv_orderI)
    fix i assume "i \<in> set (flows ?a)"
    with inv_orderD(1) [OF ip, of i] show
      "heap ?a (FlowPromise i) = None \<and> (FlowPromise i, OnFlow i) \<in> set (reactions ?a)
            \<and> (Handled i, OnFinally i) \<in> set (reactions ?a)
          \<or> heap ?a (FlowPromise i) \<noteq> None \<and> heap ?a (Handled i) = None
            \<and> queued ?a (OnFlow i) \<and> (Handled i, OnFinally i) \<in> set (reactions ?a)
          \<or> queued ?a (OnFinally i)"
      by (auto simp: queued_def)
  next
    fix i
    from inv_orderD(2) [OF ip, of i]
    show "guarded (\<lambda>x. x = (FlowPromise i, OnFlow i))
                (\<lambda>x. \<exists>n. x = (FlowPromise i, OnElement n i)) (reactions ?a)"
      by simp
  next
    fix i assume "i \<in> set (flows ?a)"
    with inv_orderD(3) [OF ip, of i] show "queued ?a (OnFinally i)
            \<or> guarded (is_job (OnFlow i)) (\<lambda>j. \<exists>n. is_job (OnElement n i) j) (queue ?a)"
      by (auto simp: queued_def)
  next
    fix m i assume a: "i \<in> set (snapshot ?a m)" "i \<notin> set (remaining ?a m)" "i \<in> set (flows ?a)"
    have "queued ?p (OnFinally i)"
    proof (cases "m = n \<and> i = k")
      case True
      with a fk show ?thesis by simp
    next
      case False
      with a have "i \<notin> set (remaining ?p m)"
        by (auto split: if_splits)
      with a inv_orderD(4) [OF ip, of i m] show ?thesis by simp
    qed
    then show "queued ?a (OnFinally i)" by (simp add: queued_def)
  next
    fix m i assume "i \<in> set (snapshot ?a m)" "i \<in> set (flows ?a)"
    with inv_orderD(5) [OF ip, of i m]
    show "guarded (is_job (OnFinally i)) (is_job (ResumeSettle m)) (queue ?a)"
      by simp
  next
    fix m x i assume "heap ?a (SettleResult m) = Some x" "i \<in> set (snapshot ?a m)"
    with inv_orderD(6) [OF ip, of m x i] show "i \<notin> set (flows ?a)" by simp
  next
    fix m i assume "i \<in> set (snapshot ?a m)"
    with inv_orderD(7) [OF ip, of i m] show "i < launched ?a" by simp
  next
    fix m assume "settles ?a \<le> m"
    with inv_orderD(8) [OF ip, of m] show "snapshot ?a m = []" by simp
  next
    fix i assume "i < launched ?a" "i \<notin> set (flows ?a)"
    with inv_orderD(9) [OF ip, of i] show "heap ?a (Handled i) \<noteq> None" by simp
  qed
  have "heap ?p (AllSettled n) \<noteq> None \<Longrightarrow> ?ks = remaining ?p n"
    using inv_mainD(2) [OF mp, of "AllSettled n"] by auto
  from inv_main_remaining(1) [OF mp this] have ma: "inv_main cfg pol ?a" by simp
  have e: "allSettled_element n k ?p =
      (if ?ks = [] then resolve (AllSettled n) (Fulfilled Undefined) ?a else ?a)"
    by (simp add: allSettled_element_def Let_def)
  show ?thesis
  proof (cases "?ks = []")
    case True
    have "inv_order (resolve (AllSettled n) (Fulfilled Undefined) ?a)"
      using ma ia
    proof (rule inv_order_resolve)
      fix m i assume "AllSettled n = AllSettled m" "i \<in> set (snapshot ?a m)" "i \<in> set (flows ?a)"
      with inv_orderD(4) [OF ia, of i m] True show "queued ?a (OnFinally i)" by simp
    qed simp_all
    with True show ?thesis unfolding e by simp
  next
    case False
    with ia show ?thesis unfolding e by simp
  qed
qed

text \<open>\<open>settle\<close> resumes after its await.\<close>

lemma inv_order_settle_resume:
  assumes invm: "inv_main cfg pol st" and inv: "inv_order st"
    and q: "queue st = React (ResumeSettle n) oc # js"
  shows "inv_order (settle_resume n oc' (st\<lparr>queue := js\<rparr>))"
proof -
  let ?p = "st\<lparr>queue := js\<rparr>"
  have ip: "inv_order ?p"
    using inv q by (rule inv_order_pop) simp
  have mp: "inv_main cfg pol ?p"
    using invm q by (rule inv_main_pop)
  have "inv_order (resolve (SettleResult n) (Fulfilled Undefined) ?p)"
    using mp ip
  proof (rule inv_order_resolve)
    fix m k assume a: "SettleResult n = SettleResult m" "k \<in> set (snapshot ?p m)"
    show "k \<notin> set (flows ?p)"
    proof
      assume "k \<in> set (flows ?p)"
      with a inv_orderD(5) [OF inv, of k n] show False by (simp add: q)
    qed
  qed simp_all
  then show ?thesis by (simp add: settle_resume_def)
qed

lemma inv_order_register:
  assumes inv: "inv_order st" and rs: "\<forall>x\<in>set rs. \<forall>n k. snd x \<noteq> OnElement n k"
    and h: "heap st' = heap st" "reactions st' = reactions st @ rs" "queue st' = queue st"
      "flows st' = flows st" "snapshot st' = snapshot st" "remaining st' = remaining st"
      "launched st' = launched st" "settles st \<le> settles st'"
  shows "inv_order st'"
proof (rule inv_orderI)
  fix k assume "k \<in> set (flows st')"
  with inv_orderD(1) [OF inv, of k] show
    "heap st' (FlowPromise k) = None \<and> (FlowPromise k, OnFlow k) \<in> set (reactions st')
          \<and> (Handled k, OnFinally k) \<in> set (reactions st')
        \<or> heap st' (FlowPromise k) \<noteq> None \<and> heap st' (Handled k) = None
          \<and> queued st' (OnFlow k) \<and> (Handled k, OnFinally k) \<in> set (reactions st')
        \<or> queued st' (OnFinally k)"
    by (auto simp: h queued_def)
next
  fix k
  have "guarded (\<lambda>x. x = (FlowPromise k, OnFlow k))
              (\<lambda>x. \<exists>n. x = (FlowPromise k, OnElement n k)) rs"
    using rs by (intro guarded_none) auto
  with inv_orderD(2) [OF inv, of k]
  show "guarded (\<lambda>x. x = (FlowPromise k, OnFlow k))
              (\<lambda>x. \<exists>n. x = (FlowPromise k, OnElement n k)) (reactions st')"
    by (simp add: h guarded_append)
next
  fix k assume "k \<in> set (flows st')"
  with inv_orderD(3) [OF inv, of k] show "queued st' (OnFinally k)
          \<or> guarded (is_job (OnFlow k)) (\<lambda>j. \<exists>n. is_job (OnElement n k) j) (queue st')"
    by (auto simp: h queued_def)
next
  fix n k assume "k \<in> set (snapshot st' n)" "k \<notin> set (remaining st' n)" "k \<in> set (flows st')"
  with inv_orderD(4) [OF inv, of k n] show "queued st' (OnFinally k)"
    by (auto simp: h queued_def)
next
  fix n k assume "k \<in> set (snapshot st' n)" "k \<in> set (flows st')"
  with inv_orderD(5) [OF inv, of k n]
  show "guarded (is_job (OnFinally k)) (is_job (ResumeSettle n)) (queue st')"
    by (auto simp: h)
next
  fix n oc k assume "heap st' (SettleResult n) = Some oc" "k \<in> set (snapshot st' n)"
  with inv_orderD(6) [OF inv, of n oc k] show "k \<notin> set (flows st')"
    by (auto simp: h)
next
  fix n k assume "k \<in> set (snapshot st' n)"
  with inv_orderD(7) [OF inv, of k n] show "k < launched st'" by (simp add: h)
next
  fix n assume "settles st' \<le> n"
  with inv_orderD(8) [OF inv, of n] h show "snapshot st' n = []" by simp
next
  fix k assume "k < launched st'" "k \<notin> set (flows st')"
  with inv_orderD(9) [OF inv, of k] show "heap st' (Handled k) \<noteq> None" by (simp add: h)
qed

lemma inv_order_then_do:
  assumes inv: "inv_order st" and r: "\<forall>n k. r \<noteq> OnElement n k" "\<forall>n. r \<noteq> ResumeSettle n"
  shows "inv_order (then_do p r st)"
proof (cases "heap st p")
  case None
  show ?thesis
    using inv
  proof (rule inv_order_register [where rs = "[(p, r)]"])
    show "\<forall>x\<in>set [(p, r)]. \<forall>n k. snd x \<noteq> OnElement n k" using r by simp
  qed (simp_all add: then_do_def None)
next
  case (Some oc)
  show ?thesis
    using inv
  proof (rule inv_order_queue_append [where js = "[React r oc]"])
    show "\<forall>j\<in>set [React r oc]. leading j" using r by (auto simp: leading_def)
  qed (simp_all add: then_do_def Some enqueue_def)
qed

lemma inv_order_then_element:
  assumes invm: "inv_main cfg pol st" and inv: "inv_order st" and k: "k \<in> set (flows st)"
  shows "inv_order (then_do (FlowPromise k) (OnElement n k) st)"
proof (cases "heap st (FlowPromise k)")
  case None
  let ?s = "then_do (FlowPromise k) (OnElement n k) st"
  have f: "heap ?s = heap st" "reactions ?s = reactions st @ [(FlowPromise k, OnElement n k)]"
    "queue ?s = queue st" "flows ?s = flows st" "snapshot ?s = snapshot st"
    "remaining ?s = remaining st" "launched ?s = launched st" "settles ?s = settles st"
    by (simp_all add: then_do_def None)
  from inv_orderD(1) [OF inv k] None
  have reg: "(FlowPromise k, OnFlow k) \<in> set (reactions st)"
    using queued_job_ok [OF invm, of "OnFinally k"] inv_mainD(2) [OF invm, of "Handled k"]
    by auto
  show ?thesis
  proof (rule inv_orderI)
    fix i assume "i \<in> set (flows ?s)"
    with inv_orderD(1) [OF inv, of i] show
      "heap ?s (FlowPromise i) = None \<and> (FlowPromise i, OnFlow i) \<in> set (reactions ?s)
            \<and> (Handled i, OnFinally i) \<in> set (reactions ?s)
          \<or> heap ?s (FlowPromise i) \<noteq> None \<and> heap ?s (Handled i) = None
            \<and> queued ?s (OnFlow i) \<and> (Handled i, OnFinally i) \<in> set (reactions ?s)
          \<or> queued ?s (OnFinally i)"
      by (auto simp: f queued_def)
  next
    fix i
    from inv_orderD(2) [OF inv, of i] reg
    show "guarded (\<lambda>x. x = (FlowPromise i, OnFlow i))
                (\<lambda>x. \<exists>n. x = (FlowPromise i, OnElement n i)) (reactions ?s)"
      by (auto simp: f guarded_append)
  next
    fix i assume "i \<in> set (flows ?s)"
    with inv_orderD(3) [OF inv, of i] show "queued ?s (OnFinally i)
            \<or> guarded (is_job (OnFlow i)) (\<lambda>j. \<exists>n. is_job (OnElement n i) j) (queue ?s)"
      by (auto simp: f queued_def)
  next
    fix m i assume "i \<in> set (snapshot ?s m)" "i \<notin> set (remaining ?s m)" "i \<in> set (flows ?s)"
    with inv_orderD(4) [OF inv, of i m] show "queued ?s (OnFinally i)"
      by (auto simp: f queued_def)
  next
    fix m i assume "i \<in> set (snapshot ?s m)" "i \<in> set (flows ?s)"
    with inv_orderD(5) [OF inv, of i m]
    show "guarded (is_job (OnFinally i)) (is_job (ResumeSettle m)) (queue ?s)"
      by (auto simp: f)
  next
    fix m oc i assume "heap ?s (SettleResult m) = Some oc" "i \<in> set (snapshot ?s m)"
    with inv_orderD(6) [OF inv, of m oc i] show "i \<notin> set (flows ?s)"
      by (auto simp: f)
  next
    fix m i assume "i \<in> set (snapshot ?s m)"
    with inv_orderD(7) [OF inv, of i m] show "i < launched ?s" by (simp add: f)
  next
    fix m assume "settles ?s \<le> m"
    with inv_orderD(8) [OF inv, of m] show "snapshot ?s m = []" by (simp add: f)
  next
    fix i assume "i < launched ?s" "i \<notin> set (flows ?s)"
    with inv_orderD(9) [OF inv, of i] show "heap ?s (Handled i) \<noteq> None" by (simp add: f)
  qed
next
  case (Some oc)
  let ?s = "then_do (FlowPromise k) (OnElement n k) st"
  have f: "heap ?s = heap st" "reactions ?s = reactions st"
    "queue ?s = queue st @ [React (OnElement n k) oc]" "flows ?s = flows st"
    "snapshot ?s = snapshot st" "remaining ?s = remaining st" "launched ?s = launched st"
    "settles ?s = settles st"
    by (simp_all add: then_do_def Some enqueue_def)
  have qd: "\<And>r. queued st r \<Longrightarrow> queued ?s r" by (auto simp: queued_def f)
  show ?thesis
  proof (rule inv_orderI)
    fix i assume "i \<in> set (flows ?s)"
    with inv_orderD(1) [OF inv, of i] qd show
      "heap ?s (FlowPromise i) = None \<and> (FlowPromise i, OnFlow i) \<in> set (reactions ?s)
            \<and> (Handled i, OnFinally i) \<in> set (reactions ?s)
          \<or> heap ?s (FlowPromise i) \<noteq> None \<and> heap ?s (Handled i) = None
            \<and> queued ?s (OnFlow i) \<and> (Handled i, OnFinally i) \<in> set (reactions ?s)
          \<or> queued ?s (OnFinally i)"
      by (auto simp: f)
  next
    fix i
    from inv_orderD(2) [OF inv, of i]
    show "guarded (\<lambda>x. x = (FlowPromise i, OnFlow i))
                (\<lambda>x. \<exists>n. x = (FlowPromise i, OnElement n i)) (reactions ?s)"
      by (simp add: f)
  next
    fix i assume "i \<in> set (flows ?s)"
    then have i: "i \<in> set (flows st)" by (simp add: f)
    show "queued ?s (OnFinally i)
            \<or> guarded (is_job (OnFlow i)) (\<lambda>j. \<exists>n. is_job (OnElement n i) j) (queue ?s)"
    proof (cases "queued st (OnFinally i)")
      case True
      then show ?thesis using qd by simp
    next
      case False
      with inv_orderD(3) [OF inv i]
      have g: "guarded (is_job (OnFlow i)) (\<lambda>j. \<exists>n. is_job (OnElement n i) j) (queue st)"
        by simp
      show ?thesis
      proof (cases "i = k")
        case True
        from inv_orderD(1) [OF inv i] False Some True have "queued st (OnFlow k)" by auto
        with g True show ?thesis by (auto simp: f guarded_append queued_def)
      next
        case ne: False
        with g show ?thesis by (simp add: f guarded_append)
      qed
    qed
  next
    fix m i assume "i \<in> set (snapshot ?s m)" "i \<notin> set (remaining ?s m)" "i \<in> set (flows ?s)"
    with inv_orderD(4) [OF inv, of i m] qd show "queued ?s (OnFinally i)"
      by (simp add: f)
  next
    fix m i assume "i \<in> set (snapshot ?s m)" "i \<in> set (flows ?s)"
    with inv_orderD(5) [OF inv, of i m]
    show "guarded (is_job (OnFinally i)) (is_job (ResumeSettle m)) (queue ?s)"
      by (simp add: f guarded_append)
  next
    fix m x i assume "heap ?s (SettleResult m) = Some x" "i \<in> set (snapshot ?s m)"
    with inv_orderD(6) [OF inv, of m x i] show "i \<notin> set (flows ?s)"
      by (auto simp: f)
  next
    fix m i assume "i \<in> set (snapshot ?s m)"
    with inv_orderD(7) [OF inv, of i m] show "i < launched ?s" by (simp add: f)
  next
    fix m assume "settles ?s \<le> m"
    with inv_orderD(8) [OF inv, of m] show "snapshot ?s m = []" by (simp add: f)
  next
    fix i assume "i < launched ?s" "i \<notin> set (flows ?s)"
    with inv_orderD(9) [OF inv, of i] show "heap ?s (Handled i) \<noteq> None" by (simp add: f)
  qed
qed

lemma inv_order_fold:
  "inv_main cfg pol st \<Longrightarrow> inv_order st \<Longrightarrow> set ks \<subseteq> set (flows st) \<Longrightarrow> n < settles st \<Longrightarrow>
   inv_order (fold (\<lambda>k. then_do (FlowPromise k) (OnElement n k)) ks st)"
proof (induction ks arbitrary: st)
  case Nil
  then show ?case by simp
next
  case (Cons k ks)
  let ?s = "then_do (FlowPromise k) (OnElement n k) st"
  have k: "k \<in> set (flows st)" "k < launched st"
    using Cons.prems inv_mainD(7) [OF Cons.prems(1), of k] by auto
  have m: "inv_main cfg pol ?s"
    using Cons.prems k by (intro inv_main_then_do) simp_all
  have o: "inv_order ?s"
    using Cons.prems(1,2) k(1) by (rule inv_order_then_element)
  from Cons.IH [OF m o] Cons.prems show ?case by simp
qed

lemma inv_order_then_resume:
  assumes inv: "inv_order st"
    and s: "heap st (AllSettled n) \<noteq> None \<Longrightarrow> snapshot st n = []"
  shows "inv_order (then_do (AllSettled n) (ResumeSettle n) st)"
proof (cases "heap st (AllSettled n)")
  case None
  show ?thesis
    using inv
    by (rule inv_order_register [where rs = "[(AllSettled n, ResumeSettle n)]"])
       (simp_all add: then_do_def None)
next
  case (Some oc)
  let ?s = "then_do (AllSettled n) (ResumeSettle n) st"
  have f: "heap ?s = heap st" "reactions ?s = reactions st"
    "queue ?s = queue st @ [React (ResumeSettle n) oc]" "flows ?s = flows st"
    "snapshot ?s = snapshot st" "remaining ?s = remaining st" "launched ?s = launched st"
    "settles ?s = settles st"
    by (simp_all add: then_do_def Some enqueue_def)
  have sn: "snapshot st n = []" using s Some by simp
  have qd: "\<And>r. queued st r \<Longrightarrow> queued ?s r" by (auto simp: queued_def f)
  show ?thesis
  proof (rule inv_orderI)
    fix i assume "i \<in> set (flows ?s)"
    with inv_orderD(1) [OF inv, of i] qd show
      "heap ?s (FlowPromise i) = None \<and> (FlowPromise i, OnFlow i) \<in> set (reactions ?s)
            \<and> (Handled i, OnFinally i) \<in> set (reactions ?s)
          \<or> heap ?s (FlowPromise i) \<noteq> None \<and> heap ?s (Handled i) = None
            \<and> queued ?s (OnFlow i) \<and> (Handled i, OnFinally i) \<in> set (reactions ?s)
          \<or> queued ?s (OnFinally i)"
      by (auto simp: f)
  next
    fix i
    from inv_orderD(2) [OF inv, of i]
    show "guarded (\<lambda>x. x = (FlowPromise i, OnFlow i))
                (\<lambda>x. \<exists>n. x = (FlowPromise i, OnElement n i)) (reactions ?s)"
      by (simp add: f)
  next
    fix i assume "i \<in> set (flows ?s)"
    with inv_orderD(3) [OF inv, of i] qd show "queued ?s (OnFinally i)
            \<or> guarded (is_job (OnFlow i)) (\<lambda>j. \<exists>n. is_job (OnElement n i) j) (queue ?s)"
      by (auto simp: f guarded_append)
  next
    fix m i assume "i \<in> set (snapshot ?s m)" "i \<notin> set (remaining ?s m)" "i \<in> set (flows ?s)"
    with inv_orderD(4) [OF inv, of i m] qd show "queued ?s (OnFinally i)"
      by (simp add: f)
  next
    fix m i assume a: "i \<in> set (snapshot ?s m)" "i \<in> set (flows ?s)"
    with sn have "m \<noteq> n" by (auto simp: f)
    with a inv_orderD(5) [OF inv, of i m]
    show "guarded (is_job (OnFinally i)) (is_job (ResumeSettle m)) (queue ?s)"
      by (simp add: f guarded_append)
  next
    fix m x i assume "heap ?s (SettleResult m) = Some x" "i \<in> set (snapshot ?s m)"
    with inv_orderD(6) [OF inv, of m x i] show "i \<notin> set (flows ?s)"
      by (auto simp: f)
  next
    fix m i assume "i \<in> set (snapshot ?s m)"
    with inv_orderD(7) [OF inv, of i m] show "i < launched ?s" by (simp add: f)
  next
    fix m assume "settles ?s \<le> m"
    with inv_orderD(8) [OF inv, of m] show "snapshot ?s m = []" by (simp add: f)
  next
    fix i assume "i < launched ?s" "i \<notin> set (flows ?s)"
    with inv_orderD(9) [OF inv, of i] show "heap ?s (Handled i) \<noteq> None" by (simp add: f)
  qed
qed

lemma inv_order_cong2:
  assumes "inv_order st"
    and "\<And>k. heap st' (FlowPromise k) = heap st (FlowPromise k)"
      "\<And>k. heap st' (Handled k) = heap st (Handled k)"
      "\<And>k. heap st' (SettleResult k) = heap st (SettleResult k)"
    and "reactions st' = reactions st" "queue st' = queue st"
      "flows st' = flows st" "snapshot st' = snapshot st" "remaining st' = remaining st"
      "launched st' = launched st" "settles st \<le> settles st'"
  shows "inv_order st'"
  using assms unfolding inv_order_def queued_def by auto

lemma inv_order_flow:
  assumes invm: "inv_main cfg pol st" and inv: "inv_order st"
  shows "inv_order (snd (flow u st))"
proof (cases "isFrozen (tideToken st)")
  case True
  show ?thesis
    using inv by (rule inv_order_cong2) (simp_all add: flow_frozen True)
next
  case False
  let ?k = "launched st"
  let ?s = "snd (flow u st)"
  have hn: "heap st (FlowPromise ?k) = None" "heap st (Handled ?k) = None"
    "heap st (Returned ?k) = None"
    using invm by (auto intro: inv_unallocated)
  have f: "heap ?s = heap st"
    "reactions ?s = reactions st @ [(FlowPromise ?k, OnFlow ?k), (Handled ?k, OnFinally ?k)]"
    "queue ?s = queue st @ [RunUndertaking ?k u]" "flows ?s = flows st @ [?k]"
    "snapshot ?s = snapshot st" "remaining ?s = remaining st" "launched ?s = Suc ?k"
    "settles ?s = settles st"
    using False hn by (auto simp: flow_open fun_upd_idem)
  have qd: "\<And>r. queued ?s r = queued st r" by (auto simp: queued_def f)
  have nk: "?k \<notin> set (flows st)" using inv_mainD(7) [OF invm, of ?k] by auto
  have nj: "\<And>j. j \<in> set (queue st) \<Longrightarrow> \<not> (\<exists>n. is_job (OnElement n ?k) j)"
  proof
    fix j assume "j \<in> set (queue st)" "\<exists>n. is_job (OnElement n ?k) j"
    then obtain n oc where "React (OnElement n ?k) oc \<in> set (queue st)"
      by (auto simp: is_job_def)
    from inv_mainD(6) [OF invm this] hn show False by simp
  qed
  show ?thesis
  proof (rule inv_orderI)
    fix i assume "i \<in> set (flows ?s)"
    then have "i \<in> set (flows st) \<or> i = ?k" by (auto simp: f)
    then show
      "heap ?s (FlowPromise i) = None \<and> (FlowPromise i, OnFlow i) \<in> set (reactions ?s)
            \<and> (Handled i, OnFinally i) \<in> set (reactions ?s)
          \<or> heap ?s (FlowPromise i) \<noteq> None \<and> heap ?s (Handled i) = None
            \<and> queued ?s (OnFlow i) \<and> (Handled i, OnFinally i) \<in> set (reactions ?s)
          \<or> queued ?s (OnFinally i)"
    proof
      assume "i \<in> set (flows st)"
      with inv_orderD(1) [OF inv, of i] show ?thesis by (auto simp: f qd)
    next
      assume "i = ?k"
      with hn show ?thesis by (simp add: f)
    qed
  next
    fix i
    from inv_orderD(2) [OF inv, of i]
    show "guarded (\<lambda>x. x = (FlowPromise i, OnFlow i))
                (\<lambda>x. \<exists>n. x = (FlowPromise i, OnElement n i)) (reactions ?s)"
      by (simp add: f guarded_append)
  next
    fix i assume "i \<in> set (flows ?s)"
    then have "i \<in> set (flows st) \<or> i = ?k" by (auto simp: f)
    then show "queued ?s (OnFinally i)
            \<or> guarded (is_job (OnFlow i)) (\<lambda>j. \<exists>n. is_job (OnElement n i) j) (queue ?s)"
    proof
      assume "i \<in> set (flows st)"
      with inv_orderD(3) [OF inv, of i] show ?thesis by (auto simp: f qd guarded_append)
    next
      assume i: "i = ?k"
      have "guarded (is_job (OnFlow ?k)) (\<lambda>j. \<exists>n. is_job (OnElement n ?k) j) (queue st)"
        using nj by (intro guarded_none) blast
      then show ?thesis by (simp add: f i guarded_append)
    qed
  next
    fix n i assume "i \<in> set (snapshot ?s n)" "i \<notin> set (remaining ?s n)" "i \<in> set (flows ?s)"
    with inv_orderD(4) [OF inv, of i n] inv_orderD(7) [OF inv, of i n]
    show "queued ?s (OnFinally i)"
      by (auto simp: f qd)
  next
    fix n i assume "i \<in> set (snapshot ?s n)" "i \<in> set (flows ?s)"
    with inv_orderD(5) [OF inv, of i n] inv_orderD(7) [OF inv, of i n]
    show "guarded (is_job (OnFinally i)) (is_job (ResumeSettle n)) (queue ?s)"
      by (auto simp: f guarded_append)
  next
    fix n oc i assume "heap ?s (SettleResult n) = Some oc" "i \<in> set (snapshot ?s n)"
    with inv_orderD(6) [OF inv, of n oc i] inv_orderD(7) [OF inv, of i n]
    show "i \<notin> set (flows ?s)"
      by (auto simp: f)
  next
    fix n i assume "i \<in> set (snapshot ?s n)"
    with inv_orderD(7) [OF inv, of i n] show "i < launched ?s" by (simp add: f)
  next
    fix n assume "settles ?s \<le> n"
    with inv_orderD(8) [OF inv, of n] show "snapshot ?s n = []" by (simp add: f)
  next
    fix i assume "i < launched ?s" "i \<notin> set (flows ?s)"
    with inv_orderD(9) [OF inv, of i] show "heap ?s (Handled i) \<noteq> None"
      by (auto simp: f less_Suc_eq)
  qed
qed

lemma inv_order_allSettled:
  assumes invm: "inv_main cfg pol st"
    and o: "inv_order (st\<lparr>remaining := (remaining st)(n := ks)\<rparr>)"
    and n: "heap st (AllSettled n) = None" "n < settles st"
    and ks: "set ks \<subseteq> set (flows st)" and sn: "snapshot st n = ks"
  shows "inv_order (allSettled n ks st)"
proof -
  let ?a = "st\<lparr>remaining := (remaining st)(n := ks)\<rparr>"
  let ?b = "fold (\<lambda>k. then_do (FlowPromise k) (OnElement n k)) ks ?a"
  have ma: "inv_main cfg pol ?a"
    using invm n(1) by (rule inv_main_remaining_fresh)
  have na: "new_promise (AllSettled n) ?a = ?a"
    using n(1) by (simp add: new_promise_id)
  have kl: "\<forall>k\<in>set ks. k < launched ?a"
    using ks inv_mainD(7) [OF invm] by auto
  have mb: "inv_main cfg pol ?b"
    using ma kl n(2) by (intro inv_main_fold) simp_all
  have ob: "inv_order ?b"
    using ma o ks n(2) by (intro inv_order_fold) simp_all
  have "ks = [] \<Longrightarrow> inv_order (resolve (AllSettled n) (Fulfilled Undefined) ?b)"
  proof -
    assume e: "ks = []"
    show ?thesis
      using mb ob
    proof (rule inv_order_resolve)
      fix m k assume "AllSettled n = AllSettled m" "k \<in> set (snapshot ?b m)"
      with sn e show "queued ?b (OnFinally k)" by simp
    qed simp_all
  qed
  with ob show ?thesis
    by (simp add: allSettled_def Let_def na)
qed

lemma inv_order_settle:
  assumes invm: "inv_main cfg pol st" and inv: "inv_order st"
  shows "inv_order (snd (settle st))"
proof -
  let ?n = "settles st"
  let ?s0 = "st\<lparr>settles := Suc ?n\<rparr>"
  have hn: "heap st (SettleResult ?n) = None" "heap st (AllSettled ?n) = None"
    using invm by (auto intro: inv_unallocated)
  have n0: "new_promise (SettleResult ?n) ?s0 = ?s0"
    using hn by (simp add: new_promise_id)
  have m0: "inv_main cfg pol ?s0"
    using invm by (rule inv_main_settles)
  have o0: "inv_order ?s0"
    using inv by (rule inv_order_cong) simp_all
  show ?thesis
  proof (cases "settled st")
    case True
    have "inv_order (resolve (SettleResult ?n) (Fulfilled Undefined) ?s0)"
      using m0 o0
    proof (rule inv_order_resolve)
      fix m k assume "SettleResult ?n = SettleResult m" "k \<in> set (snapshot ?s0 m)"
      with inv_orderD(8) [OF inv, of m] show "k \<notin> set (flows ?s0)" by simp
    qed simp_all
    with True show ?thesis by (simp add: settle_def Let_def n0)
  next
    case False
    let ?s2 = "?s0\<lparr>settled := True, snapshot := (snapshot st)(?n := flows st)\<rparr>"
    let ?a = "?s2\<lparr>remaining := (remaining ?s2)(?n := flows st)\<rparr>"
    have m2: "inv_main cfg pol ?s2"
      using inv_main_snapshot [OF inv_main_settled [OF m0]] by simp
    have nr: "\<And>j. j \<in> set (queue st) \<Longrightarrow> \<not> is_job (ResumeSettle ?n) j"
    proof
      fix j assume "j \<in> set (queue st)" "is_job (ResumeSettle ?n) j"
      then obtain oc where "React (ResumeSettle ?n) oc \<in> set (queue st)"
        by (auto simp: is_job_def)
      from inv_mainD(6) [OF invm this] hn show False by simp
    qed
    have oa: "inv_order ?a"
    proof (rule inv_orderI)
      fix i assume "i \<in> set (flows ?a)"
      with inv_orderD(1) [OF inv, of i] show
        "heap ?a (FlowPromise i) = None \<and> (FlowPromise i, OnFlow i) \<in> set (reactions ?a)
              \<and> (Handled i, OnFinally i) \<in> set (reactions ?a)
            \<or> heap ?a (FlowPromise i) \<noteq> None \<and> heap ?a (Handled i) = None
              \<and> queued ?a (OnFlow i) \<and> (Handled i, OnFinally i) \<in> set (reactions ?a)
            \<or> queued ?a (OnFinally i)"
        by (auto simp: queued_def)
    next
      fix i
      from inv_orderD(2) [OF inv, of i]
      show "guarded (\<lambda>x. x = (FlowPromise i, OnFlow i))
                  (\<lambda>x. \<exists>n. x = (FlowPromise i, OnElement n i)) (reactions ?a)"
        by simp
    next
      fix i assume "i \<in> set (flows ?a)"
      with inv_orderD(3) [OF inv, of i] show "queued ?a (OnFinally i)
              \<or> guarded (is_job (OnFlow i)) (\<lambda>j. \<exists>n. is_job (OnElement n i) j) (queue ?a)"
        by (auto simp: queued_def)
    next
      fix m i assume "i \<in> set (snapshot ?a m)" "i \<notin> set (remaining ?a m)" "i \<in> set (flows ?a)"
      with inv_orderD(4) [OF inv, of i m] show "queued ?a (OnFinally i)"
        by (auto simp: queued_def split: if_splits)
    next
      fix m i assume a: "i \<in> set (snapshot ?a m)" "i \<in> set (flows ?a)"
      show "guarded (is_job (OnFinally i)) (is_job (ResumeSettle m)) (queue ?a)"
      proof (cases "m = ?n")
        case True
        show ?thesis using nr unfolding True by (intro guarded_none) simp
      next
        case ne: False
        with a inv_orderD(5) [OF inv, of i m] show ?thesis by simp
      qed
    next
      fix m x i assume "heap ?a (SettleResult m) = Some x" "i \<in> set (snapshot ?a m)"
      with inv_orderD(6) [OF inv, of m x i] hn show "i \<notin> set (flows ?a)"
        by (auto split: if_splits)
    next
      fix m i assume "i \<in> set (snapshot ?a m)"
      with inv_orderD(7) [OF inv, of i m] inv_mainD(7) [OF invm, of i] show "i < launched ?a"
        by (auto split: if_splits)
    next
      fix m assume "settles ?a \<le> m"
      with inv_orderD(8) [OF inv, of m] show "snapshot ?a m = []" by simp
    next
      fix i assume "i < launched ?a" "i \<notin> set (flows ?a)"
      with inv_orderD(9) [OF inv, of i] show "heap ?a (Handled i) \<noteq> None" by simp
    qed
    let ?c = "allSettled ?n (flows st) ?s2"
    have oc: "inv_order ?c"
      using m2 oa hn by (intro inv_order_allSettled) simp_all
    have hc: "heap ?c (AllSettled ?n) \<noteq> None \<Longrightarrow> flows st = []"
      using hn by (auto simp: allSettled_def Let_def new_promise_def split: if_splits)
    have "inv_order (then_do (AllSettled ?n) (ResumeSettle ?n) ?c)"
      using oc
    proof (rule inv_order_then_resume)
      assume "heap ?c (AllSettled ?n) \<noteq> None"
      from hc [OF this] show "snapshot ?c ?n = []" by simp
    qed
    with False show ?thesis by (simp add: settle_def Let_def n0)
  qed
qed

lemma inv_order_freeze: "inv_order st \<Longrightarrow> inv_order (freeze_token st)"
  by (erule inv_order_cong) (simp_all add: freeze_token_def)

lemma inv_order_try_block:
  assumes invm: "inv_main cfg pol st" and inv: "inv_order st"
  shows "inv_order (try_block pol v st)"
proof (cases pol)
  case Cascade
  have "inv_order (then_do (SettleResult (settles st)) (ResumeTry v) (snd (settle st)))"
    using invm inv by (intro inv_order_then_do inv_order_settle) simp_all
  with Cascade show ?thesis by (simp add: cascade_try_def case_prod_beta)
next
  case Tributary
  let ?f = "freeze_token st"
  have "inv_order (then_do (SettleResult (settles ?f)) (ResumeTry v) (snd (settle ?f)))"
    using inv_main_freeze [OF invm] inv_order_freeze [OF inv]
    by (intro inv_order_then_do inv_order_settle) simp_all
  with Tributary show ?thesis by (simp add: tributary_try_def case_prod_beta)
qed

lemma inv_order_catch_block:
  assumes invm: "inv_main cfg pol st" and inv: "inv_order st"
  shows "inv_order (catch_block pol e st)"
proof -
  let ?f = "freeze_token st"
  have "inv_order (then_do (SettleResult (settles ?f)) (ResumeCatch e) (snd (settle ?f)))"
    using inv_main_freeze [OF invm] inv_order_freeze [OF inv]
    by (intro inv_order_then_do inv_order_settle) simp_all
  then show ?thesis
    by (cases pol) (simp_all add: cascade_catch_def tributary_catch_def case_prod_beta)
qed

lemma inv_order_rethrow:
  assumes invm: "inv_main cfg pol st" and inv: "inv_order st" and c: "catch_ok cfg st e"
  shows "inv_order (rethrow pol cfg e st)"
proof -
  let ?s = "st\<lparr>observed := observed st @ [(e, tag pol)]\<rparr>"
  have a: "\<And>x. inv_order (resolve CallResult x st)"
    using invm inv by (rule inv_order_resolve) simp_all
  have o: "inv_order ?s" using inv by (rule inv_order_cong) simp_all
  have b: "\<And>x. is_Error e \<Longrightarrow> onError cfg \<noteq> None \<Longrightarrow> inv_order (resolve CallResult x ?s)"
    using inv_main_observed(1) [OF invm _ _ c] o by (intro inv_order_resolve) simp_all
  show ?thesis
    using a b by (auto simp: rethrow_eq split: option.splits)
qed

lemma inv_order_react:
  assumes invm: "inv_main cfg pol st" and inv: "inv_order st"
    and q: "queue st = React r oc # js"
  shows "inv_order (react cfg pol r oc (st\<lparr>queue := js\<rparr>))"
proof -
  let ?p = "st\<lparr>queue := js\<rparr>"
  note mp = inv_main_pop [OF invm q]
  have pl: "(\<forall>k. r \<noteq> OnFlow k \<and> r \<noteq> OnFinally k) \<Longrightarrow> inv_order ?p"
    using inv_order_pop [OF inv q] by auto
  show ?thesis
  proof (cases r)
    case (OnFlow k)
    have a: "\<And>x. inv_order (resolve (Handled k) x ?p)"
      using invm inv q unfolding OnFlow by (rule inv_order_handled)
    have "\<And>x. inv_order (resolve (Handled k) x (freeze_token ?p))"
    proof -
      fix x
      show "inv_order (resolve (Handled k) x (freeze_token ?p))"
        by (rule inv_order_cong [OF a [of x]]) (simp_all add: resolve_def freeze_token_def)
    qed
    with a OnFlow show ?thesis by (cases oc) (simp_all add: flow_handled_def)
  next
    case (OnFinally k)
    with inv_order_finally [OF invm inv, of k oc js oc] q show ?thesis by simp
  next
    case (OnElement n k)
    with inv_order_element [OF invm inv, of n k oc js] q show ?thesis by simp
  next
    case OnRace
    with pl mp(1) show ?thesis by (auto intro!: inv_order_resolve)
  next
    case (ResumeSettle n)
    with inv_order_settle_resume [OF invm inv, of n oc js oc] q show ?thesis by simp
  next
    case ResumeBody
    with pl mp(1) show ?thesis
      by (cases oc) (simp_all add: inv_order_try_block inv_order_catch_block)
  next
    case (ResumeTry v)
    with mp(2) have "oc = Fulfilled Undefined" by simp
    with ResumeTry pl mp(1) show ?thesis
      by (auto simp: return_result_def intro!: inv_order_resolve)
  next
    case (ResumeCatch e)
    with mp(2) have "oc = Fulfilled Undefined" "catch_ok cfg ?p e" by simp_all
    with ResumeCatch pl mp(1) show ?thesis
      by (simp add: inv_order_rethrow)
  qed
qed

lemma inv_order_run_job:
  assumes invm: "inv_main cfg pol st" and inv: "inv_order st" and q: "queue st = j # js"
  shows "inv_order (run_job cfg pol j (st\<lparr>queue := js\<rparr>))"
proof (cases j)
  case (RunUndertaking k u)
  let ?p = "st\<lparr>queue := js\<rparr>"
  let ?s = "?p\<lparr>invoked := invoked st @ [k]\<rparr>"
  have op: "inv_order ?p" using inv_order_pop [OF inv q] RunUndertaking by simp
  have os: "inv_order ?s" using op by (rule inv_order_cong) simp_all
  have ms: "inv_main cfg pol ?s"
    using inv_main_invoked [OF inv_main_pop(1) [OF invm q]] by simp
  have r: "\<And>x. inv_order (resolve (FlowPromise k) x ?s)"
    using ms os by (rule inv_order_resolve) simp_all
  have "inv_order (?p\<lparr>invoked := invoked st @ [k], running := running st @ [k]\<rparr>)"
    using op by (rule inv_order_cong) simp_all
  with r RunUndertaking show ?thesis by (cases u) simp_all
next
  case (React r oc)
  with inv_order_react [OF invm inv, of r oc js] q show ?thesis by simp
next
  case (Deliver h k oc)
  let ?p = "st\<lparr>queue := js\<rparr>"
  have op: "inv_order ?p" using inv_order_pop [OF inv q] Deliver by simp
  have mp: "inv_main cfg pol ?p" using invm q by (rule inv_main_pop)
  show ?thesis
  proof (cases h)
    case 0
    have "inv_order (resolve (Returned k) oc ?p)"
      using mp op by (rule inv_order_resolve) simp_all
    with Deliver 0 show ?thesis by simp
  next
    case (Suc h')
    have "inv_order (enqueue (Deliver h' k oc) ?p)"
      using op
      by (rule inv_order_queue_append [where js = "[Deliver h' k oc]"])
         (simp_all add: enqueue_def leading_def)
    with Deliver Suc show ?thesis by simp
  qed
qed

lemma inv_order_await_body:
  assumes invm: "inv_main cfg pol st" and inv: "inv_order st" and c: "stage st = Calling"
  shows "inv_order (await_body cfg st)"
proof -
  let ?a = "st\<lparr>stage := Awaiting\<rparr>"
  have hn: "heap st Body = None" "heap st TimerPromise = None" "heap st Race = None"
    using invm c by (auto intro: inv_unallocated)
  have nb: "new_promise Body ?a = ?a" using hn by (simp add: new_promise_id)
  have oa: "inv_order ?a" using inv by (rule inv_order_cong) simp_all
  show ?thesis
  proof (cases "truthy (timeout cfg)")
    case False
    have "inv_order (then_do Body ResumeBody ?a)"
      using oa by (rule inv_order_then_do) simp_all
    with False show ?thesis by (simp add: await_body_def executeWithTimeout_def nb)
  next
    case True
    let ?b = "?a\<lparr>timer := True, reactions := reactions st @ [(Body, OnRace), (TimerPromise, OnRace)]\<rparr>"
    have e: "executeWithTimeout cfg ?a = (Race, ?b)"
      using True hn
      by (simp add: executeWithTimeout_def Let_def new_promise_def then_do_def fun_upd_idem)
    have ob: "inv_order ?b"
      using inv
      by (rule inv_order_register [where rs = "[(Body, OnRace), (TimerPromise, OnRace)]"])
         simp_all
    have "inv_order (then_do Race ResumeBody ?b)"
      using ob by (rule inv_order_then_do) simp_all
    then show ?thesis by (simp add: await_body_def nb e)
  qed
qed

lemma inv_order_step:
  assumes invm: "inv_main cfg pol st" and inv: "inv_order st"
    and s: "step cfg pol ev st = Some st'"
  shows "inv_order st'"
proof (cases ev)
  case Tick
  with s obtain j js where q: "queue st = j # js"
    and st': "st' = run_job cfg pol j (st\<lparr>queue := js\<rparr>)"
    by (cases "queue st") auto
  from inv_order_run_job [OF invm inv q] show ?thesis unfolding st' .
next
  case (Launch u)
  with s invm inv show ?thesis by (auto intro: inv_order_flow)
next
  case (Finish k oc)
  with s have k: "k \<in> set (running st)"
    and st': "st' = resolve (FlowPromise k) oc (st\<lparr>running := removeAll k (running st)\<rparr>)"
    by (auto split: if_splits)
  let ?a = "st\<lparr>running := removeAll k (running st)\<rparr>"
  have ga: "grows st ?a" by (simp add: grows_def estuary_isFrozen_def)
  have ma: "inv_main cfg pol ?a"
  proof (rule inv_main_delta [OF invm ga])
    fix q r assume "(q, r) \<in> set (reactions ?a)"
    then show "heap ?a q = None \<and>
        ((q, r) \<in> set (reactions st) \<or> allocated ?a q \<and> reg_ok cfg pol ?a q r)"
      using inv_mainD(4) [OF invm] by auto
  qed (use inv_mainD(10,11,12,13) [OF invm] in auto)
  have oa: "inv_order ?a" using inv by (rule inv_order_cong) simp_all
  show ?thesis unfolding st' using ma oa by (rule inv_order_resolve) simp_all
next
  case BodyReturns
  with s inv_order_await_body [OF invm inv] show ?thesis by (auto split: if_splits)
next
  case (BodyThrows e)
  with s have c: "stage st = Calling"
    and st': "st' = catch_block pol e (st\<lparr>stage := Thrown, thrown := Some e\<rparr>)"
    by (auto split: if_splits)
  let ?a = "st\<lparr>stage := Thrown, thrown := Some e\<rparr>"
  have ga: "grows st ?a"
    using c inv_mainD(10) [OF invm] by (simp add: grows_def estuary_isFrozen_def)
  have ma: "inv_main cfg pol ?a"
  proof (rule inv_main_delta [OF invm ga])
    fix q r assume "(q, r) \<in> set (reactions ?a)"
    then show "heap ?a q = None \<and>
        ((q, r) \<in> set (reactions st) \<or> allocated ?a q \<and> reg_ok cfg pol ?a q r)"
      using inv_mainD(4) [OF invm] by auto
  qed (use inv_mainD(10) [OF invm] c in auto)
  have oa: "inv_order ?a" using inv by (rule inv_order_cong) simp_all
  show ?thesis unfolding st' using ma oa by (rule inv_order_catch_block)
next
  case (BodySettles oc)
  with s have st': "st' = resolve Body oc st" by (auto split: if_splits)
  show ?thesis unfolding st' using invm inv by (rule inv_order_resolve) simp_all
next
  case TimerFires
  with s have t: "timer st" and st': "st' = timer_callback cfg st"
    by (auto split: if_splits)
  let ?a = "st\<lparr>timer := False\<rparr>"
  have ga: "grows st ?a" by (simp add: grows_def estuary_isFrozen_def)
  have ma: "inv_main cfg pol ?a"
  proof (rule inv_main_delta [OF invm ga])
    fix q r assume "(q, r) \<in> set (reactions ?a)"
    then show "heap ?a q = None \<and>
        ((q, r) \<in> set (reactions st) \<or> allocated ?a q \<and> reg_ok cfg pol ?a q r)"
      using inv_mainD(4) [OF invm] by auto
  qed (use inv_mainD(10,11,12) [OF invm] in auto)
  have oa: "inv_order (freeze_token ?a)"
    using inv by (intro inv_order_freeze inv_order_cong [of st ?a]) simp_all
  show ?thesis unfolding st' timer_callback_def
    using inv_main_freeze [OF ma] oa by (rule inv_order_resolve) simp_all
next
  case CallSettle
  with s invm inv show ?thesis by (auto intro: inv_order_settle)
qed

lemma inv_order_run_from:
  "inv_main cfg pol st \<Longrightarrow> inv_order st \<Longrightarrow> run cfg pol evs st = Some st' \<Longrightarrow> inv_order st'"
proof (induction evs arbitrary: st)
  case Nil
  then show ?case by simp
next
  case (Cons ev evs)
  from Cons.prems obtain s where s: "step cfg pol ev st = Some s"
    and r: "run cfg pol evs s = Some st'"
    by (auto split: option.splits)
  from inv_main_step [OF Cons.prems(1) s] inv_order_step [OF Cons.prems(1,2) s] Cons.IH [OF _ _ r]
  show ?case by blast
qed

lemma inv_order_run: "run cfg pol evs begin_call = Some st \<Longrightarrow> inv_order st"
  using inv_order_run_from [OF inv_main_begin inv_order_begin] by blast

section \<open>Whole runs\<close>

lemma raised_unique:
  assumes inv: "inv_main cfg pol st" and a: "raised cfg st a" and b: "raised cfg st b"
  shows "a = b"
proof -
  have "thrown st \<noteq> None \<Longrightarrow> heap st (awaited cfg) = None"
  proof -
    assume "thrown st \<noteq> None"
    with inv_mainD(12) [OF inv] have "stage st = Thrown" by simp
    then have "\<not> allocated st (awaited cfg)" by (simp add: awaited_def)
    with inv show ?thesis by (rule inv_unallocated)
  qed
  with a b show ?thesis by (auto simp: raised_def)
qed

lemma run_grows:
  "run cfg pol evs begin_call = Some st \<Longrightarrow> run cfg pol evs' st = Some st' \<Longrightarrow> grows st st'"
  using inv_main_run_from [OF inv_main_run] by blast

lemma failure_facts:
  assumes r: "run cfg pol evs begin_call = Some st" and h: "heap st CallResult = Some (Rejected e)"
  shows "\<exists>err. raised cfg st err \<and> estuary_isFrozen st \<and> settled st
           \<and> rethrown cfg pol st err e
           \<and> (\<forall>x t. (x, t) \<in> set (observed st) \<longrightarrow>
                 x = err \<and> t = tag pol \<and> is_Error err \<and> onError cfg \<noteq> None)"
proof -
  note inv = inv_main_run [OF r]
  from inv_mainD(2) [OF inv h] obtain err where
    c: "catch_ok cfg st err" and t: "rethrown cfg pol st err e"
    by auto
  have "\<And>x t. (x, t) \<in> set (observed st) \<Longrightarrow>
          x = err \<and> t = tag pol \<and> is_Error err \<and> onError cfg \<noteq> None"
  proof -
    fix x t assume "(x, t) \<in> set (observed st)"
    from inv_mainD(9) [OF inv this]
    have o: "is_Error x" "t = tag pol" "onError cfg \<noteq> None" "catch_ok cfg st x" by simp_all
    from raised_unique [OF inv, of x err] o(4) c have "x = err" by (simp add: catch_ok_def)
    with o show "x = err \<and> t = tag pol \<and> is_Error err \<and> onError cfg \<noteq> None" by simp
  qed
  with c t show ?thesis unfolding catch_ok_def by blast
qed

lemma success_facts:
  assumes r: "run cfg pol evs begin_call = Some st" and h: "heap st CallResult = Some (Fulfilled v)"
  shows "heap st (awaited cfg) = Some (Fulfilled v) \<and> heap st Body = Some (Fulfilled v)
         \<and> settled st \<and> (pol = Tributary \<longrightarrow> estuary_isFrozen st)"
  using inv_mainD(2) [OF inv_main_run [OF r] h] by (simp add: try_ok_def)

lemma returned_facts:
  assumes r: "run cfg pol evs begin_call = Some st" and h: "heap st (Returned k) = Some oc"
  shows "heap st (FlowPromise k) = Some oc \<and> k \<notin> set (flows st)
         \<and> (is_rejected oc \<longrightarrow> estuary_isFrozen st)"
proof -
  note inv = inv_main_run [OF r]
  from inv_mainD(2) [OF inv h] have a: "heap st (Handled k) = Some oc" "k \<notin> set (flows st)"
    by simp_all
  from inv_mainD(2) [OF inv a(1)] a(2) show ?thesis by simp
qed

lemma settle_result_facts:
  assumes r: "run cfg pol evs begin_call = Some st" and h: "heap st (SettleResult n) = Some oc"
  shows "oc = Fulfilled Undefined"
    and "k \<in> set (snapshot st n) \<Longrightarrow> k \<notin> set (flows st) \<and> heap st (FlowPromise k) \<noteq> None"
proof -
  note inv = inv_main_run [OF r] and ord = inv_order_run [OF r]
  from inv_mainD(2) [OF inv h] show "oc = Fulfilled Undefined" by simp
  assume k: "k \<in> set (snapshot st n)"
  from inv_orderD(6) [OF ord h k] have nf: "k \<notin> set (flows st)" .
  from inv_orderD(9) [OF ord inv_orderD(7) [OF ord k] nf] obtain x where
    "heap st (Handled k) = Some x" by auto
  from inv_mainD(2) [OF inv this] nf
  show "k \<notin> set (flows st) \<and> heap st (FlowPromise k) \<noteq> None" by simp
qed

lemma no_timer_facts:
  assumes r: "run cfg pol evs begin_call = Some st" and t: "\<not> truthy (timeout cfg)"
  shows "\<not> timer st \<and> heap st TimerPromise = None \<and> heap st Race = None
         \<and> step cfg pol TimerFires st = None"
proof -
  note inv = inv_main_run [OF r]
  have a: "\<not> timer st" using inv_mainD(13) [OF inv] t by auto
  have b: "heap st TimerPromise = None"
    using inv_mainD(2) [OF inv, of TimerPromise] t by (cases "heap st TimerPromise") auto
  have c: "heap st Race = None"
    using inv_mainD(2) [OF inv, of Race] t by (cases "heap st Race") auto
  from a b c show ?thesis by simp
qed

lemma timer_jobs:
  assumes inv: "inv_main cfg pol st" and t: "timer st"
  shows "\<exists>rest. map (\<lambda>x. React (snd x) oc) (filter (\<lambda>x. fst x = TimerPromise) (reactions st))
           = React OnRace oc # rest"
proof -
  let ?f = "filter (\<lambda>x. fst x = TimerPromise) (reactions st)"
  from inv_mainD(13) [OF inv t] have "(TimerPromise, OnRace) \<in> set ?f" by simp
  then obtain x xs where f: "?f = x # xs" by (cases ?f) auto
  then have "x \<in> set ?f" by simp
  then have x: "fst x = TimerPromise" "x \<in> set (reactions st)" by auto
  then have "(TimerPromise, snd x) \<in> set (reactions st)" by (cases x) auto
  from inv_mainD(5) [OF inv this] have "snd x = OnRace"
    by (cases "snd x") (auto simp: awaited_def split: if_splits)
  with f show ?thesis by simp
qed

lemma deadline_facts:
  assumes r: "run cfg pol evs begin_call = Some st"
    and s: "step cfg pol TimerFires st = Some st1" and b: "heap st Body = None"
  shows "truthy (timeout cfg)" and "estuary_isFrozen st1"
    and "heap st1 TimerPromise = Some (Rejected (timeout_error cfg))"
    and "\<exists>st2. step cfg pol Tick st1 = Some st2
           \<and> heap st2 Race = Some (Rejected (timeout_error cfg))
           \<and> (\<forall>evs' st' oc. run cfg pol evs' st2 = Some st' \<and> heap st' CallResult = Some oc \<longrightarrow>
                 (\<exists>e. oc = Rejected e \<and> rethrown cfg pol st' (timeout_error cfg) e))"
proof -
  note inv = inv_main_run [OF r]
  let ?e = "timeout_error cfg"
  from s have t: "timer st" and q: "queue st = []" and st1: "st1 = timer_callback cfg st"
    by (auto split: if_splits)
  from inv_mainD(13) [OF inv t] have tn: "heap st TimerPromise = None" by simp
  from inv_mainD(13) [OF inv t] show tr: "truthy (timeout cfg)" by simp
  show "estuary_isFrozen st1"
    by (simp add: st1 timer_callback_def estuary_isFrozen_def tideToken_resolve freeze_token_def
        isFrozen_freeze)
  show h1: "heap st1 TimerPromise = Some (Rejected ?e)"
    using tn by (simp add: st1 timer_callback_def resolve_def freeze_token_def)
  have rn: "heap st Race = None"
  proof (cases "heap st Race")
    case (Some x)
    from inv_mainD(2) [OF inv Some] b tn show ?thesis by simp
  qed simp
  from timer_jobs [OF inv t, of "Rejected ?e"] obtain rest where
    q1: "queue st1 = React OnRace (Rejected ?e) # rest"
    using tn q by (auto simp: st1 timer_callback_def resolve_def freeze_token_def)
  let ?st2 = "resolve Race (Rejected ?e) (st1\<lparr>queue := rest\<rparr>)"
  have s2: "step cfg pol Tick st1 = Some ?st2" by (simp add: q1)
  have "heap st1 Race = None"
    using rn tn by (simp add: st1 timer_callback_def resolve_def freeze_token_def)
  then have h2: "heap ?st2 Race = Some (Rejected ?e)" by (simp add: resolve_def)
  have r2: "run cfg pol (evs @ [TimerFires, Tick]) begin_call = Some ?st2"
    using r s s2 by (simp add: run_append)
  have "\<And>evs' st' oc. run cfg pol evs' ?st2 = Some st' \<Longrightarrow> heap st' CallResult = Some oc \<Longrightarrow>
          \<exists>e. oc = Rejected e \<and> rethrown cfg pol st' ?e e"
  proof -
    fix evs' st' oc
    assume r': "run cfg pol evs' ?st2 = Some st'" and c: "heap st' CallResult = Some oc"
    have r3: "run cfg pol ((evs @ [TimerFires, Tick]) @ evs') begin_call = Some st'"
      using r2 r' by (simp only: run_append) simp
    have hr: "heap st' Race = Some (Rejected ?e)"
      using run_grows [OF r2 r'] h2 by (rule grows_heap)
    then have aw: "heap st' (awaited cfg) = Some (Rejected ?e)" using tr by (simp add: awaited_def)
    show "\<exists>e. oc = Rejected e \<and> rethrown cfg pol st' ?e e"
    proof (cases oc)
      case (Fulfilled v)
      with success_facts [OF r3, of v] c aw show ?thesis by simp
    next
      case (Rejected e)
      with failure_facts [OF r3, of e] c obtain err where
        e: "raised cfg st' err" "rethrown cfg pol st' err e" by blast
      have "raised cfg st' ?e" using aw by (simp add: raised_def)
      from raised_unique [OF inv_main_run [OF r3] e(1) this] e(2) Rejected show ?thesis by simp
    qed
  qed
  with s2 h2 show "\<exists>st2. step cfg pol Tick st1 = Some st2
           \<and> heap st2 Race = Some (Rejected ?e)
           \<and> (\<forall>evs' st' oc. run cfg pol evs' st2 = Some st' \<and> heap st' CallResult = Some oc \<longrightarrow>
                 (\<exists>e. oc = Rejected e \<and> rethrown cfg pol st' ?e e))"
    by blast
qed

lemma raced:
  assumes "truthy (timeout cfg)"
  shows "fst (executeWithTimeout cfg st) = Race" "timer (snd (executeWithTimeout cfg st))"
    "heap (snd (executeWithTimeout cfg st)) Race = None"
    "(TimerPromise, OnRace) \<in> set (reactions (snd (executeWithTimeout cfg st)))"
    "heap st Body = None \<Longrightarrow> (Body, OnRace) \<in> set (reactions (snd (executeWithTimeout cfg st)))"
    "heap st Body = Some oc \<Longrightarrow> React OnRace oc \<in> set (queue (snd (executeWithTimeout cfg st)))"
  using assms
  by (auto simp: executeWithTimeout_def Let_def new_promise_def then_do_def enqueue_def
      split: option.splits)

lemma settle_again:
  assumes r: "run cfg pol evs begin_call = Some st" and s: "settled st"
  shows "settle st = (SettleResult (settles st),
           st\<lparr>settles := Suc (settles st),
              heap := (heap st)(SettleResult (settles st) \<mapsto> Fulfilled Undefined)\<rparr>)"
proof -
  note inv = inv_main_run [OF r]
  let ?n = "settles st"
  have hn: "heap st (SettleResult ?n) = None"
    using inv by (rule inv_unallocated) simp
  have nr: "\<And>x. x \<in> set (reactions st) \<Longrightarrow> fst x \<noteq> SettleResult ?n"
  proof
    fix x assume "x \<in> set (reactions st)" "fst x = SettleResult ?n"
    then have "(SettleResult ?n, snd x) \<in> set (reactions st)" by (metis prod.collapse)
    from inv_mainD(3) [OF inv this] show False by simp
  qed
  have "filter (\<lambda>x. fst x = SettleResult ?n) (reactions st) = []"
    using nr by (auto simp: filter_empty_conv)
  moreover have "filter (\<lambda>x. fst x \<noteq> SettleResult ?n) (reactions st) = reactions st"
    using nr by (auto simp: filter_id_conv)
  ultimately show ?thesis
    using s hn by (simp add: settle_def Let_def new_promise_def resolve_def)
qed

lemma settle_first:
  assumes "\<not> settled st"
  shows "fst (settle st) = SettleResult (settles st)"
    "heap (snd (settle st)) (SettleResult (settles st)) = None"
    "snapshot (snd (settle st)) (settles st) = flows st"
    "settled (snd (settle st))"
proof -
  have a: "\<And>s n ks. heap (fold (\<lambda>k. then_do (FlowPromise k) (OnElement n k)) ks s) = heap s"
    by simp
  show "fst (settle st) = SettleResult (settles st)" "settled (snd (settle st))" by simp_all
  show "heap (snd (settle st)) (SettleResult (settles st)) = None"
    using assms
    by (simp add: settle_def Let_def allSettled_def new_promise_def resolve_def)
  show "snapshot (snd (settle st)) (settles st) = flows st"
    using assms by (simp add: settle_def Let_def new_promise_def)
qed

lemma settled_stays:
  "run cfg pol evs begin_call = Some st \<Longrightarrow> settled st \<Longrightarrow> run cfg pol evs' st = Some st' \<Longrightarrow>
   settled st'"
  using run_grows [of cfg pol evs st evs' st'] by (simp add: grows_def)

lemma settle_snapshot:
  "snapshot (snd (settle st)) =
     (if settled st then snapshot st else (snapshot st)(settles st := flows st))"
  by (simp add: settle_def Let_def new_promise_def)

lemma block_snapshot:
  "snapshot (try_block pol v st) =
     (if settled st then snapshot st else (snapshot st)(settles st := flows st))"
  "snapshot (catch_block pol e st) =
     (if settled st then snapshot st else (snapshot st)(settles st := flows st))"
  "snapshot (rethrow pol cfg e st) = snapshot st"
  "settled (try_block pol v st)" "settled (catch_block pol e st)"
  "settled (rethrow pol cfg e st) = settled st"
  "settles (try_block pol v st) = Suc (settles st)"
  "settles (catch_block pol e st) = Suc (settles st)"
  "settles (rethrow pol cfg e st) = settles st"
  by (cases pol; simp add: block_defs freeze_token_def case_prod_beta settle_snapshot
        split: option.splits)+

lemma react_snapshot:
  "snapshot (react cfg pol r oc st) =
     (if settled (react cfg pol r oc st) \<and> \<not> settled st
      then (snapshot st)(settles st := flows st) else snapshot st)"
  by (cases r; cases oc)
     (simp_all add: flow_handled_def flow_finally_def allSettled_element_def Let_def
        settle_resume_def return_result_def freeze_token_def enqueue_def block_snapshot)

lemma react_settled:
  "\<not> settled st \<and> settled (react cfg pol r oc st) \<longrightarrow>
   flows (react cfg pol r oc st) = flows st \<and> settles st < settles (react cfg pol r oc st)"
  "settles st \<le> settles (react cfg pol r oc st)"
  by (cases r; cases oc;
      simp add: flow_handled_def flow_finally_def allSettled_element_def Let_def
        settle_resume_def return_result_def freeze_token_def enqueue_def block_snapshot
        block_flows)+

lemma run_job_snapshot:
  "snapshot (run_job cfg pol j st) =
     (if settled (run_job cfg pol j st) \<and> \<not> settled st
      then (snapshot st)(settles st := flows st) else snapshot st)"
  "\<not> settled st \<and> settled (run_job cfg pol j st) \<longrightarrow>
   flows (run_job cfg pol j st) = flows st \<and> settles st < settles (run_job cfg pol j st)"
  "settles st \<le> settles (run_job cfg pol j st)"
proof -
  show "snapshot (run_job cfg pol j st) =
     (if settled (run_job cfg pol j st) \<and> \<not> settled st
      then (snapshot st)(settles st := flows st) else snapshot st)"
  proof (cases j)
    case (RunUndertaking k u)
    then show ?thesis by (cases u) simp_all
  next
    case (React r oc)
    then show ?thesis by (simp add: react_snapshot)
  next
    case (Deliver h k oc)
    then show ?thesis by (cases h) (simp_all add: enqueue_def)
  qed
  show "\<not> settled st \<and> settled (run_job cfg pol j st) \<longrightarrow>
   flows (run_job cfg pol j st) = flows st \<and> settles st < settles (run_job cfg pol j st)"
  proof (cases j)
    case (RunUndertaking k u)
    then show ?thesis by (cases u) simp_all
  next
    case (React r oc)
    then show ?thesis using react_settled(1) [of st cfg pol r oc] by simp
  next
    case (Deliver h k oc)
    then show ?thesis by (cases h) (simp_all add: enqueue_def)
  qed
  show "settles st \<le> settles (run_job cfg pol j st)"
  proof (cases j)
    case (RunUndertaking k u)
    then show ?thesis by (cases u) simp_all
  next
    case (React r oc)
    then show ?thesis by (simp add: react_settled)
  next
    case (Deliver h k oc)
    then show ?thesis by (cases h) (simp_all add: enqueue_def)
  qed
qed

lemma step_snapshot:
  assumes s: "step cfg pol ev st = Some st'"
  shows "snapshot st' =
     (if settled st' \<and> \<not> settled st then (snapshot st)(settles st := flows st) else snapshot st)"
    and "\<not> settled st \<Longrightarrow> settled st' \<Longrightarrow> flows st' = flows st \<and> settles st < settles st'"
    and "settles st \<le> settles st'"
proof -
  have "snapshot st' =
     (if settled st' \<and> \<not> settled st then (snapshot st)(settles st := flows st) else snapshot st)
    \<and> (\<not> settled st \<and> settled st' \<longrightarrow> flows st' = flows st \<and> settles st < settles st')
    \<and> settles st \<le> settles st'"
  proof (cases ev)
    case Tick
    with s obtain j js where q: "queue st = j # js"
      and st': "st' = run_job cfg pol j (st\<lparr>queue := js\<rparr>)"
      by (cases "queue st") auto
    from run_job_snapshot [where cfg = cfg and pol = pol and j = j and st = "st\<lparr>queue := js\<rparr>"]
    show ?thesis
      unfolding st' by simp
  next
    case (Launch u)
    with s show ?thesis by auto
  next
    case (Finish k oc)
    with s show ?thesis by (auto split: if_splits)
  next
    case BodyReturns
    with s show ?thesis
      by (auto simp: await_body_def executeWithTimeout_def Let_def new_promise_def
          split: if_splits)
  next
    case (BodyThrows e)
    with s show ?thesis by (auto simp: block_snapshot block_flows split: if_splits)
  next
    case (BodySettles oc)
    with s show ?thesis by (auto split: if_splits)
  next
    case TimerFires
    with s show ?thesis by (auto simp: timer_callback_def freeze_token_def split: if_splits)
  next
    case CallSettle
    with s show ?thesis by (auto simp: settle_snapshot)
  qed
  then show "snapshot st' =
     (if settled st' \<and> \<not> settled st then (snapshot st)(settles st := flows st) else snapshot st)"
    and "\<not> settled st \<Longrightarrow> settled st' \<Longrightarrow> flows st' = flows st \<and> settles st < settles st'"
    and "settles st \<le> settles st'"
    by blast+
qed

lemma run_snapshot:
  "run cfg pol evs st = Some st' \<Longrightarrow> n < settles st \<Longrightarrow> snapshot st' n = snapshot st n"
proof (induction evs arbitrary: st)
  case Nil
  then show ?case by simp
next
  case (Cons ev evs)
  from Cons.prems obtain s where s: "step cfg pol ev st = Some s" and r: "run cfg pol evs s = Some st'"
    by (auto split: option.splits)
  from step_snapshot(3) [OF s] Cons.prems(2) have "n < settles s" by simp
  from Cons.IH [OF r this] step_snapshot(1) [OF s] Cons.prems(2) show ?case by simp
qed

lemma flow_tracked:
  "set (flows (snd (flow u st))) \<subseteq> set (flows st) \<union> {k. launched st \<le> k \<and> k < launched (snd (flow u st))}"
  "launched st \<le> launched (snd (flow u st))"
  by (auto simp: flow_def Let_def new_promise_def enqueue_def rejected_promise_def)

lemma step_tracked:
  assumes s: "step cfg pol ev st = Some st'"
  shows "set (flows st') \<subseteq> set (flows st) \<union> {k. launched st \<le> k \<and> k < launched st'}
         \<and> launched st \<le> launched st'"
proof (cases ev)
  case Tick
  with s show ?thesis
    using run_job_flows [of cfg pol _ "st\<lparr>queue := tl (queue st)\<rparr>"]
    by (cases "queue st") (auto simp: run_job_launched)
next
  case (Launch u)
  with s flow_tracked [where u = u and st = st] show ?thesis by auto
next
  case (Finish k oc)
  with s show ?thesis by (auto split: if_splits)
next
  case BodyReturns
  with s show ?thesis
    by (auto simp: await_body_def executeWithTimeout_def Let_def new_promise_def
        split: if_splits)
next
  case (BodyThrows e)
  with s show ?thesis by (auto simp: block_flows split: if_splits)
next
  case (BodySettles oc)
  with s show ?thesis by (auto split: if_splits)
next
  case TimerFires
  with s show ?thesis
    by (auto simp: timer_callback_def freeze_token_def split: if_splits)
next
  case CallSettle
  with s show ?thesis by auto
qed

lemma run_tracked:
  "run cfg pol evs st = Some st' \<Longrightarrow>
   set (flows st') \<subseteq> set (flows st) \<union> {k. launched st \<le> k \<and> k < launched st'}
   \<and> launched st \<le> launched st'"
proof (induction evs arbitrary: st)
  case Nil
  then show ?case by simp
next
  case (Cons ev evs)
  from Cons.prems obtain s where s: "step cfg pol ev st = Some s" and r: "run cfg pol evs s = Some st'"
    by (auto split: option.splits)
  from Cons.IH [OF r] step_tracked [OF s] show ?case by auto
qed

lemma step_settled_launched:
  assumes "step cfg pol ev st = Some st'" and "settled st' \<noteq> settled st"
  shows "launched st' = launched st"
proof (cases ev)
  case Tick
  with assms(1) show ?thesis
    by (cases "queue st") (auto simp: run_job_launched)
next
  case (Launch u)
  with assms show ?thesis by auto
next
  case (Finish k oc)
  with assms(1) show ?thesis by (auto split: if_splits)
next
  case BodyReturns
  with assms(1) show ?thesis
    by (auto simp: await_body_def executeWithTimeout_def Let_def new_promise_def
        split: if_splits)
next
  case (BodyThrows e)
  with assms(1) show ?thesis by (auto simp: block_flows split: if_splits)
next
  case (BodySettles oc)
  with assms(1) show ?thesis by (auto split: if_splits)
next
  case TimerFires
  with assms(1) show ?thesis
    by (auto simp: timer_callback_def freeze_token_def split: if_splits)
next
  case CallSettle
  with assms(1) show ?thesis by auto
qed

lemma settle_drains:
  assumes r: "run cfg pol evs begin_call = Some s" and ns: "\<not> settled s"
    and st: "step cfg pol ev s = Some s1" and s1: "settled s1"
    and r2: "run cfg pol evs' s1 = Some st"
    and h: "heap st (SettleResult (settles s)) = Some oc"
  shows "k \<in> set (flows s) \<Longrightarrow> k \<notin> set (flows st) \<and> heap st (FlowPromise k) \<noteq> None"
    and "set (flows st) \<subseteq> {k. launched s \<le> k \<and> k < launched st}"
proof -
  have r3: "run cfg pol ((evs @ [ev]) @ evs') begin_call = Some st"
    using r st r2 by (simp only: run_append) simp
  have a: "snapshot s1 (settles s) = flows s"
    using step_snapshot(1) [OF st] ns s1 by simp
  have "settles s < settles s1"
    using step_snapshot(2) [OF st ns s1] by simp
  from run_snapshot [OF r2 this] a have b: "snapshot st (settles s) = flows s" by simp
  show c: "k \<in> set (flows s) \<Longrightarrow> k \<notin> set (flows st) \<and> heap st (FlowPromise k) \<noteq> None" for k
    using settle_result_facts(2) [OF r3 h, of k] b by simp
  have f1: "flows s1 = flows s" using step_snapshot(2) [OF st ns s1] by simp
  have l1: "launched s \<le> launched s1" using step_tracked [OF st] by simp
  from run_tracked [OF r2] have "set (flows st) \<subseteq> set (flows s1) \<union> {k. launched s1 \<le> k \<and> k < launched st}"
    by simp
  with f1 l1 c show "set (flows st) \<subseteq> {k. launched s \<le> k \<and> k < launched st}"
    by auto
qed

section \<open>The returned promise is settled in the end\<close>

lemma carries_refl: "carries st st"
  by (simp add: carries_def)

lemma carries_trans: "carries a b \<Longrightarrow> carries b c \<Longrightarrow> carries a c"
  by (auto simp: carries_def)

lemma carries_resolve: "carries st s \<Longrightarrow> carries st (resolve p oc s)"
  by (auto simp: carries_def resolve_def)

lemma carries_then_do: "carries st s \<Longrightarrow> carries st (then_do p r s)"
  by (auto simp: carries_def then_do_def enqueue_def split: option.splits)

lemma carries_enqueue: "carries st s \<Longrightarrow> carries st (enqueue j s)"
  by (auto simp: carries_def enqueue_def)

lemma carries_freeze: "carries st s \<Longrightarrow> carries st (freeze_token s)"
  by (auto simp: carries_def freeze_token_def)

lemma carries_fold:
  "carries st s \<Longrightarrow> carries st (fold (\<lambda>k. then_do (f k) (g k)) ks s)"
  by (induction ks arbitrary: s) (simp_all add: carries_then_do)

lemma carries_allSettled: "carries st s \<Longrightarrow> carries st (allSettled n ks s)"
proof -
  assume a: "carries st s"
  have "\<And>x. carries st (new_promise (AllSettled n) (s\<lparr>remaining := x\<rparr>))"
    using a by (auto simp: carries_def new_promise_def)
  then show ?thesis
    by (simp add: allSettled_def Let_def carries_fold carries_resolve)
qed

lemma carries_settle: "carries st s \<Longrightarrow> carries st (snd (settle s))"
proof -
  assume a: "carries st s"
  let ?n = "settles s"
  have b: "carries st (new_promise (SettleResult ?n) (s\<lparr>settles := Suc ?n\<rparr>))"
    using a by (auto simp: carries_def new_promise_def)
  then have "carries st ((new_promise (SettleResult ?n) (s\<lparr>settles := Suc ?n\<rparr>))
      \<lparr>settled := True, snapshot := (snapshot s)(?n := flows s)\<rparr>)"
    by (auto simp: carries_def new_promise_def)
  then show ?thesis
    using b
    by (simp add: settle_def Let_def carries_resolve carries_then_do carries_allSettled
        new_promise_def)
qed

lemma carries_blocks:
  "carries st s \<Longrightarrow> carries st (try_block pol v s)"
  "carries st s \<Longrightarrow> carries st (catch_block pol e s)"
  "carries st s \<Longrightarrow> carries st (rethrow pol cfg e s)"
proof -
  assume a: "carries st s"
  show "carries st (try_block pol v s)"
    using a
    by (cases pol)
       (simp_all add: cascade_try_def tributary_try_def case_prod_beta carries_then_do
          carries_settle carries_freeze)
  show "carries st (catch_block pol e s)"
    using a
    by (cases pol)
       (simp_all add: cascade_catch_def tributary_catch_def case_prod_beta carries_then_do
          carries_settle carries_freeze)
  have "\<And>x. carries st (s\<lparr>observed := x\<rparr>)"
    using a by (simp add: carries_def)
  then show "carries st (rethrow pol cfg e s)"
    using a
    by (cases pol)
       (simp_all add: cascade_rethrow_def tributary_rethrow_def carries_resolve
          split: option.splits)
qed

lemma carries_react:
  assumes "\<forall>k. r \<noteq> OnFinally k"
  shows "carries st (react cfg pol r oc st)"
proof -
  have a: "carries st st" by (rule carries_refl)
  have b: "\<And>x. carries st (st\<lparr>remaining := x\<rparr>)" by (simp add: carries_def)
  show ?thesis
    using assms a b
    by (cases r; cases oc)
       (simp_all add: flow_handled_def allSettled_element_def Let_def settle_resume_def
          return_result_def carries_resolve carries_freeze carries_blocks)
qed

lemma react_queue: "\<exists>zs. queue (react cfg pol r oc st) = queue st @ zs"
proof (cases "\<exists>k. r = OnFinally k")
  case True
  then show ?thesis by (auto simp: flow_finally_def enqueue_def)
next
  case False
  then have "carries st (react cfg pol r oc st)" by (intro carries_react) simp
  then show ?thesis by (simp add: carries_def)
qed

lemma run_job_queue: "\<exists>zs. queue (run_job cfg pol j st) = queue st @ zs"
proof (cases j)
  case (RunUndertaking k u)
  then show ?thesis by (cases u) (simp_all add: resolve_def)
next
  case (React r oc)
  then show ?thesis by (simp add: react_queue)
next
  case (Deliver h k oc)
  then show ?thesis by (cases h) (simp_all add: enqueue_def resolve_def)
qed

lemma inv_deliver_carries:
  assumes "inv_deliver st" and "carries st st'"
  shows "inv_deliver st'"
  unfolding inv_deliver_def
proof (intro allI impI)
  fix k assume a: "k < launched st' \<and> k \<notin> set (flows st') \<and> heap st' (Returned k) = None"
  with assms(2) have "k < launched st \<and> k \<notin> set (flows st) \<and> heap st (Returned k) = None"
    by (auto simp: carries_def)
  with assms(1) obtain h oc where "Deliver h k oc \<in> set (queue st)"
    unfolding inv_deliver_def by blast
  moreover from assms(2) obtain zs where "queue st' = queue st @ zs"
    unfolding carries_def by blast
  ultimately have "Deliver h k oc \<in> set (queue st')" by simp
  then show "\<exists>h oc. Deliver h k oc \<in> set (queue st')" by blast
qed

lemma inv_deliver_pop:
  assumes "inv_deliver st" and "queue st = j # js" and "\<forall>h k oc. j \<noteq> Deliver h k oc"
  shows "inv_deliver (st\<lparr>queue := js\<rparr>)"
  using assms unfolding inv_deliver_def by simp (metis set_ConsD)

lemma inv_deliver_tick:
  assumes inv: "inv_deliver st" and q: "queue st = j # js"
  shows "inv_deliver (run_job cfg pol j (st\<lparr>queue := js\<rparr>))"
proof (cases j)
  case (RunUndertaking k u)
  with inv q have p: "inv_deliver (st\<lparr>queue := js\<rparr>)" by (intro inv_deliver_pop) auto
  have "carries (st\<lparr>queue := js\<rparr>) (run_job cfg pol j (st\<lparr>queue := js\<rparr>))"
    unfolding RunUndertaking
    by (cases u) (auto simp: carries_def resolve_def)
  with p show ?thesis by (rule inv_deliver_carries)
next
  case (React r oc)
  with inv q have p: "inv_deliver (st\<lparr>queue := js\<rparr>)" by (intro inv_deliver_pop) auto
  show ?thesis
  proof (cases "\<exists>k. r = OnFinally k")
    case True
    then obtain k where r: "r = OnFinally k" by blast
    show ?thesis
      using p unfolding React r inv_deliver_def
      by (simp add: flow_finally_def enqueue_def) metis
  next
    case False
    then have "carries (st\<lparr>queue := js\<rparr>) (react cfg pol r oc (st\<lparr>queue := js\<rparr>))"
      by (intro carries_react) simp
    with p show ?thesis unfolding React by (simp add: inv_deliver_carries)
  qed
next
  case (Deliver h k oc)
  have o: "\<And>k' h' oc'. k' \<noteq> k \<Longrightarrow> Deliver h' k' oc' \<in> set (queue st) \<Longrightarrow> Deliver h' k' oc' \<in> set js"
    using q Deliver by auto
  show ?thesis
  proof (cases h)
    case 0
    show ?thesis
      unfolding inv_deliver_def
    proof (intro allI impI)
      fix k'
      let ?s = "run_job cfg pol j (st\<lparr>queue := js\<rparr>)"
      assume a: "k' < launched ?s \<and> k' \<notin> set (flows ?s) \<and> heap ?s (Returned k') = None"
      have s: "?s = resolve (Returned k) oc (st\<lparr>queue := js\<rparr>)" by (simp add: Deliver 0)
      have "heap ?s (Returned k) \<noteq> None" by (simp add: s resolve_def)
      with a have ne: "k' \<noteq> k" by auto
      from a have "k' < launched st \<and> k' \<notin> set (flows st) \<and> heap st (Returned k') = None"
        by (auto simp: s resolve_def split: if_splits)
      with inv obtain h' oc' where "Deliver h' k' oc' \<in> set (queue st)"
        unfolding inv_deliver_def by blast
      from o [OF ne this] show "\<exists>h oc. Deliver h k' oc \<in> set (queue ?s)"
        by (auto simp: s resolve_def)
    qed
  next
    case (Suc h0)
    show ?thesis
      unfolding inv_deliver_def
    proof (intro allI impI)
      fix k'
      let ?s = "run_job cfg pol j (st\<lparr>queue := js\<rparr>)"
      assume a: "k' < launched ?s \<and> k' \<notin> set (flows ?s) \<and> heap ?s (Returned k') = None"
      have s: "?s = enqueue (Deliver h0 k oc) (st\<lparr>queue := js\<rparr>)" by (simp add: Deliver Suc)
      show "\<exists>h oc. Deliver h k' oc \<in> set (queue ?s)"
      proof (cases "k' = k")
        case True
        then show ?thesis by (auto simp: s enqueue_def)
      next
        case False
        from a have "k' < launched st \<and> k' \<notin> set (flows st) \<and> heap st (Returned k') = None"
          by (auto simp: s enqueue_def)
        with inv obtain h' oc' where "Deliver h' k' oc' \<in> set (queue st)"
          unfolding inv_deliver_def by blast
        from o [OF False this] show ?thesis by (auto simp: s enqueue_def)
      qed
    qed
  qed
qed

lemma inv_deliver_step:
  assumes inv: "inv_deliver st" and s: "step cfg pol ev st = Some st'"
  shows "inv_deliver st'"
proof (cases ev)
  case Tick
  with s obtain j js where q: "queue st = j # js"
    and st': "st' = run_job cfg pol j (st\<lparr>queue := js\<rparr>)"
    by (cases "queue st") auto
  from inv_deliver_tick [OF inv q] show ?thesis unfolding st' .
next
  case (Launch u)
  show ?thesis
  proof (cases "isFrozen (tideToken st)")
    case True
    have "carries st (snd (flow u st))" by (simp add: flow_frozen [OF True] carries_def)
    with inv s Launch show ?thesis by (auto intro: inv_deliver_carries)
  next
    case False
    from s Launch have st': "st' = snd (flow u st)" by simp
    show ?thesis
      using inv unfolding st' flow_open [OF False] inv_deliver_def
      by (auto simp: less_Suc_eq)
  qed
next
  case (Finish k oc)
  with s have st': "st' = resolve (FlowPromise k) oc (st\<lparr>running := removeAll k (running st)\<rparr>)"
    by (auto split: if_splits)
  have "carries st (st\<lparr>running := removeAll k (running st)\<rparr>)" by (simp add: carries_def)
  then have "carries st st'" unfolding st' by (rule carries_resolve)
  with inv show ?thesis by (rule inv_deliver_carries)
next
  case BodyReturns
  with s have st': "st' = await_body cfg st" by (auto split: if_splits)
  have "carries st st'"
    unfolding st'
    by (auto simp: await_body_def executeWithTimeout_def Let_def new_promise_def carries_def
        then_do_def enqueue_def split: option.splits)
  with inv show ?thesis by (rule inv_deliver_carries)
next
  case (BodyThrows e)
  with s have st': "st' = catch_block pol e (st\<lparr>stage := Thrown, thrown := Some e\<rparr>)"
    by (auto split: if_splits)
  have "carries st (st\<lparr>stage := Thrown, thrown := Some e\<rparr>)" by (simp add: carries_def)
  then have "carries st st'" unfolding st' by (rule carries_blocks)
  with inv show ?thesis by (rule inv_deliver_carries)
next
  case (BodySettles oc)
  with s have st': "st' = resolve Body oc st" by (auto split: if_splits)
  have "carries st st'" unfolding st' by (intro carries_resolve carries_refl)
  with inv show ?thesis by (rule inv_deliver_carries)
next
  case TimerFires
  with s have st': "st' = timer_callback cfg st" by (auto split: if_splits)
  have "carries st (st\<lparr>timer := False\<rparr>)" by (simp add: carries_def)
  then have "carries st st'"
    unfolding st' timer_callback_def by (intro carries_resolve carries_freeze)
  with inv show ?thesis by (rule inv_deliver_carries)
next
  case CallSettle
  with s have st': "st' = snd (settle st)" by simp
  have "carries st st'" unfolding st' by (intro carries_settle carries_refl)
  with inv show ?thesis by (rule inv_deliver_carries)
qed

lemma inv_deliver_run_from:
  "inv_deliver st \<Longrightarrow> run cfg pol evs st = Some st' \<Longrightarrow> inv_deliver st'"
proof (induction evs arbitrary: st)
  case Nil
  then show ?case by simp
next
  case (Cons ev evs)
  from Cons.prems obtain s where s: "step cfg pol ev st = Some s" and r: "run cfg pol evs s = Some st'"
    by (auto split: option.splits)
  from Cons.IH [OF inv_deliver_step [OF Cons.prems(1) s] r] show ?case .
qed

lemma inv_deliver_run: "run cfg pol evs begin_call = Some st \<Longrightarrow> inv_deliver st"
  by (rule inv_deliver_run_from [of begin_call]) (simp_all add: inv_deliver_def begin_call_def)

lemma ticks_then:
  assumes "run cfg pol (replicate a Tick) st = Some s"
    and "\<exists>n st'. run cfg pol (replicate n Tick) s = Some st' \<and> P st'"
  shows "\<exists>n st'. run cfg pol (replicate n Tick) st = Some st' \<and> P st'"
proof -
  from assms(2) obtain b st' where b: "run cfg pol (replicate b Tick) s = Some st'" "P st'"
    by blast
  have "run cfg pol (replicate (a + b) Tick) st = Some st'"
    using assms(1) b(1) by (simp add: replicate_add run_append)
  with b(2) show ?thesis by blast
qed

lemma reach_head:
  "queue st = xs @ j # ys \<Longrightarrow>
   \<exists>st' zs. run cfg pol (replicate (length xs) Tick) st = Some st' \<and> queue st' = j # ys @ zs"
proof (induction xs arbitrary: st ys)
  case Nil
  then show ?case by simp
next
  case (Cons x xs)
  let ?s = "run_job cfg pol x (st\<lparr>queue := xs @ j # ys\<rparr>)"
  from Cons.prems have s: "step cfg pol Tick st = Some ?s" by simp
  from run_job_queue [of cfg pol x "st\<lparr>queue := xs @ j # ys\<rparr>"] obtain zs where
    "queue ?s = xs @ j # (ys @ zs)" by auto
  from Cons.IH [OF this] obtain st' zs' where
    "run cfg pol (replicate (length xs) Tick) ?s = Some st'" "queue st' = j # (ys @ zs) @ zs'"
    by blast
  with s show ?case by auto
qed

lemma job_runs:
  assumes "j \<in> set (queue st)"
  shows "\<exists>n s. run cfg pol (replicate n Tick) st = Some (run_job cfg pol j s)"
proof -
  from assms obtain xs ys where "queue st = xs @ j # ys" by (auto dest: split_list)
  from reach_head [OF this, of cfg pol] obtain st' zs where
    a: "run cfg pol (replicate (length xs) Tick) st = Some st'" and b: "queue st' = j # ys @ zs"
    by blast
  from b have "run cfg pol (replicate 1 Tick) st' = Some (run_job cfg pol j (st'\<lparr>queue := ys @ zs\<rparr>))"
    by simp
  with a have "run cfg pol (replicate (length xs + 1) Tick) st
      = Some (run_job cfg pol j (st'\<lparr>queue := ys @ zs\<rparr>))"
    by (simp only: replicate_add run_append) simp
  then show ?thesis by blast
qed

lemma deliver_eventually:
  "Deliver h k oc \<in> set (queue st) \<Longrightarrow>
   \<exists>n st'. run cfg pol (replicate n Tick) st = Some st' \<and> heap st' (Returned k) \<noteq> None"
proof (induction h arbitrary: st)
  case 0
  from job_runs [OF 0, of cfg pol] obtain n s where
    "run cfg pol (replicate n Tick) st = Some (run_job cfg pol (Deliver 0 k oc) s)" by blast
  moreover have "heap (run_job cfg pol (Deliver 0 k oc) s) (Returned k) \<noteq> None"
    by (simp add: resolve_def)
  ultimately show ?case by blast
next
  case (Suc h)
  from job_runs [OF Suc.prems, of cfg pol] obtain n s where
    a: "run cfg pol (replicate n Tick) st = Some (run_job cfg pol (Deliver (Suc h) k oc) s)"
    by blast
  have "Deliver h k oc \<in> set (queue (run_job cfg pol (Deliver (Suc h) k oc) s))"
    by (simp add: enqueue_def)
  from ticks_then [OF a Suc.IH [OF this]] show ?case .
qed

lemma handled_eventually:
  assumes "queued st (OnFlow k)"
  shows "\<exists>n st'. run cfg pol (replicate n Tick) st = Some st' \<and> heap st' (Handled k) \<noteq> None"
proof -
  from assms obtain oc where "React (OnFlow k) oc \<in> set (queue st)"
    by (auto simp: queued_def is_job_def)
  from job_runs [OF this, of cfg pol] obtain n s where
    "run cfg pol (replicate n Tick) st = Some (run_job cfg pol (React (OnFlow k) oc) s)" by blast
  moreover have "heap (run_job cfg pol (React (OnFlow k) oc) s) (Handled k) \<noteq> None"
    by (cases oc) (simp_all add: flow_handled_def resolve_def)
  ultimately show ?thesis by blast
qed

lemma removed_eventually:
  assumes "queued st (OnFinally k)"
  shows "\<exists>n st'. run cfg pol (replicate n Tick) st = Some st' \<and> k \<notin> set (flows st')"
proof -
  from assms obtain oc where "React (OnFinally k) oc \<in> set (queue st)"
    by (auto simp: queued_def is_job_def)
  from job_runs [OF this, of cfg pol] obtain n s where
    "run cfg pol (replicate n Tick) st = Some (run_job cfg pol (React (OnFinally k) oc) s)" by blast
  moreover have "k \<notin> set (flows (run_job cfg pol (React (OnFinally k) oc) s))"
    by (simp add: flow_finally_def enqueue_def)
  ultimately show ?thesis by blast
qed

lemma untracked_eventually:
  assumes r: "run cfg pol evs begin_call = Some st" and f: "heap st (FlowPromise k) = Some oc"
  shows "\<exists>n st'. run cfg pol (replicate n Tick) st = Some st' \<and> k \<notin> set (flows st')"
proof (cases "k \<in> set (flows st)")
  case False
  have "run cfg pol (replicate 0 Tick) st = Some st" by simp
  with False show ?thesis by blast
next
  case True
  from inv_orderD(1) [OF inv_order_run [OF r] True] f
  consider "queued st (OnFlow k)" | "queued st (OnFinally k)" by auto
  then show ?thesis
  proof cases
    case 2
    then show ?thesis by (rule removed_eventually)
  next
    case 1
    from handled_eventually [OF 1, of cfg pol] obtain n s where
      a: "run cfg pol (replicate n Tick) st = Some s" and h: "heap s (Handled k) \<noteq> None"
      by blast
    have r': "run cfg pol (evs @ replicate n Tick) begin_call = Some s"
      using r a by (simp add: run_append)
    have f': "heap s (FlowPromise k) = Some oc"
      using run_grows [OF r a] f by (rule grows_heap)
    have "\<exists>m st'. run cfg pol (replicate m Tick) s = Some st' \<and> k \<notin> set (flows st')"
    proof (cases "k \<in> set (flows s)")
      case False
      have "run cfg pol (replicate 0 Tick) s = Some s" by simp
      with False show ?thesis by blast
    next
      case True
      from inv_orderD(1) [OF inv_order_run [OF r'] True] f' h
      have "queued s (OnFinally k)" by auto
      then show ?thesis by (rule removed_eventually)
    qed
    from ticks_then [OF a this] show ?thesis .
  qed
qed

lemma flow_delivered:
  assumes r: "run cfg pol evs begin_call = Some st" and f: "heap st (FlowPromise k) = Some oc"
  shows "\<exists>n st'. run cfg pol (replicate n Tick) st = Some st' \<and> heap st' (Returned k) = Some oc
           \<and> k \<notin> set (flows st')"
proof -
  from untracked_eventually [OF r f] obtain a s where
    a: "run cfg pol (replicate a Tick) st = Some s" and u: "k \<notin> set (flows s)"
    by blast
  have ra: "run cfg pol (evs @ replicate a Tick) begin_call = Some s"
    using r a by (simp add: run_append)
  from inv_mainD(1) [OF inv_main_run [OF r] f] have "k < launched st" by simp
  with run_grows [OF r a] have l: "k < launched s" by (rule grows_launched)
  have "\<exists>n st'. run cfg pol (replicate n Tick) s = Some st' \<and> heap st' (Returned k) \<noteq> None"
  proof (cases "heap s (Returned k)")
    case (Some x)
    have "run cfg pol (replicate 0 Tick) s = Some s" by simp
    with Some show ?thesis by blast
  next
    case None
    with inv_deliver_run [OF ra] l u obtain h x where "Deliver h k x \<in> set (queue s)"
      unfolding inv_deliver_def by blast
    then show ?thesis by (rule deliver_eventually)
  qed
  from ticks_then [OF a this] obtain n st' where
    n: "run cfg pol (replicate n Tick) st = Some st'" and h: "heap st' (Returned k) \<noteq> None"
    by blast
  from h obtain x where x: "heap st' (Returned k) = Some x" by blast
  have rn: "run cfg pol (evs @ replicate n Tick) begin_call = Some st'"
    using r n by (simp add: run_append)
  from returned_facts [OF rn x] have "heap st' (FlowPromise k) = Some x" "k \<notin> set (flows st')"
    by simp_all
  moreover have "heap st' (FlowPromise k) = Some oc"
    using run_grows [OF r n] f by (rule grows_heap)
  ultimately have "heap st' (Returned k) = Some oc \<and> k \<notin> set (flows st')" using x by simp
  with n show ?thesis by blast
qed

section \<open>Who freezes the token\<close>

lemma freeze_cause_grows:
  assumes "grows st st'" and "freeze_cause cfg pol st"
  shows "freeze_cause cfg pol st'"
proof -
  have h: "\<And>p oc. heap st p = Some oc \<Longrightarrow> heap st' p = Some oc"
    using assms(1) by (rule grows_heap)
  have r: "\<And>e. raised cfg st e \<Longrightarrow> raised cfg st' e"
    using assms(1) by (rule raised_grows)
  from assms(2) consider
      "pol = Tributary \<and> (\<exists>v. heap st (awaited cfg) = Some (Fulfilled v))"
    | "\<exists>e. raised cfg st e"
    | "\<exists>k e. heap st (FlowPromise k) = Some (Rejected e)"
    | "heap st TimerPromise \<noteq> None"
    unfolding freeze_cause_def by blast
  then show ?thesis
  proof cases
    case 1
    then show ?thesis unfolding freeze_cause_def using h by blast
  next
    case 2
    then show ?thesis unfolding freeze_cause_def using r by blast
  next
    case 3
    then show ?thesis unfolding freeze_cause_def using h by blast
  next
    case 4
    then obtain x where "heap st TimerPromise = Some x" by blast
    from h [OF this] show ?thesis unfolding freeze_cause_def by simp
  qed
qed

lemma block_token:
  "tideToken (rethrow pol cfg e st) = tideToken st"
  "tideToken (return_result v st) = tideToken st"
  "tideToken (await_body cfg st) = tideToken st"
  "tideToken (flow_finally k oc st) = tideToken st"
  "tideToken (allSettled_element n k st) = tideToken st"
  "tideToken (settle_resume n oc st) = tideToken st"
  "tideToken (enqueue j st) = tideToken st"
proof -
  show "tideToken (rethrow pol cfg e st) = tideToken st"
    by (cases pol)
       (simp_all add: cascade_rethrow_def tributary_rethrow_def tideToken_simps
          split: option.splits)
  show "tideToken (return_result v st) = tideToken st"
    by (simp add: return_result_def tideToken_simps)
  show "tideToken (await_body cfg st) = tideToken st"
    by (simp add: await_body_def executeWithTimeout_def Let_def new_promise_def tideToken_simps)
  show "tideToken (flow_finally k oc st) = tideToken st"
    by (simp add: flow_finally_def enqueue_def)
  show "tideToken (allSettled_element n k st) = tideToken st"
    by (simp add: allSettled_element_def Let_def tideToken_simps)
  show "tideToken (settle_resume n oc st) = tideToken st"
    by (simp add: settle_resume_def tideToken_simps)
  show "tideToken (enqueue j st) = tideToken st"
    by (simp add: enqueue_def)
qed

lemma token_or_cause:
  assumes inv: "inv_main cfg pol st" and s: "step cfg pol ev st = Some st'"
  shows "tideToken st' = tideToken st \<or> freeze_cause cfg pol st'"
proof -
  from inv_main_step [OF inv s] have g: "grows st st'" by simp
  note h = grows_heap [OF g]
  show ?thesis
  proof (cases ev)
    case Tick
    with s obtain j js where q: "queue st = j # js"
      and st': "st' = run_job cfg pol j (st\<lparr>queue := js\<rparr>)"
      by (cases "queue st") auto
    from inv_mainD(6) [OF inv, of j] q have ok: "job_ok cfg pol st j" by simp
    show ?thesis
    proof (cases j)
      case (RunUndertaking k u)
      then show ?thesis unfolding st' by (cases u) (simp_all add: tideToken_simps)
    next
      case (Deliver d k oc)
      then show ?thesis unfolding st' by (cases d) (simp_all add: tideToken_simps block_token)
    next
      case (React r oc)
      show ?thesis
      proof (cases r)
        case (OnFlow k)
        show ?thesis
        proof (cases oc)
          case (Fulfilled v)
          then show ?thesis
            unfolding st' React OnFlow by (simp add: flow_handled_def tideToken_simps)
        next
          case (Rejected e)
          with ok React OnFlow have "heap st (FlowPromise k) = Some (Rejected e)" by simp
          from h [OF this] show ?thesis unfolding freeze_cause_def by blast
        qed
      next
        case (OnFinally k)
        then show ?thesis unfolding st' React by (simp add: block_token)
      next
        case (OnElement n k)
        then show ?thesis unfolding st' React by (simp add: block_token)
      next
        case OnRace
        then show ?thesis unfolding st' React by (simp add: tideToken_simps)
      next
        case (ResumeSettle n)
        then show ?thesis unfolding st' React by (simp add: block_token)
      next
        case ResumeBody
        with ok React have a: "heap st (awaited cfg) = Some oc" by simp
        show ?thesis
        proof (cases oc)
          case (Fulfilled v)
          show ?thesis
          proof (cases pol)
            case Cascade
            then show ?thesis
              unfolding st' React ResumeBody Fulfilled by (simp add: cascade_try_token)
          next
            case Tributary
            from h [OF a] Fulfilled Tributary show ?thesis unfolding freeze_cause_def by blast
          qed
        next
          case (Rejected e)
          with h [OF a] have "raised cfg st' e" by (simp add: raised_def)
          then show ?thesis unfolding freeze_cause_def by blast
        qed
      next
        case (ResumeTry v)
        with ok React have "oc = Fulfilled Undefined" by simp
        then show ?thesis unfolding st' React ResumeTry by (simp add: block_token)
      next
        case (ResumeCatch e)
        then show ?thesis
          unfolding st' React by (cases oc) (simp_all add: block_token tideToken_simps)
      qed
    qed
  next
    case (Launch u)
    with s show ?thesis by (auto simp: tideToken_simps)
  next
    case (Finish k oc)
    with s show ?thesis by (auto simp: tideToken_simps split: if_splits)
  next
    case BodyReturns
    with s show ?thesis by (auto simp: block_token split: if_splits)
  next
    case (BodyThrows e)
    with s have "st' = catch_block pol e (st\<lparr>stage := Thrown, thrown := Some e\<rparr>)"
      by (auto split: if_splits)
    then have "thrown st' = Some e"
      by (cases pol)
         (simp_all add: cascade_catch_def tributary_catch_def case_prod_beta freeze_token_def)
    then have "raised cfg st' e" by (simp add: raised_def)
    then show ?thesis unfolding freeze_cause_def by blast
  next
    case (BodySettles oc)
    with s show ?thesis by (auto simp: tideToken_simps split: if_splits)
  next
    case TimerFires
    with s have "st' = timer_callback cfg st" by (auto split: if_splits)
    then have "heap st' TimerPromise \<noteq> None" by (simp add: timer_callback_def resolve_def)
    then show ?thesis unfolding freeze_cause_def by blast
  next
    case CallSettle
    with s show ?thesis by (auto simp: tideToken_simps)
  qed
qed

lemma inv_freeze_step:
  assumes inv: "inv_main cfg pol st" and f: "inv_freeze cfg pol st"
    and s: "step cfg pol ev st = Some st'"
  shows "inv_freeze cfg pol st'"
  unfolding inv_freeze_def
proof
  assume a: "estuary_isFrozen st'"
  from inv_main_step [OF inv s] have g: "grows st st'" by simp
  from token_or_cause [OF inv s] show "freeze_cause cfg pol st'"
  proof
    assume "tideToken st' = tideToken st"
    with a have "estuary_isFrozen st" by (simp add: estuary_isFrozen_def)
    with f have "freeze_cause cfg pol st" by (simp add: inv_freeze_def)
    with g show ?thesis by (rule freeze_cause_grows)
  qed
qed

lemma inv_freeze_run_from:
  "inv_main cfg pol st \<Longrightarrow> inv_freeze cfg pol st \<Longrightarrow> run cfg pol evs st = Some st' \<Longrightarrow>
   inv_freeze cfg pol st'"
proof (induction evs arbitrary: st)
  case Nil
  then show ?case by simp
next
  case (Cons ev evs)
  from Cons.prems obtain s where s: "step cfg pol ev st = Some s" and r: "run cfg pol evs s = Some st'"
    by (auto split: option.splits)
  from inv_main_step [OF Cons.prems(1) s] have "inv_main cfg pol s" by simp
  from Cons.IH [OF this inv_freeze_step [OF Cons.prems(1,2) s] r] show ?case .
qed

lemma inv_freeze_run: "run cfg pol evs begin_call = Some st \<Longrightarrow> inv_freeze cfg pol st"
proof (rule inv_freeze_run_from [OF inv_main_begin])
  show "inv_freeze cfg pol begin_call"
    by (simp add: inv_freeze_def estuary_isFrozen_def begin_call_def new_TideToken_def
        isFrozen_def)
qed

lemma cascade_success_unfrozen:
  assumes r: "run cfg Cascade evs begin_call = Some st"
    and h: "heap st CallResult = Some (Fulfilled v)" and f: "estuary_isFrozen st"
  shows "(\<exists>k e. heap st (FlowPromise k) = Some (Rejected e)) \<or> heap st TimerPromise \<noteq> None"
proof -
  note inv = inv_main_run [OF r]
  from success_facts [OF r h] have a: "heap st (awaited cfg) = Some (Fulfilled v)"
    and b: "heap st Body = Some (Fulfilled v)" by simp_all
  from inv_mainD(1) [OF inv b] have "stage st = Awaiting" by simp
  with inv_mainD(12) [OF inv] have t: "thrown st = None" by (cases "thrown st") auto
  from a t have "\<not> raised cfg st e" for e by (simp add: raised_def)
  with inv_freeze_run [OF r] f show ?thesis
    by (auto simp: inv_freeze_def freeze_cause_def)
qed

section \<open>The call settles in the end\<close>

lemma forwards_refl: "forwards st st"
  by (simp add: forwards_def)

lemma forwards_trans:
  assumes "forwards a b" and "forwards b c"
  shows "forwards a c"
proof -
  from assms obtain x y where x: "queue b = queue a @ x" and y: "queue c = queue b @ y"
    unfolding forwards_def by blast
  have q: "\<And>r. queued b r \<Longrightarrow> queued c r"
    using y by (auto simp: queued_def)
  have "\<And>q r. (q, r) \<in> set (reactions a) \<Longrightarrow> (q, r) \<in> set (reactions c) \<or> queued c r"
  proof -
    fix p r assume "(p, r) \<in> set (reactions a)"
    with assms(1) have "(p, r) \<in> set (reactions b) \<or> queued b r"
      unfolding forwards_def by blast
    then show "(p, r) \<in> set (reactions c) \<or> queued c r"
    proof
      assume "(p, r) \<in> set (reactions b)"
      with assms(2) show ?thesis unfolding forwards_def by blast
    next
      assume "queued b r"
      from q [OF this] show ?thesis by simp
    qed
  qed
  moreover have "queue c = queue a @ (x @ y)" using x y by simp
  ultimately show ?thesis unfolding forwards_def by blast
qed

lemma forwardsD:
  assumes "forwards st st'"
  shows "(q, r) \<in> set (reactions st) \<Longrightarrow> (q, r) \<in> set (reactions st') \<or> queued st' r"
    and "queued st r \<Longrightarrow> queued st' r"
    and "j \<in> set (queue st) \<Longrightarrow> j \<in> set (queue st')"
  using assms unfolding forwards_def queued_def by auto

lemma forwards_resolve: "forwards st s \<Longrightarrow> forwards st (resolve p oc s)"
proof (rule forwards_trans)
  show "forwards s (resolve p oc s)"
  proof (cases "heap s p")
    case (Some x)
    then show ?thesis by (simp add: resolve_def forwards_refl)
  next
    case None
    have "\<And>q r. (q, r) \<in> set (reactions s) \<Longrightarrow>
        (q, r) \<in> set (reactions (resolve p oc s)) \<or> queued (resolve p oc s) r"
    proof -
      fix q r assume a: "(q, r) \<in> set (reactions s)"
      show "(q, r) \<in> set (reactions (resolve p oc s)) \<or> queued (resolve p oc s) r"
      proof (cases "q = p")
        case True
        with a have "React r oc \<in> set (queue (resolve p oc s))"
          using None by (force simp: resolve_def)
        then show ?thesis by (auto simp: queued_def is_job_def)
      next
        case False
        with a show ?thesis using None by (simp add: resolve_def)
      qed
    qed
    moreover have "\<exists>zs. queue (resolve p oc s) = queue s @ zs" by (simp add: resolve_def)
    ultimately show ?thesis unfolding forwards_def by blast
  qed
qed

lemma forwards_then_do: "forwards st s \<Longrightarrow> forwards st (then_do p r s)"
proof (rule forwards_trans)
  show "forwards s (then_do p r s)"
    by (auto simp: forwards_def then_do_def enqueue_def split: option.splits)
qed

lemma forwards_enqueue: "forwards st s \<Longrightarrow> forwards st (enqueue j s)"
proof (rule forwards_trans)
  show "forwards s (enqueue j s)" by (auto simp: forwards_def enqueue_def)
qed

lemma forwards_freeze: "forwards st s \<Longrightarrow> forwards st (freeze_token s)"
proof (rule forwards_trans)
  show "forwards s (freeze_token s)" by (auto simp: forwards_def freeze_token_def)
qed

lemma forwards_new_promise: "forwards st s \<Longrightarrow> forwards st (new_promise p s)"
proof (rule forwards_trans)
  show "forwards s (new_promise p s)" by (auto simp: forwards_def new_promise_def queued_def)
qed

lemma forwards_fold:
  "forwards st s \<Longrightarrow> forwards st (fold (\<lambda>k. then_do (f k) (g k)) ks s)"
  by (induction ks arbitrary: s) (simp_all add: forwards_then_do)

lemma forwards_quiet:
  assumes "queue s' = queue s" and "reactions s' = reactions s"
  shows "forwards st s \<Longrightarrow> forwards st s'"
proof (rule forwards_trans)
  show "forwards s s'" using assms by (auto simp: forwards_def queued_def)
qed

lemma forwards_allSettled: "forwards st s \<Longrightarrow> forwards st (allSettled n ks s)"
proof -
  assume a: "forwards st s"
  have "\<And>x. forwards st (s\<lparr>remaining := x\<rparr>)"
    using _ _ a by (rule forwards_quiet) simp_all
  then show ?thesis
    by (simp add: allSettled_def Let_def forwards_fold forwards_resolve forwards_new_promise)
qed

lemma forwards_settle: "forwards st s \<Longrightarrow> forwards st (snd (settle s))"
proof -
  assume a: "forwards st s"
  let ?n = "settles s"
  have b: "forwards st (s\<lparr>settles := Suc ?n\<rparr>)"
    using _ _ a by (rule forwards_quiet) simp_all
  then have c: "forwards st (new_promise (SettleResult ?n) (s\<lparr>settles := Suc ?n\<rparr>))"
    by (rule forwards_new_promise)
  have d: "\<And>x. forwards st ((new_promise (SettleResult ?n) (s\<lparr>settles := Suc ?n\<rparr>))
      \<lparr>settled := True, snapshot := x\<rparr>)"
    using _ _ c by (rule forwards_quiet) simp_all
  show ?thesis
    using c d
    by (simp add: settle_def Let_def forwards_resolve forwards_then_do forwards_allSettled
        new_promise_def)
qed

lemma forwards_blocks:
  "forwards st s \<Longrightarrow> forwards st (try_block pol v s)"
  "forwards st s \<Longrightarrow> forwards st (catch_block pol e s)"
  "forwards st s \<Longrightarrow> forwards st (rethrow pol cfg e s)"
proof -
  assume a: "forwards st s"
  show "forwards st (try_block pol v s)"
    using a
    by (cases pol)
       (simp_all add: cascade_try_def tributary_try_def case_prod_beta forwards_then_do
          forwards_settle forwards_freeze)
  show "forwards st (catch_block pol e s)"
    using a
    by (cases pol)
       (simp_all add: cascade_catch_def tributary_catch_def case_prod_beta forwards_then_do
          forwards_settle forwards_freeze)
  have "\<And>x. forwards st (s\<lparr>observed := x\<rparr>)"
    using _ _ a by (rule forwards_quiet) simp_all
  then show "forwards st (rethrow pol cfg e s)"
    using a
    by (cases pol)
       (simp_all add: cascade_rethrow_def tributary_rethrow_def forwards_resolve
          split: option.splits)
qed

lemma forwards_react: "forwards st (react cfg pol r oc st)"
proof -
  have a: "forwards st st" by (rule forwards_refl)
  have b: "\<And>x. forwards st (st\<lparr>remaining := x\<rparr>)"
    using _ _ a by (rule forwards_quiet) simp_all
  have c: "\<And>x. forwards st (st\<lparr>flows := x\<rparr>)"
    using _ _ a by (rule forwards_quiet) simp_all
  show ?thesis
    using a b c
    by (cases r; cases oc)
       (simp_all add: flow_handled_def flow_finally_def allSettled_element_def Let_def
          settle_resume_def return_result_def forwards_resolve forwards_freeze
          forwards_blocks forwards_enqueue)
qed

lemma forwards_run_job: "forwards st (run_job cfg pol j st)"
proof (cases j)
  case (RunUndertaking k u)
  have a: "\<And>x. forwards st (st\<lparr>invoked := x\<rparr>)"
    using _ _ forwards_refl by (rule forwards_quiet) simp_all
  have b: "\<And>x y. forwards st (st\<lparr>invoked := x, running := y\<rparr>)"
    using _ _ forwards_refl by (rule forwards_quiet) simp_all
  from RunUndertaking a b show ?thesis by (cases u) (simp_all add: forwards_resolve)
next
  case (React r oc)
  then show ?thesis by (simp add: forwards_react)
next
  case (Deliver h k oc)
  then show ?thesis
    by (cases h) (simp_all add: forwards_enqueue forwards_resolve forwards_refl)
qed

lemma forwards_event:
  assumes "step cfg pol ev st = Some st'" and "ev \<noteq> Tick"
  shows "forwards st st'"
proof (cases ev)
  case Tick
  with assms(2) show ?thesis by simp
next
  case (Launch u)
  have "forwards st (snd (flow u st))"
  proof (cases "isFrozen (tideToken st)")
    case True
    then show ?thesis by (simp add: flow_frozen forwards_def queued_def)
  next
    case False
    then show ?thesis by (auto simp: flow_open forwards_def queued_def)
  qed
  with assms(1) Launch show ?thesis by simp
next
  case (Finish k oc)
  with assms(1) have st': "st' = resolve (FlowPromise k) oc (st\<lparr>running := removeAll k (running st)\<rparr>)"
    by (auto split: if_splits)
  have "forwards st (st\<lparr>running := removeAll k (running st)\<rparr>)"
    using _ _ forwards_refl by (rule forwards_quiet) simp_all
  then show ?thesis unfolding st' by (rule forwards_resolve)
next
  case BodyReturns
  with assms(1) have st': "st' = await_body cfg st" by (auto split: if_splits)
  have a: "forwards st (new_promise Body (st\<lparr>stage := Awaiting\<rparr>))"
    by (rule forwards_new_promise) (rule forwards_quiet [OF _ _ forwards_refl], simp_all)
  show ?thesis
  proof (cases "truthy (timeout cfg)")
    case False
    with a show ?thesis
      unfolding st' by (simp add: await_body_def executeWithTimeout_def forwards_then_do)
  next
    case True
    let ?b = "new_promise Body (st\<lparr>stage := Awaiting\<rparr>)"
    have "forwards st ((new_promise TimerPromise ?b)\<lparr>timer := True\<rparr>)"
      by (rule forwards_quiet [OF _ _ forwards_new_promise [OF a]]) simp_all
    with True show ?thesis
      unfolding st'
      by (simp add: await_body_def executeWithTimeout_def Let_def forwards_then_do
          forwards_new_promise)
  qed
next
  case (BodyThrows e)
  with assms(1) have st': "st' = catch_block pol e (st\<lparr>stage := Thrown, thrown := Some e\<rparr>)"
    by (auto split: if_splits)
  have "forwards st (st\<lparr>stage := Thrown, thrown := Some e\<rparr>)"
    using _ _ forwards_refl by (rule forwards_quiet) simp_all
  then show ?thesis unfolding st' by (rule forwards_blocks)
next
  case (BodySettles oc)
  with assms(1) have st': "st' = resolve Body oc st" by (auto split: if_splits)
  show ?thesis unfolding st' by (intro forwards_resolve forwards_refl)
next
  case TimerFires
  with assms(1) have st': "st' = timer_callback cfg st" by (auto split: if_splits)
  have "forwards st (st\<lparr>timer := False\<rparr>)"
    using _ _ forwards_refl by (rule forwards_quiet) simp_all
  then show ?thesis unfolding st' timer_callback_def by (intro forwards_resolve forwards_freeze)
next
  case CallSettle
  with assms(1) have st': "st' = snd (settle st)" by simp
  show ?thesis unfolding st' by (intro forwards_settle forwards_refl)
qed

lemma allSettled_remaining: "remaining (allSettled n ks st) = (remaining st)(n := ks)"
  by (simp add: allSettled_def Let_def new_promise_def)

lemma settle_remaining:
  "remaining (snd (settle st)) =
     (if settled st then remaining st else (remaining st)(settles st := flows st))"
  by (simp add: settle_def Let_def new_promise_def allSettled_remaining)

lemma block_remaining:
  "n \<noteq> settles st \<Longrightarrow> remaining (try_block pol v st) n = remaining st n"
  "n \<noteq> settles st \<Longrightarrow> remaining (catch_block pol e st) n = remaining st n"
  "remaining (rethrow pol cfg e st) = remaining st"
  by (cases pol; simp add: block_defs freeze_token_def case_prod_beta settle_remaining
        split: option.splits)+

lemma react_remaining:
  assumes "n < settles st" and "\<forall>k. r \<noteq> OnElement n k"
  shows "remaining (react cfg pol r oc st) n = remaining st n"
  using assms
  by (cases r; cases oc)
     (simp_all add: flow_handled_def flow_finally_def allSettled_element_def Let_def
        settle_resume_def return_result_def freeze_token_def enqueue_def block_remaining)

lemma run_job_remaining:
  assumes "n < settles st" and "\<forall>k. \<not> is_job (OnElement n k) j"
  shows "remaining (run_job cfg pol j st) n = remaining st n"
proof (cases j)
  case (RunUndertaking k u)
  then show ?thesis by (cases u) simp_all
next
  case (React r oc)
  with assms(2) have "\<forall>k. r \<noteq> OnElement n k" by (auto simp: is_job_def)
  with assms(1) React show ?thesis by (simp add: react_remaining)
next
  case (Deliver h k oc)
  then show ?thesis by (cases h) (simp_all add: enqueue_def)
qed

lemma element_remaining:
  "remaining (run_job cfg pol (React (OnElement n k) oc) st) n = remove1 k (remaining st n)"
  by (simp add: allSettled_element_def Let_def)

lemma event_remaining:
  assumes "step cfg pol ev st = Some st'" and "ev \<noteq> Tick" and "n < settles st"
  shows "remaining st' n = remaining st n"
proof (cases ev)
  case Tick
  with assms(2) show ?thesis by simp
next
  case (Launch u)
  with assms(1) show ?thesis by auto
next
  case (Finish k oc)
  with assms(1) show ?thesis by (auto split: if_splits)
next
  case BodyReturns
  with assms(1) show ?thesis
    by (auto simp: await_body_def executeWithTimeout_def Let_def new_promise_def
        split: if_splits)
next
  case (BodyThrows e)
  with assms(1,3) show ?thesis by (auto simp: block_remaining split: if_splits)
next
  case (BodySettles oc)
  with assms(1) show ?thesis by (auto split: if_splits)
next
  case TimerFires
  with assms(1) show ?thesis by (auto simp: timer_callback_def freeze_token_def split: if_splits)
next
  case CallSettle
  with assms(1,3) show ?thesis by (auto simp: settle_remaining)
qed

lemma react_flows_eq:
  "flows (react cfg pol r oc st) = flows st
   \<or> (\<exists>k. flows (react cfg pol r oc st) = removeAll k (flows st))"
  by (cases r; cases oc)
     (auto simp: flow_handled_def flow_finally_def allSettled_element_def Let_def
        settle_resume_def return_result_def freeze_token_def enqueue_def block_flows)

lemma run_job_flows_eq:
  "flows (run_job cfg pol j st) = flows st
   \<or> (\<exists>k. flows (run_job cfg pol j st) = removeAll k (flows st))"
proof (cases j)
  case (RunUndertaking k u)
  then show ?thesis by (cases u) simp_all
next
  case (React r oc)
  then show ?thesis by (simp add: react_flows_eq)
next
  case (Deliver h k oc)
  then show ?thesis by (cases h) (simp_all add: enqueue_def)
qed

lemma distinct_flows_step:
  assumes inv: "inv_main cfg pol st" and d: "distinct (flows st)"
    and s: "step cfg pol ev st = Some st'"
  shows "distinct (flows st')"
proof (cases ev)
  case Tick
  with s obtain j js where st': "st' = run_job cfg pol j (st\<lparr>queue := js\<rparr>)"
    by (cases "queue st") auto
  from run_job_flows_eq [of cfg pol j "st\<lparr>queue := js\<rparr>"] d show ?thesis
    unfolding st' by (auto simp: distinct_removeAll)
next
  case (Launch u)
  show ?thesis
  proof (cases "isFrozen (tideToken st)")
    case True
    with s Launch d show ?thesis by (auto simp: flow_frozen)
  next
    case False
    have "launched st \<notin> set (flows st)" using inv_mainD(7) [OF inv, of "launched st"] by auto
    with s Launch d show ?thesis by (auto simp: flow_open [OF False])
  qed
next
  case (Finish k oc)
  with s d show ?thesis by (auto split: if_splits)
next
  case BodyReturns
  with s d show ?thesis
    by (auto simp: await_body_def executeWithTimeout_def Let_def new_promise_def
        split: if_splits)
next
  case (BodyThrows e)
  with s d show ?thesis by (auto simp: block_flows split: if_splits)
next
  case (BodySettles oc)
  with s d show ?thesis by (auto split: if_splits)
next
  case TimerFires
  with s d show ?thesis by (auto simp: timer_callback_def freeze_token_def split: if_splits)
next
  case CallSettle
  with s d show ?thesis by auto
qed

lemma distinct_flows_run_from:
  "inv_main cfg pol st \<Longrightarrow> distinct (flows st) \<Longrightarrow> run cfg pol evs st = Some st' \<Longrightarrow>
   distinct (flows st')"
proof (induction evs arbitrary: st)
  case Nil
  then show ?case by simp
next
  case (Cons ev evs)
  from Cons.prems obtain s where s: "step cfg pol ev st = Some s" and r: "run cfg pol evs s = Some st'"
    by (auto split: option.splits)
  from inv_main_step [OF Cons.prems(1) s] have "inv_main cfg pol s" by simp
  from Cons.IH [OF this distinct_flows_step [OF Cons.prems(1,2) s] r] show ?case .
qed

lemma distinct_flows_run: "run cfg pol evs begin_call = Some st \<Longrightarrow> distinct (flows st)"
  by (rule distinct_flows_run_from [OF inv_main_begin]) (simp_all add: begin_call_def)

lemma tick_cases:
  assumes "step cfg pol Tick st = Some st'"
  obtains j js where "queue st = j # js" and "st' = run_job cfg pol j (st\<lparr>queue := js\<rparr>)"
  using assms by (cases "queue st") auto

lemma step_registered:
  assumes s: "step cfg pol ev st = Some st'" and r: "(q, r) \<in> set (reactions st)"
  shows "(q, r) \<in> set (reactions st') \<or> queued st' r"
proof (cases "ev = Tick")
  case True
  with s have "step cfg pol Tick st = Some st'" by simp
  then obtain j js where st': "st' = run_job cfg pol j (st\<lparr>queue := js\<rparr>)"
    by (rule tick_cases)
  from forwardsD(1) [OF forwards_run_job, of q r "st\<lparr>queue := js\<rparr>" cfg pol j] r
  show ?thesis unfolding st' by simp
next
  case False
  from forwardsD(1) [OF forwards_event [OF s False] r] show ?thesis .
qed

lemma step_queued:
  assumes s: "step cfg pol ev st = Some st'" and r: "queued st r"
  shows "queued st' r \<or> ev = Tick \<and> (\<exists>j js. queue st = j # js \<and> is_job r j)"
proof (cases "ev = Tick")
  case True
  with s have "step cfg pol Tick st = Some st'" by simp
  then obtain j js where q: "queue st = j # js"
    and st': "st' = run_job cfg pol j (st\<lparr>queue := js\<rparr>)"
    by (rule tick_cases)
  show ?thesis
  proof (cases "is_job r j")
    case True
    with q \<open>ev = Tick\<close> show ?thesis by blast
  next
    case False
    with r q have "queued (st\<lparr>queue := js\<rparr>) r" by (auto simp: queued_def)
    from forwardsD(2) [OF forwards_run_job this] show ?thesis unfolding st' by simp
  qed
next
  case False
  from forwardsD(2) [OF forwards_event [OF s False] r] show ?thesis by simp
qed

lemma step_remaining:
  assumes s: "step cfg pol ev st = Some st'" and n: "n < settles st"
    and e: "\<not> (ev = Tick \<and> (\<exists>j js k. queue st = j # js \<and> is_job (OnElement n k) j))"
  shows "remaining st' n = remaining st n"
proof (cases "ev = Tick")
  case True
  with s have "step cfg pol Tick st = Some st'" by simp
  then obtain j js where q: "queue st = j # js"
    and st': "st' = run_job cfg pol j (st\<lparr>queue := js\<rparr>)"
    by (rule tick_cases)
  from e True q have "\<forall>k. \<not> is_job (OnElement n k) j" by blast
  with n show ?thesis unfolding st' by (simp add: run_job_remaining)
next
  case False
  from event_remaining [OF s False n] show ?thesis .
qed

lemma resolve_unregisters:
  "heap st p = None \<Longrightarrow> (p, r) \<notin> set (reactions (resolve p oc st))"
  by (simp add: resolve_def)

lemma call_settled_ex: "\<exists>y. heap (resolve CallResult oc st) CallResult = Some y"
  by (cases "heap st CallResult") (simp_all add: resolve_def)

lemma call_settled:
  "heap (return_result v st) CallResult \<noteq> None"
  "heap (rethrow pol cfg e st) CallResult \<noteq> None"
  "heap (resolve CallResult oc st) CallResult \<noteq> None"
proof -
  show "heap (resolve CallResult oc st) CallResult \<noteq> None"
    using call_settled_ex [of oc st] by simp
  show "heap (return_result v st) CallResult \<noteq> None"
    using call_settled_ex [of "Fulfilled v" st] by (simp add: return_result_def)
  show "heap (rethrow pol cfg e st) CallResult \<noteq> None"
    by (cases pol)
       (simp_all add: cascade_rethrow_def tributary_rethrow_def call_settled_ex
          split: option.splits)
qed

lemma reporting_step:
  assumes inv: "inv_main cfg pol st" and s: "step cfg pol ev st = Some st'"
    and a: "(AllSettled n, ResumeSettle n) \<in> set (reactions st)" and w: "reporting n st"
    and a': "(AllSettled n, ResumeSettle n) \<in> set (reactions st')"
  shows "reporting n st'"
proof -
  from inv_mainD(3) [OF inv a] have n: "n < settles st" by simp
  from inv_mainD(4) [OF inv a] have p: "heap st (AllSettled n) = None" .
  from w have ne: "remaining st n \<noteq> []" and d: "distinct (remaining st n)"
    and el: "\<And>k. k \<in> set (remaining st n) \<Longrightarrow>
        (FlowPromise k, OnElement n k) \<in> set (reactions st) \<or> queued st (OnElement n k)"
    unfolding reporting_def by blast+
  show ?thesis
  proof (cases "ev = Tick \<and> (\<exists>j js k. queue st = j # js \<and> is_job (OnElement n k) j)")
    case True
    then obtain js k oc where t: "ev = Tick" and q: "queue st = React (OnElement n k) oc # js"
      by (auto simp: is_job_def)
    let ?P = "st\<lparr>queue := js\<rparr>"
    from s t q have st': "st' = allSettled_element n k ?P" by simp
    have r: "remaining st' n = remove1 k (remaining st n)"
      unfolding st' by (simp add: allSettled_element_def Let_def)
    have ne': "remove1 k (remaining st n) \<noteq> []"
    proof
      assume "remove1 k (remaining st n) = []"
      then have "st' = resolve (AllSettled n) (Fulfilled Undefined)
          (?P\<lparr>remaining := (remaining ?P)(n := remove1 k (remaining ?P n))\<rparr>)"
        unfolding st' by (simp add: allSettled_element_def Let_def)
      moreover have "heap (?P\<lparr>remaining := (remaining ?P)(n := remove1 k (remaining ?P n))\<rparr>)
          (AllSettled n) = None" using p by simp
      ultimately have "(AllSettled n, ResumeSettle n) \<notin> set (reactions st')"
        by (simp add: resolve_unregisters)
      with a' show False by simp
    qed
    have "(FlowPromise k', OnElement n k') \<in> set (reactions st') \<or> queued st' (OnElement n k')"
      if k': "k' \<in> set (remove1 k (remaining st n))" for k'
    proof -
      from k' d have m: "k' \<in> set (remaining st n)" and kk: "k' \<noteq> k" by auto
      from el [OF m] show ?thesis
      proof
        assume "(FlowPromise k', OnElement n k') \<in> set (reactions st)"
        from step_registered [OF s this] show ?thesis .
      next
        assume "queued st (OnElement n k')"
        from step_queued [OF s this] q kk show ?thesis by (auto simp: is_job_def)
      qed
    qed
    with ne' d show ?thesis unfolding reporting_def r by simp
  next
    case False
    from step_remaining [OF s n False] have r: "remaining st' n = remaining st n" .
    have "(FlowPromise k, OnElement n k) \<in> set (reactions st') \<or> queued st' (OnElement n k)"
      if k: "k \<in> set (remaining st n)" for k
      using el [OF k]
    proof
      assume "(FlowPromise k, OnElement n k) \<in> set (reactions st)"
      from step_registered [OF s this] show ?thesis .
    next
      assume "queued st (OnElement n k)"
      from step_queued [OF s this] False show ?thesis by blast
    qed
    with ne d show ?thesis unfolding reporting_def r by simp
  qed
qed

lemma settling_step:
  assumes inv: "inv_main cfg pol st" and s: "step cfg pol ev st = Some st'"
    and c: "(SettleResult n, c) \<in> set (reactions st)" and w: "settling n st"
    and c': "(SettleResult n, c) \<in> set (reactions st')"
  shows "settling n st'"
proof -
  from inv_mainD(4) [OF inv c] have p: "heap st (SettleResult n) = None" .
  from w show ?thesis unfolding settling_def
  proof
    assume "queued st (ResumeSettle n)"
    from step_queued [OF s this] show "queued st' (ResumeSettle n)
        \<or> (AllSettled n, ResumeSettle n) \<in> set (reactions st') \<and> reporting n st'"
    proof
      assume "ev = Tick \<and> (\<exists>j js. queue st = j # js \<and> is_job (ResumeSettle n) j)"
      then obtain js oc where t: "ev = Tick" and q: "queue st = React (ResumeSettle n) oc # js"
        by (auto simp: is_job_def)
      from s t q have "st' = resolve (SettleResult n) (Fulfilled Undefined) (st\<lparr>queue := js\<rparr>)"
        by (simp add: settle_resume_def)
      moreover have "heap (st\<lparr>queue := js\<rparr>) (SettleResult n) = None" using p by simp
      ultimately have "(SettleResult n, c) \<notin> set (reactions st')"
        by (simp add: resolve_unregisters)
      with c' show ?thesis by simp
    qed simp
  next
    assume a: "(AllSettled n, ResumeSettle n) \<in> set (reactions st) \<and> reporting n st"
    from step_registered [OF s conjunct1 [OF a]]
    show "queued st' (ResumeSettle n)
        \<or> (AllSettled n, ResumeSettle n) \<in> set (reactions st') \<and> reporting n st'"
    proof
      assume a': "(AllSettled n, ResumeSettle n) \<in> set (reactions st')"
      from reporting_step [OF inv s conjunct1 [OF a] conjunct2 [OF a] a'] a'
      show ?thesis by simp
    qed simp
  qed
qed

lemma waits_step:
  assumes inv: "inv_main cfg pol st" and s: "step cfg pol ev st = Some st'"
    and c: "resumes c" and w: "waits n c st"
  shows "waits n c st'"
proof -
  from inv_main_step [OF inv s] have g: "grows st st'" by simp
  from w consider "heap st CallResult \<noteq> None" | "queued st c"
    | "(SettleResult n, c) \<in> set (reactions st) \<and> settling n st"
    unfolding waits_def by blast
  then show ?thesis
  proof cases
    case 1
    then obtain x where "heap st CallResult = Some x" by blast
    from grows_heap [OF g this] show ?thesis by (simp add: waits_def)
  next
    case 2
    from step_queued [OF s 2] show ?thesis
    proof
      assume "queued st' c"
      then show ?thesis by (simp add: waits_def)
    next
      assume "ev = Tick \<and> (\<exists>j js. queue st = j # js \<and> is_job c j)"
      then obtain js oc where t: "ev = Tick" and q: "queue st = React c oc # js"
        by (auto simp: is_job_def)
      from inv_mainD(6) [OF inv, of "React c oc"] q have ok: "job_ok cfg pol st (React c oc)"
        by simp
      from s t q have st': "st' = react cfg pol c oc (st\<lparr>queue := js\<rparr>)" by simp
      have "heap st' CallResult \<noteq> None"
      proof (cases c)
        case (ResumeTry v)
        with ok have "oc = Fulfilled Undefined" by simp
        then show ?thesis unfolding st' ResumeTry by (simp add: call_settled)
      next
        case (ResumeCatch e)
        with ok have "oc = Fulfilled Undefined" by simp
        then show ?thesis unfolding st' ResumeCatch by (simp add: call_settled)
      qed (use c in simp_all)
      then show ?thesis by (simp add: waits_def)
    qed
  next
    case 3
    from step_registered [OF s conjunct1 [OF 3]] show ?thesis
    proof
      assume c': "(SettleResult n, c) \<in> set (reactions st')"
      from settling_step [OF inv s conjunct1 [OF 3] conjunct2 [OF 3] c'] c'
      show ?thesis by (simp add: waits_def)
    next
      assume "queued st' c"
      then show ?thesis by (simp add: waits_def)
    qed
  qed
qed

lemma fold_registers:
  "k \<in> set ks \<Longrightarrow>
   (f k, g k) \<in> set (reactions (fold (\<lambda>k. then_do (f k) (g k)) ks s))
   \<or> queued (fold (\<lambda>k. then_do (f k) (g k)) ks s) (g k)"
proof (induction ks arbitrary: s)
  case Nil
  then show ?case by simp
next
  case (Cons x xs)
  let ?s = "then_do (f x) (g x) s"
  show ?case
  proof (cases "k = x")
    case True
    have a: "(f k, g k) \<in> set (reactions ?s) \<or> queued ?s (g k)"
      unfolding True
      by (cases "heap s (f x)") (auto simp: then_do_def enqueue_def queued_def is_job_def)
    have fw: "forwards ?s (fold (\<lambda>k. then_do (f k) (g k)) xs ?s)"
      by (intro forwards_fold forwards_refl)
    from a show ?thesis
    proof
      assume "(f k, g k) \<in> set (reactions ?s)"
      from forwardsD(1) [OF fw this] show ?thesis by simp
    next
      assume "queued ?s (g k)"
      from forwardsD(2) [OF fw this] show ?thesis by simp
    qed
  next
    case False
    with Cons.prems have "k \<in> set xs" by simp
    from Cons.IH [OF this, of ?s] show ?thesis by simp
  qed
qed

lemma settle_waits:
  assumes d: "distinct (flows P)"
  shows "waits (settles P) c (then_do (fst (settle P)) c (snd (settle P)))"
proof (cases "settled P")
  case True
  let ?n = "settles P"
  let ?A = "new_promise (SettleResult ?n) (P\<lparr>settles := Suc ?n\<rparr>)"
  from True have s: "snd (settle P) = resolve (SettleResult ?n) (Fulfilled Undefined) ?A"
    by (simp add: settle_def Let_def new_promise_def)
  have "heap (snd (settle P)) (SettleResult ?n) = Some (Fulfilled Undefined)"
    unfolding s by (simp add: resolve_def new_promise_def)
  then have "React c (Fulfilled Undefined)
      \<in> set (queue (then_do (SettleResult ?n) c (snd (settle P))))"
    by (simp add: then_do_def enqueue_def)
  then have "queued (then_do (SettleResult ?n) c (snd (settle P))) c"
    by (auto simp: queued_def is_job_def)
  then show ?thesis by (simp add: waits_def)
next
  case False
  let ?n = "settles P"
  let ?e = "then_do (FlowPromise k) (OnElement ?n k)"
  let ?s1 = "snd (settle P)"
  let ?s2 = "then_do (SettleResult ?n) c ?s1"
  let ?A = "new_promise (SettleResult ?n) (P\<lparr>settles := Suc ?n\<rparr>)"
  let ?B = "?A\<lparr>settled := True, snapshot := (snapshot ?A)(?n := flows ?A)\<rparr>"
  let ?C0 = "new_promise (AllSettled ?n) (?B\<lparr>remaining := (remaining ?B)(?n := flows P)\<rparr>)"
  let ?C1 = "fold (\<lambda>k. then_do (FlowPromise k) (OnElement ?n k)) (flows P) ?C0"
  let ?C2 = "if flows P = [] then resolve (AllSettled ?n) (Fulfilled Undefined) ?C1 else ?C1"
  have s1: "?s1 = then_do (AllSettled ?n) (ResumeSettle ?n) ?C2"
    using False by (simp add: settle_def Let_def allSettled_def new_promise_def)
  note f = settle_first [OF False]
  have reg: "(SettleResult ?n, c) \<in> set (reactions ?s2)"
    using f(2) by (simp add: then_do_def)
  have fw: "forwards ?s1 ?s2" by (intro forwards_then_do forwards_refl)
  have rem: "remaining ?s2 ?n = flows P"
    using False by (simp add: settle_remaining)
  have "settling ?n ?s2"
  proof (cases "flows P = []")
    case True
    then have "heap ?C2 (AllSettled ?n) \<noteq> None" by (simp add: resolve_def new_promise_def)
    then have "queued ?s1 (ResumeSettle ?n)"
      unfolding s1 by (auto simp: then_do_def enqueue_def queued_def is_job_def)
    from forwardsD(2) [OF fw this] show ?thesis by (simp add: settling_def)
  next
    case ne: False
    then have "heap ?C2 (AllSettled ?n) = None" by (simp add: new_promise_def)
    then have a: "(AllSettled ?n, ResumeSettle ?n) \<in> set (reactions ?s1)"
      unfolding s1 by (simp add: then_do_def)
    have a2: "(AllSettled ?n, ResumeSettle ?n) \<in> set (reactions ?s2)"
      using a by (auto simp: then_do_def enqueue_def split: option.splits)
    have el: "(FlowPromise k, OnElement ?n k) \<in> set (reactions ?s2) \<or> queued ?s2 (OnElement ?n k)"
      if k: "k \<in> set (flows P)" for k
    proof -
      from fold_registers [OF k, of FlowPromise "OnElement ?n" ?C0]
      have b: "(FlowPromise k, OnElement ?n k) \<in> set (reactions ?C2)
          \<or> queued ?C2 (OnElement ?n k)"
        using ne by simp
      have fw2: "forwards ?C2 ?s2"
        unfolding s1 by (intro forwards_then_do forwards_refl)
      from b show ?thesis
      proof
        assume "(FlowPromise k, OnElement ?n k) \<in> set (reactions ?C2)"
        then have "(FlowPromise k, OnElement ?n k) \<in> set (reactions ?s2)"
          unfolding s1 by (auto simp: then_do_def enqueue_def split: option.splits)
        then show ?thesis by simp
      next
        assume "queued ?C2 (OnElement ?n k)"
        from forwardsD(2) [OF fw2 this] show ?thesis by simp
      qed
    qed
    from ne d el have "reporting ?n ?s2" unfolding reporting_def rem by simp
    with a2 show ?thesis by (simp add: settling_def)
  qed
  with reg show ?thesis by (simp add: waits_def)
qed

lemma block_waits:
  assumes d: "distinct (flows P)"
  shows "waits (settles P) (ResumeTry v) (try_block pol v P)"
    and "waits (settles P) (ResumeCatch e) (catch_block pol e P)"
proof -
  have f: "distinct (flows (freeze_token P))" "settles (freeze_token P) = settles P"
    using d by (simp_all add: freeze_token_def)
  show "waits (settles P) (ResumeTry v) (try_block pol v P)"
    using settle_waits [OF d, of "ResumeTry v"] settle_waits [OF f(1), of "ResumeTry v"] f(2)
    by (cases pol) (simp_all add: cascade_try_def tributary_try_def case_prod_beta)
  show "waits (settles P) (ResumeCatch e) (catch_block pol e P)"
    using settle_waits [OF f(1), of "ResumeCatch e"] f(2)
    by (cases pol) (simp_all add: cascade_catch_def tributary_catch_def case_prod_beta)
qed

lemma stage_run_job: "stage (run_job cfg pol j st) = stage st"
proof (cases j)
  case (RunUndertaking k u)
  then show ?thesis by (cases u) simp_all
next
  case (React r oc)
  have "stage (react cfg pol r oc st) = stage st"
    by (cases r; cases oc; cases pol)
       (simp_all add: flow_handled_def flow_finally_def allSettled_element_def Let_def
          settle_resume_def return_result_def freeze_token_def enqueue_def block_defs
          case_prod_beta split: option.splits)
  with React show ?thesis by simp
next
  case (Deliver h k oc)
  then show ?thesis by (cases h) (simp_all add: enqueue_def)
qed

lemma inv_pc_step:
  assumes inv: "inv_main cfg pol st" and d: "distinct (flows st)" and pc: "inv_pc cfg st"
    and s: "step cfg pol ev st = Some st'"
  shows "inv_pc cfg st'"
proof -
  from pc consider "stage st = Calling" | "(awaited cfg, ResumeBody) \<in> set (reactions st)"
    | "queued st ResumeBody" | "\<exists>n c. resumes c \<and> waits n c st"
    unfolding inv_pc_def by blast
  then show ?thesis
  proof cases
    case 1
    show ?thesis
    proof (cases ev)
      case Tick
      with s have "step cfg pol Tick st = Some st'" by simp
      then obtain j js where "st' = run_job cfg pol j (st\<lparr>queue := js\<rparr>)"
        by (rule tick_cases)
      with 1 show ?thesis by (simp add: inv_pc_def stage_run_job)
    next
      case (Launch u)
      with s 1 show ?thesis by (auto simp: inv_pc_def)
    next
      case (Finish k oc)
      with s 1 show ?thesis by (auto simp: inv_pc_def split: if_splits)
    next
      case BodyReturns
      with s have st': "st' = await_body cfg st" by (auto split: if_splits)
      have "(awaited cfg, ResumeBody) \<in> set (reactions st')"
        unfolding st'
        by (simp add: await_body_def executeWithTimeout_def Let_def new_promise_def then_do_def
            awaited_def)
      then show ?thesis by (simp add: inv_pc_def)
    next
      case (BodyThrows e)
      with s have st': "st' = catch_block pol e (st\<lparr>stage := Thrown, thrown := Some e\<rparr>)"
        by (auto split: if_splits)
      have "distinct (flows (st\<lparr>stage := Thrown, thrown := Some e\<rparr>))" using d by simp
      from block_waits(2) [OF this, of e pol] have "waits (settles st) (ResumeCatch e) st'"
        unfolding st' by simp
      then have "\<exists>n c. resumes c \<and> waits n c st'"
        by (intro exI [of _ "settles st"] exI [of _ "ResumeCatch e"]) simp
      then show ?thesis by (simp add: inv_pc_def)
    next
      case (BodySettles oc)
      with s 1 show ?thesis by (auto split: if_splits)
    next
      case TimerFires
      with s 1 inv_mainD(10) [OF inv] show ?thesis by (auto split: if_splits)
    next
      case CallSettle
      with s 1 show ?thesis by (auto simp: inv_pc_def)
    qed
  next
    case 2
    from step_registered [OF s 2] show ?thesis by (auto simp: inv_pc_def)
  next
    case 3
    from step_queued [OF s 3] show ?thesis
    proof
      assume "queued st' ResumeBody"
      then show ?thesis by (simp add: inv_pc_def)
    next
      assume "ev = Tick \<and> (\<exists>j js. queue st = j # js \<and> is_job ResumeBody j)"
      then obtain js oc where t: "ev = Tick" and q: "queue st = React ResumeBody oc # js"
        by (auto simp: is_job_def)
      let ?P = "st\<lparr>queue := js\<rparr>"
      from s t q have st': "st' = react cfg pol ResumeBody oc ?P" by simp
      have dp: "distinct (flows ?P)" using d by simp
      have "\<exists>n c. resumes c \<and> waits n c st'"
      proof (cases oc)
        case (Fulfilled v)
        from block_waits(1) [OF dp, of v pol] have "waits (settles st) (ResumeTry v) st'"
          unfolding st' Fulfilled by simp
        then show ?thesis
          by (intro exI [of _ "settles st"] exI [of _ "ResumeTry v"]) simp
      next
        case (Rejected e)
        from block_waits(2) [OF dp, of e pol] have "waits (settles st) (ResumeCatch e) st'"
          unfolding st' Rejected by simp
        then show ?thesis
          by (intro exI [of _ "settles st"] exI [of _ "ResumeCatch e"]) simp
      qed
      then show ?thesis by (simp add: inv_pc_def)
    qed
  next
    case 4
    then obtain n c where "resumes c" "waits n c st" by blast
    from waits_step [OF inv s this] this(1) show ?thesis unfolding inv_pc_def by blast
  qed
qed

lemma inv_pc_run_from:
  "inv_main cfg pol st \<Longrightarrow> distinct (flows st) \<Longrightarrow> inv_pc cfg st \<Longrightarrow>
   run cfg pol evs st = Some st' \<Longrightarrow> inv_pc cfg st'"
proof (induction evs arbitrary: st)
  case Nil
  then show ?case by simp
next
  case (Cons ev evs)
  from Cons.prems obtain s where s: "step cfg pol ev st = Some s" and r: "run cfg pol evs s = Some st'"
    by (auto split: option.splits)
  from inv_main_step [OF Cons.prems(1) s] have i: "inv_main cfg pol s" by simp
  from Cons.IH [OF i distinct_flows_step [OF Cons.prems(1,2) s]
      inv_pc_step [OF Cons.prems(1,2,3) s] r]
  show ?case .
qed

lemma inv_pc_run: "run cfg pol evs begin_call = Some st \<Longrightarrow> inv_pc cfg st"
  by (rule inv_pc_run_from [OF inv_main_begin]) (simp_all add: begin_call_def inv_pc_def)

lemma head_of_queued:
  assumes "queued st r"
  shows "\<exists>m st' oc js. run cfg pol (replicate m Tick) st = Some st' \<and> queue st' = React r oc # js"
proof -
  from assms obtain oc where "React r oc \<in> set (queue st)"
    by (auto simp: queued_def is_job_def)
  then obtain xs ys where "queue st = xs @ React r oc # ys" by (auto dest: split_list)
  from reach_head [OF this, of cfg pol] show ?thesis by blast
qed

lemma tick_one:
  "step cfg pol Tick st = Some st' \<Longrightarrow> run cfg pol (replicate 1 Tick) st = Some st'"
  by simp

lemma ticks_reach:
  assumes "run cfg pol evs begin_call = Some st" and "run cfg pol (replicate m Tick) st = Some st'"
  shows "run cfg pol (evs @ replicate m Tick) begin_call = Some st'"
  using assms by (simp add: run_append)

lemma waits_run_from:
  "inv_main cfg pol st \<Longrightarrow> resumes c \<Longrightarrow> waits n c st \<Longrightarrow> run cfg pol evs st = Some st' \<Longrightarrow>
   waits n c st'"
proof (induction evs arbitrary: st)
  case Nil
  then show ?case by simp
next
  case (Cons ev evs)
  from Cons.prems obtain s where s: "step cfg pol ev st = Some s" and r: "run cfg pol evs s = Some st'"
    by (auto split: option.splits)
  from inv_main_step [OF Cons.prems(1) s] have i: "inv_main cfg pol s" by simp
  from Cons.IH [OF i Cons.prems(2) waits_step [OF Cons.prems(1) s Cons.prems(2,3)] r]
  show ?case .
qed

lemma ticks_launched:
  "run cfg pol (replicate m Tick) st = Some st' \<Longrightarrow> launched st' = launched st"
proof (induction m arbitrary: st)
  case 0
  then show ?case by simp
next
  case (Suc m)
  from Suc.prems obtain s where s: "step cfg pol Tick st = Some s"
    and r: "run cfg pol (replicate m Tick) s = Some st'"
    by (auto split: option.splits)
  from s obtain j js where "s = run_job cfg pol j (st\<lparr>queue := js\<rparr>)" by (rule tick_cases)
  then have "launched s = launched st" by (simp add: run_job_launched)
  with Suc.IH [OF r] show ?case by simp
qed

lemma tick_remaining:
  assumes s: "step cfg pol Tick st = Some st'" and n: "n < settles st"
  shows "remaining st' n = remaining st n \<or> (\<exists>k. remaining st' n = remove1 k (remaining st n))"
proof (cases "\<exists>j js k. queue st = j # js \<and> is_job (OnElement n k) j")
  case True
  then obtain js k oc where q: "queue st = React (OnElement n k) oc # js"
    by (auto simp: is_job_def)
  with s have "st' = run_job cfg pol (React (OnElement n k) oc) (st\<lparr>queue := js\<rparr>)" by simp
  then have "remaining st' n = remove1 k (remaining st n)"
    by (simp add: allSettled_element_def Let_def)
  then show ?thesis by blast
next
  case False
  then have "\<not> (Tick = Tick \<and> (\<exists>j js k. queue st = j # js \<and> is_job (OnElement n k) j))"
    by simp
  from step_remaining [OF s n this] show ?thesis by simp
qed

lemma ticks_remaining:
  "run cfg pol (replicate m Tick) st = Some st' \<Longrightarrow> n < settles st \<Longrightarrow>
   distinct (remaining st n) \<Longrightarrow>
   distinct (remaining st' n) \<and> set (remaining st' n) \<subseteq> set (remaining st n)"
proof (induction m arbitrary: st)
  case 0
  then show ?case by simp
next
  case (Suc m)
  from Suc.prems obtain s where s: "step cfg pol Tick st = Some s"
    and r: "run cfg pol (replicate m Tick) s = Some st'"
    by (auto split: option.splits)
  from step_snapshot(3) [OF s] Suc.prems(2) have n: "n < settles s" by simp
  from tick_remaining [OF s Suc.prems(2)] Suc.prems(3)
  have d: "distinct (remaining s n)" and sub: "set (remaining s n) \<subseteq> set (remaining st n)"
    by (auto simp: distinct_remove1 dest: notin_set_remove1)
  from Suc.IH [OF r n d] sub show ?case by auto
qed

lemma launched_settled_grows:
  assumes "grows st st'" and "launched st' = launched st"
    and "\<forall>k<launched st. heap st (FlowPromise k) \<noteq> None"
  shows "\<forall>k<launched st'. heap st' (FlowPromise k) \<noteq> None"
proof (intro allI impI)
  fix k assume "k < launched st'"
  with assms(2,3) obtain x where "heap st (FlowPromise k) = Some x" by auto
  from grows_heap [OF assms(1) this] show "heap st' (FlowPromise k) \<noteq> None" by simp
qed

lemma resume_runs:
  assumes inv: "inv_main cfg pol st" and c: "resumes c" and q: "queue st = React c oc # js"
  shows "\<exists>st'. step cfg pol Tick st = Some st' \<and> heap st' CallResult \<noteq> None"
proof -
  from inv_mainD(6) [OF inv, of "React c oc"] q have ok: "job_ok cfg pol st (React c oc)"
    by simp
  have "heap (react cfg pol c oc (st\<lparr>queue := js\<rparr>)) CallResult \<noteq> None"
  proof (cases c)
    case (ResumeTry v)
    with ok have "oc = Fulfilled Undefined" by simp
    then show ?thesis unfolding ResumeTry by (simp add: call_settled)
  next
    case (ResumeCatch e)
    with ok have "oc = Fulfilled Undefined" by simp
    then show ?thesis unfolding ResumeCatch by (simp add: call_settled)
  qed (use c in simp_all)
  with q show ?thesis by simp
qed

lemma done_from_queued:
  assumes r: "run cfg pol evs begin_call = Some st" and c: "resumes c" and q: "queued st c"
  shows "\<exists>m st'. run cfg pol (replicate m Tick) st = Some st' \<and> heap st' CallResult \<noteq> None"
proof -
  from head_of_queued [OF q, of cfg pol] obtain m s oc js where
    t: "run cfg pol (replicate m Tick) st = Some s" and h: "queue s = React c oc # js"
    by blast
  from resume_runs [OF inv_main_run [OF ticks_reach [OF r t]] c h] obtain st' where
    s: "step cfg pol Tick s = Some st'" and d: "heap st' CallResult \<noteq> None" by blast
  from tick_one [OF s] d
  have "\<exists>m st'. run cfg pol (replicate m Tick) s = Some st' \<and> heap st' CallResult \<noteq> None"
    by (intro exI [of _ 1] exI [of _ st']) simp
  from ticks_then [OF t this] show ?thesis .
qed

lemma done_from_settle_queued:
  assumes r: "run cfg pol evs begin_call = Some st" and c: "resumes c"
    and w: "waits n c st" and q: "queued st (ResumeSettle n)"
  shows "\<exists>m st'. run cfg pol (replicate m Tick) st = Some st' \<and> heap st' CallResult \<noteq> None"
proof -
  from head_of_queued [OF q, of cfg pol] obtain m s oc js where
    t: "run cfg pol (replicate m Tick) st = Some s" and h: "queue s = React (ResumeSettle n) oc # js"
    by blast
  note rs = ticks_reach [OF r t]
  note inv = inv_main_run [OF rs]
  from waits_run_from [OF inv_main_run [OF r] c w t] have ws: "waits n c s" .
  have "\<exists>m st'. run cfg pol (replicate m Tick) s = Some st' \<and> heap st' CallResult \<noteq> None"
  proof -
    from ws consider "heap s CallResult \<noteq> None" | "queued s c"
      | "(SettleResult n, c) \<in> set (reactions s)"
      unfolding waits_def by blast
    then show ?thesis
    proof cases
      case 1
      have "run cfg pol (replicate 0 Tick) s = Some s" by simp
      with 1 show ?thesis by blast
    next
      case 2
      from done_from_queued [OF rs c 2] show ?thesis .
    next
      case 3
      let ?s2 = "resolve (SettleResult n) (Fulfilled Undefined) (s\<lparr>queue := js\<rparr>)"
      from h have s2: "step cfg pol Tick s = Some ?s2" by (simp add: settle_resume_def)
      from inv_mainD(4) [OF inv 3] have "heap s (SettleResult n) = None" .
      with 3 have "React c (Fulfilled Undefined) \<in> set (queue ?s2)"
        by (force simp: resolve_def)
      then have q2: "queued ?s2 c" by (auto simp: queued_def is_job_def)
      have r2: "run cfg pol ((evs @ replicate m Tick) @ [Tick]) begin_call = Some ?s2"
        using rs s2 by (simp only: run_append) simp
      from done_from_queued [OF r2 c q2]
      have "\<exists>m st'. run cfg pol (replicate m Tick) ?s2 = Some st' \<and> heap st' CallResult \<noteq> None" .
      from ticks_then [OF tick_one [OF s2] this] show ?thesis .
    qed
  qed
  from ticks_then [OF t this] show ?thesis .
qed

lemma done_from_waits:
  assumes "run cfg pol evs begin_call = Some st" and "resumes c" and "waits n c st"
    and "\<forall>k<launched st. heap st (FlowPromise k) \<noteq> None"
  shows "\<exists>m st'. run cfg pol (replicate m Tick) st = Some st' \<and> heap st' CallResult \<noteq> None"
  using assms
proof (induction "length (remaining st n)" arbitrary: evs st rule: less_induct)
  case less
  note r = less.prems(1) and c = less.prems(2) and w = less.prems(3) and H = less.prems(4)
  note inv = inv_main_run [OF r]
  from w consider "heap st CallResult \<noteq> None" | "queued st c"
    | "(SettleResult n, c) \<in> set (reactions st)" "queued st (ResumeSettle n)"
    | "(AllSettled n, ResumeSettle n) \<in> set (reactions st)" "reporting n st"
    unfolding waits_def settling_def by blast
  then show ?case
  proof cases
    case 1
    have "run cfg pol (replicate 0 Tick) st = Some st" by simp
    with 1 show ?thesis by blast
  next
    case 2
    from done_from_queued [OF r c 2] show ?thesis .
  next
    case 3
    from done_from_settle_queued [OF r c w 3(2)] show ?thesis .
  next
    case 4
    from inv_mainD(3) [OF inv 4(1)] have n: "n < settles st" by simp
    from 4(2) have ne: "remaining st n \<noteq> []" and d: "distinct (remaining st n)"
      and el: "\<And>k. k \<in> set (remaining st n) \<Longrightarrow>
        (FlowPromise k, OnElement n k) \<in> set (reactions st) \<or> queued st (OnElement n k)"
      unfolding reporting_def by blast+
    from ne obtain k where k: "k \<in> set (remaining st n)" by (cases "remaining st n") auto
    have "\<not> (FlowPromise k, OnElement n k) \<in> set (reactions st)"
    proof
      assume a: "(FlowPromise k, OnElement n k) \<in> set (reactions st)"
      from inv_mainD(3) [OF inv a] have "k < launched st" by simp
      with H have "heap st (FlowPromise k) \<noteq> None" by blast
      with inv_mainD(4) [OF inv a] show False by simp
    qed
    with el [OF k] have "queued st (OnElement n k)" by simp
    from head_of_queued [OF this, of cfg pol] obtain m s oc js where
      t: "run cfg pol (replicate m Tick) st = Some s"
      and h: "queue s = React (OnElement n k) oc # js"
      by blast
    note rs = ticks_reach [OF r t]
    let ?s2 = "run_job cfg pol (React (OnElement n k) oc) (s\<lparr>queue := js\<rparr>)"
    from h have s2: "step cfg pol Tick s = Some ?s2" by simp
    have r2: "run cfg pol ((evs @ replicate m Tick) @ [Tick]) begin_call = Some ?s2"
      using rs s2 by (simp only: run_append) simp
    have t2: "run cfg pol (replicate (m + 1) Tick) st = Some ?s2"
      using t s2 by (simp only: replicate_add run_append) simp
    from ticks_remaining [OF t n d]
    have d1: "distinct (remaining s n)" and sub: "set (remaining s n) \<subseteq> set (remaining st n)"
      by simp_all
    have rem: "remaining ?s2 n = remove1 k (remaining s n)"
      by (simp add: allSettled_element_def Let_def)
    have "set (remaining ?s2 n) \<subseteq> set (remaining st n) - {k}"
      unfolding rem using d1 sub by auto
    with k have "set (remaining ?s2 n) \<subset> set (remaining st n)" by blast
    then have "card (set (remaining ?s2 n)) < card (set (remaining st n))"
      by (intro psubset_card_mono) simp_all
    moreover have "distinct (remaining ?s2 n)" unfolding rem using d1 by simp
    ultimately have less: "length (remaining ?s2 n) < length (remaining st n)"
      using d by (simp add: distinct_card)
    have w2: "waits n c ?s2"
      using waits_run_from [OF inv c w t2] .
    have H2: "\<forall>k<launched ?s2. heap ?s2 (FlowPromise k) \<noteq> None"
      using run_grows [OF r t2] ticks_launched [OF t2] H by (rule launched_settled_grows)
    from ticks_then [OF t2 less.hyps [OF less r2 c w2 H2]] show ?thesis .
  qed
qed

lemma call_settles:
  assumes r: "run cfg pol evs begin_call = Some st"
    and a: "heap st (awaited cfg) \<noteq> None \<or> stage st = Thrown"
    and H: "\<forall>k<launched st. heap st (FlowPromise k) \<noteq> None"
  shows "\<exists>m st'. run cfg pol (replicate m Tick) st = Some st' \<and> heap st' CallResult \<noteq> None"
proof -
  note inv = inv_main_run [OF r]
  have nc: "stage st \<noteq> Calling"
  proof
    assume c: "stage st = Calling"
    with a obtain x where "heap st (awaited cfg) = Some x" by auto
    from inv_mainD(1) [OF inv this] c show False by (simp add: awaited_def split: if_splits)
  qed
  have nr: "(awaited cfg, ResumeBody) \<notin> set (reactions st)"
  proof
    assume b: "(awaited cfg, ResumeBody) \<in> set (reactions st)"
    from inv_mainD(3) [OF inv b] have "stage st = Awaiting"
      by (simp add: awaited_def split: if_splits)
    with a inv_mainD(4) [OF inv b] show False by simp
  qed
  from inv_pc_run [OF r] nc nr consider "queued st ResumeBody"
    | n c where "resumes c" "waits n c st"
    unfolding inv_pc_def by blast
  then show ?thesis
  proof cases
    case 2
    from done_from_waits [OF r 2 H] show ?thesis .
  next
    case 1
    from head_of_queued [OF 1, of cfg pol] obtain m s oc js where
      t: "run cfg pol (replicate m Tick) st = Some s" and h: "queue s = React ResumeBody oc # js"
      by blast
    note rs = ticks_reach [OF r t]
    let ?P = "s\<lparr>queue := js\<rparr>"
    let ?s2 = "react cfg pol ResumeBody oc ?P"
    from h have s2: "step cfg pol Tick s = Some ?s2" by simp
    have r2: "run cfg pol ((evs @ replicate m Tick) @ [Tick]) begin_call = Some ?s2"
      using rs s2 by (simp only: run_append) simp
    have t2: "run cfg pol (replicate (m + 1) Tick) st = Some ?s2"
      using t s2 by (simp only: replicate_add run_append) simp
    have dp: "distinct (flows ?P)" using distinct_flows_run [OF rs] by simp
    have "\<exists>n c. resumes c \<and> waits n c ?s2"
    proof (cases oc)
      case (Fulfilled v)
      from block_waits(1) [OF dp, of v pol] have "waits (settles s) (ResumeTry v) ?s2"
        unfolding Fulfilled by simp
      then show ?thesis by (intro exI [of _ "settles s"] exI [of _ "ResumeTry v"]) simp
    next
      case (Rejected e)
      from block_waits(2) [OF dp, of e pol] have "waits (settles s) (ResumeCatch e) ?s2"
        unfolding Rejected by simp
      then show ?thesis by (intro exI [of _ "settles s"] exI [of _ "ResumeCatch e"]) simp
    qed
    then obtain n c where c: "resumes c" and w: "waits n c ?s2" by blast
    have H2: "\<forall>k<launched ?s2. heap ?s2 (FlowPromise k) \<noteq> None"
      using run_grows [OF r t2] ticks_launched [OF t2] H by (rule launched_settled_grows)
    from ticks_then [OF t2 done_from_waits [OF r2 c w H2]] show ?thesis .
  qed
qed

lemma rethrown_value:
  assumes "rethrown cfg pol st err e"
  shows "e = (case onError cfg of
               None \<Rightarrow> err
             | Some obs \<Rightarrow>
                 if is_Error err then (case obs err (tag pol) of None \<Rightarrow> err | Some x \<Rightarrow> x)
                 else err)"
  using assms by (auto simp: rethrown_def split: option.splits if_splits)


lemma await_body_races:
  assumes "truthy (timeout cfg)"
  shows "timer (await_body cfg st) \<and> heap (await_body cfg st) Race = None
    \<and> (Body, OnRace) \<in> set (reactions (await_body cfg st))
    \<and> (TimerPromise, OnRace) \<in> set (reactions (await_body cfg st))
    \<and> (Race, ResumeBody) \<in> set (reactions (await_body cfg st))"
  using assms
  by (simp add: await_body_def executeWithTimeout_def Let_def new_promise_def then_do_def)

lemma call_fulfils:
  assumes r: "run cfg pol evs begin_call = Some st"
    and a: "heap st (awaited cfg) = Some (Fulfilled v)"
    and H: "\<forall>k<launched st. heap st (FlowPromise k) \<noteq> None"
  shows "\<exists>m st'. run cfg pol (replicate m Tick) st = Some st'
           \<and> heap st' CallResult = Some (Fulfilled v)"
proof -
  from a have "heap st (awaited cfg) \<noteq> None \<or> stage st = Thrown" by simp
  from call_settles [OF r this H] obtain m st' where
    t: "run cfg pol (replicate m Tick) st = Some st'" and d: "heap st' CallResult \<noteq> None"
    by blast
  note rs = ticks_reach [OF r t]
  note inv = inv_main_run [OF rs]
  have a': "heap st' (awaited cfg) = Some (Fulfilled v)"
    using run_grows [OF r t] a by (rule grows_heap)
  from d obtain oc where oc: "heap st' CallResult = Some oc" by blast
  have "oc = Fulfilled v"
  proof (cases oc)
    case (Fulfilled w)
    with success_facts [OF rs, of w] oc a' show ?thesis by simp
  next
    case (Rejected e)
    with failure_facts [OF rs, of e] oc obtain err where "raised cfg st' err" by blast
    then have "thrown st' = Some err" using a' by (simp add: raised_def)
    with inv_mainD(12) [OF inv] have "stage st' = Thrown" by simp
    moreover from inv_mainD(1) [OF inv a'] have "stage st' = Awaiting"
      by (simp add: awaited_def split: if_splits)
    ultimately show ?thesis by simp
  qed
  with t oc show ?thesis by blast
qed

section \<open>The claims\<close>

subsection \<open>The success paths of cascade and tributary\<close>

text \<open>
  Two runs of \<open>cascade\<close> that fulfil with the value of the scope callback and leave
  the token frozen. In the first an operation that the scope callback did not wait for
  throws. In the second a timeout is set and the timer, which is never cleared, fires
  while \<open>cascade\<close> awaits \<open>settle\<close>.
\<close>

theorem cascade_returns_with_token_armed:
  "(case run plain Cascade
       [Launch (SyncThrow (Str ''bad'')), BodyReturns, Tick, BodySettles (Fulfilled (Num 1)),
        Tick, Tick, Tick, Tick, Tick, Tick, Tick, Tick] begin_call of
     None \<Rightarrow> False
   | Some st \<Rightarrow>
       heap st CallResult = Some (Fulfilled (Num 1)) \<and> estuary_isFrozen st
       \<and> heap st (FlowPromise 0) = Some (Rejected (Str ''bad'')))
   \<and> (case run timed Cascade
       [Launch AsyncWork, BodyReturns, Tick, BodySettles (Fulfilled (Num 1)), Tick, Tick,
        TimerFires, Tick, Finish 0 (Fulfilled (Num 7)), Tick, Tick, Tick, Tick, Tick, Tick]
       begin_call of
     None \<Rightarrow> False
   | Some st \<Rightarrow>
       heap st CallResult = Some (Fulfilled (Num 1)) \<and> estuary_isFrozen st
       \<and> heap st (FlowPromise 0) = Some (Fulfilled (Num 7))
       \<and> heap st TimerPromise = Some (Rejected (ErrorObj ''Fjord timeout exceeded: 100ms'')))"
  by code_simp

text \<open>
  Claim C1, as the code has it. When the promise of the scope callback fulfils,
  \<open>cascade\<close> calls \<open>settle\<close> without touching the token, and \<open>tributary\<close>
  does what \<open>cascade\<close> does on the state whose token was frozen first: the freeze is
  the whole difference. Both continue after \<open>settle\<close> by fulfilling the call with the
  value. A call that fulfilled did so with the value of the scope callback, after
  \<open>settle\<close>, and with the token frozen when the policy is \<open>tributary\<close>. A
  \<open>cascade\<close> call that fulfilled can have its token frozen all the same, but never by
  its own success path: then an operation had failed or the timer had fired. And the
  call does return: once the promise the orchestrator awaits has fulfilled and every
  launched operation has settled, finitely many microtasks fulfil the call with the value.
\<close>

theorem success_paths_differ_by_freeze:
  "react cfg Cascade ResumeBody (Fulfilled v) s = cascade_try v s
   \<and> react cfg Tributary ResumeBody (Fulfilled v) s = cascade_try v (freeze_token s)
   \<and> cascade_try v s = then_do (SettleResult (settles s)) (ResumeTry v) (snd (settle s))
   \<and> tideToken (cascade_try v s) = tideToken s
   \<and> estuary_isFrozen (react cfg Tributary ResumeBody (Fulfilled v) s)
   \<and> settled (react cfg pol ResumeBody (Fulfilled v) s)
   \<and> react cfg pol (ResumeTry v) (Fulfilled x) s = resolve CallResult (Fulfilled v) s
   \<and> (run cfg pol evs begin_call = Some st \<and> heap st CallResult = Some (Fulfilled w) \<longrightarrow>
        heap st Body = Some (Fulfilled w) \<and> settled st
        \<and> (pol = Tributary \<longrightarrow> estuary_isFrozen st))
   \<and> (run cfg Cascade evs' begin_call = Some st' \<and> heap st' CallResult = Some (Fulfilled w')
        \<and> estuary_isFrozen st' \<longrightarrow>
        (\<exists>k e. heap st' (FlowPromise k) = Some (Rejected e)) \<or> heap st' TimerPromise \<noteq> None)
   \<and> (run cfg pol evs2 begin_call = Some s2 \<and> heap s2 (awaited cfg) = Some (Fulfilled u)
        \<and> (\<forall>k<launched s2. heap s2 (FlowPromise k) \<noteq> None) \<longrightarrow>
        (\<exists>m s3. run cfg pol (replicate m Tick) s2 = Some s3
           \<and> heap s3 CallResult = Some (Fulfilled u)))"
proof -
  have a: "estuary_isFrozen (react cfg Tributary ResumeBody (Fulfilled v) s)"
    by (simp add: tributary_is_cascade_after_freeze cascade_try_token estuary_isFrozen_def
        freeze_token_def isFrozen_freeze)
  have b: "settled (react cfg pol ResumeBody (Fulfilled v) s)"
    by (cases pol) (simp_all add: try_settled)
  have c: "cascade_try v s = then_do (SettleResult (settles s)) (ResumeTry v) (snd (settle s))"
    by (simp add: cascade_try_def case_prod_beta)
  have d: "run cfg pol evs begin_call = Some st \<and> heap st CallResult = Some (Fulfilled w) \<longrightarrow>
        heap st Body = Some (Fulfilled w) \<and> settled st
        \<and> (pol = Tributary \<longrightarrow> estuary_isFrozen st)"
    using success_facts [of cfg pol evs st w] by blast
  have e: "react cfg Cascade ResumeBody (Fulfilled v) s = cascade_try v s"
    "react cfg Tributary ResumeBody (Fulfilled v) s = cascade_try v (freeze_token s)"
    "react cfg pol (ResumeTry v) (Fulfilled x) s = resolve CallResult (Fulfilled v) s"
    by (simp_all add: tributary_is_cascade_after_freeze return_result_def)
  have f: "run cfg Cascade evs' begin_call = Some st' \<and> heap st' CallResult = Some (Fulfilled w')
        \<and> estuary_isFrozen st' \<longrightarrow>
        (\<exists>k e. heap st' (FlowPromise k) = Some (Rejected e)) \<or> heap st' TimerPromise \<noteq> None"
    using cascade_success_unfrozen [of cfg evs' st' w'] by blast
  have g: "run cfg pol evs2 begin_call = Some s2 \<and> heap s2 (awaited cfg) = Some (Fulfilled u)
        \<and> (\<forall>k<launched s2. heap s2 (FlowPromise k) \<noteq> None) \<longrightarrow>
        (\<exists>m s3. run cfg pol (replicate m Tick) s2 = Some s3
           \<and> heap s3 CallResult = Some (Fulfilled u))"
    using call_fulfils [of cfg pol evs2 s2 u] by blast
  show ?thesis
    by (intro conjI a b c d e f g cascade_try_token)
qed

theorem success_paths_differ_by_freeze_witness:
  "heap (the (run plain Tributary
      [BodyReturns, BodySettles (Fulfilled (Num 1)), Tick, Tick, Tick] begin_call)) Body
     = Some (Fulfilled (Num 1))
   \<and> estuary_isFrozen (the (run plain Tributary
      [BodyReturns, BodySettles (Fulfilled (Num 1)), Tick, Tick, Tick] begin_call))
   \<and> heap (the (run plain Cascade
      [BodyReturns, BodySettles (Fulfilled (Num 1)), Tick, Tick, Tick] begin_call)) CallResult
     = Some (Fulfilled (Num 1))
   \<and> estuary_isFrozen (the (run plain Cascade
      [BodyReturns, BodySettles (Fulfilled (Num 1)), Tick, Tick, Tick] begin_call)) = False
   \<and> (\<exists>m s3. run plain Tributary (replicate m Tick)
          (the (run plain Tributary
            [Launch AsyncWork, BodyReturns, Tick, BodySettles (Fulfilled (Num 1)),
             Finish 0 (Fulfilled (Num 7))] begin_call)) = Some s3
        \<and> heap s3 CallResult = Some (Fulfilled (Num 1)))"
proof -
  let ?E = "[BodyReturns, BodySettles (Fulfilled (Num 1)), Tick, Tick, Tick]"
  let ?L = "[Launch AsyncWork, BodyReturns, Tick, BodySettles (Fulfilled (Num 1)),
             Finish 0 (Fulfilled (Num 7))]"
  let ?t = "run plain Tributary ?E begin_call"
  let ?c = "run plain Cascade ?E begin_call"
  let ?l = "run plain Tributary ?L begin_call"
  have b: "?t = Some (the ?t)"
    by (rule some_the) code_simp
  have h: "heap (the ?t) CallResult = Some (Fulfilled (Num 1))"
    by code_simp
  have c: "heap (the ?c) CallResult = Some (Fulfilled (Num 1))"
    "estuary_isFrozen (the ?c) = False"
    by code_simp+
  have l: "?l = Some (the ?l)"
    by (rule some_the) code_simp
  have a: "heap (the ?l) (awaited plain) = Some (Fulfilled (Num 1))"
    by code_simp
  have n: "launched (the ?l) = 1" "heap (the ?l) (FlowPromise 0) \<noteq> None"
    by code_simp+
  have k: "\<forall>k<launched (the ?l). heap (the ?l) (FlowPromise k) \<noteq> None"
    unfolding n(1) using n(2) by simp
  note t = success_paths_differ_by_freeze [where cfg = plain and pol = Tributary
      and evs = ?E and st = "the ?t" and w = "Num 1"
      and ?evs2.0 = ?L and ?s2.0 = "the ?l" and u = "Num 1"]
  from t b h
  have "heap (the ?t) Body = Some (Fulfilled (Num 1)) \<and> estuary_isFrozen (the ?t)"
    by blast
  moreover from t l a k
  have "\<exists>m s3. run plain Tributary (replicate m Tick) (the ?l) = Some s3
        \<and> heap s3 CallResult = Some (Fulfilled (Num 1))"
    by blast
  ultimately show ?thesis using c by blast
qed

subsection \<open>What flow does when the undertaking has settled\<close>

text \<open>
  Claim C2. The callbacks \<open>flow\<close> attaches: the rejection handler freezes the token and
  then passes the failure on, the fulfilment handler passes the value on, and the
  \<open>finally\<close> callback deletes the handle whatever the outcome. In every reachable state
  where the promise \<open>flow\<close> returned is settled, it carries the outcome of the
  undertaking, the handle is no longer tracked, and the token is frozen when the outcome is
  a failure. And once the undertaking has settled, running the microtask queue gets there:
  after finitely many ticks the returned promise has that outcome.
\<close>

theorem flow_terminal_delivery:
  assumes "run cfg pol evs begin_call = Some st" and "heap st (FlowPromise k) = Some oc"
  shows "(\<exists>n st'. run cfg pol (replicate n Tick) st = Some st'
            \<and> heap st' (Returned k) = Some oc \<and> k \<notin> set (flows st')
            \<and> (is_rejected oc \<longrightarrow> estuary_isFrozen st'))
    \<and> (\<forall>x. heap st (Returned k) = Some x \<longrightarrow>
          x = oc \<and> k \<notin> set (flows st) \<and> (is_rejected oc \<longrightarrow> estuary_isFrozen st))
    \<and> flow_handled k (Rejected e) s = resolve (Handled k) (Rejected e) (freeze_token s)
    \<and> flow_handled k (Fulfilled v) s = resolve (Handled k) (Fulfilled v) s
    \<and> flows (flow_finally k oc' s) = removeAll k (flows s)"
proof -
  from flow_delivered [OF assms] obtain n st' where
    n: "run cfg pol (replicate n Tick) st = Some st'" and h: "heap st' (Returned k) = Some oc"
    and u: "k \<notin> set (flows st')"
    by blast
  have "run cfg pol (evs @ replicate n Tick) begin_call = Some st'"
    using assms(1) n by (simp add: run_append)
  from returned_facts [OF this h] have "is_rejected oc \<longrightarrow> estuary_isFrozen st'" by simp
  with n h u have a: "\<exists>n st'. run cfg pol (replicate n Tick) st = Some st'
            \<and> heap st' (Returned k) = Some oc \<and> k \<notin> set (flows st')
            \<and> (is_rejected oc \<longrightarrow> estuary_isFrozen st')"
    by blast
  have b: "\<forall>x. heap st (Returned k) = Some x \<longrightarrow>
          x = oc \<and> k \<notin> set (flows st) \<and> (is_rejected oc \<longrightarrow> estuary_isFrozen st)"
  proof (intro allI impI)
    fix x assume "heap st (Returned k) = Some x"
    from returned_facts [OF assms(1) this] assms(2)
    show "x = oc \<and> k \<notin> set (flows st) \<and> (is_rejected oc \<longrightarrow> estuary_isFrozen st)"
      by simp
  qed
  from a b show ?thesis
    by (simp add: flow_handled_def flow_finally_def enqueue_def)
qed

theorem flow_terminal_delivery_witness:
  "\<exists>n st'. run plain Cascade (replicate n Tick)
        (the (run plain Cascade [Launch (SyncThrow (Str ''bad'')), Tick] begin_call)) = Some st'
     \<and> heap st' (Returned 0) = Some (Rejected (Str ''bad'')) \<and> 0 \<notin> set (flows st')
     \<and> estuary_isFrozen st'"
proof -
  let ?r = "run plain Cascade [Launch (SyncThrow (Str ''bad'')), Tick] begin_call"
  have b: "?r = Some (the ?r)"
    by (rule some_the) code_simp
  have h: "heap (the ?r) (FlowPromise 0) = Some (Rejected (Str ''bad''))"
    by code_simp
  from flow_terminal_delivery [OF b h] show ?thesis
    by simp
qed

subsection \<open>flow on a frozen scope\<close>

text \<open>
  Claim C3. A call of \<open>flow\<close> on a frozen scope returns a promise that is rejected
  already with the scope-closed Error; the tracking set, the microtask queue, the
  registered callbacks and the record of invoked undertakings are unchanged, the result
  does not depend on the undertaking, and from then on no launch is accepted and nothing
  new is tracked.
\<close>

theorem flow_refused_when_frozen:
  assumes "estuary_isFrozen st"
  shows "fst (flow u st) = Refused (refused st)
    \<and> heap (snd (flow u st)) (Refused (refused st)) = Some (Rejected scope_closed)
    \<and> is_Error scope_closed
    \<and> flows (snd (flow u st)) = flows st
    \<and> launched (snd (flow u st)) = launched st
    \<and> queue (snd (flow u st)) = queue st
    \<and> reactions (snd (flow u st)) = reactions st
    \<and> invoked (snd (flow u st)) = invoked st
    \<and> running (snd (flow u st)) = running st
    \<and> snd (flow u st) = snd (flow u' st)
    \<and> (run cfg pol evs (snd (flow u st)) = Some st' \<longrightarrow>
         launched st' = launched st \<and> set (flows st') \<subseteq> set (flows st))"
proof -
  from assms have f: "isFrozen (tideToken st)" by (simp add: estuary_isFrozen_def)
  then have f': "isFrozen (tideToken (snd (flow u st)))" by (simp add: tideToken_flow)
  have "run cfg pol evs (snd (flow u st)) = Some st' \<longrightarrow>
         launched st' = launched st \<and> set (flows st') \<subseteq> set (flows st)"
    using frozen_run_closed [OF f', of cfg pol evs st'] f by (auto simp: flow_frozen)
  then show ?thesis using f by (simp add: flow_frozen scope_closed_def)
qed

theorem flow_refused_when_frozen_witness:
  "fst (flow (SyncValue (Num 1)) (freeze_token begin_call)) = Refused 0
   \<and> heap (snd (flow (SyncValue (Num 1)) (freeze_token begin_call))) (Refused 0)
       = Some (Rejected scope_closed)
   \<and> queue (snd (flow (SyncValue (Num 1)) (freeze_token begin_call))) = []
   \<and> flows (the (run plain Cascade [Launch AsyncWork, CallSettle]
        (snd (flow (SyncValue (Num 1)) (freeze_token begin_call))))) = []"
proof -
  let ?s = "freeze_token begin_call"
  let ?r = "run plain Cascade [Launch AsyncWork, CallSettle] (snd (flow (SyncValue (Num 1)) ?s))"
  have a: "estuary_isFrozen ?s"
    by code_simp
  have b: "?r = Some (the ?r)"
    by (rule some_the) code_simp
  have c: "refused ?s = 0" "queue ?s = []" "flows ?s = []"
    by code_simp+
  from flow_refused_when_frozen [OF a, of "SyncValue (Num 1)" "SyncValue (Num 1)" plain Cascade
        "[Launch AsyncWork, CallSettle]" "the ?r"] b c
  show ?thesis
    by (simp del: run.simps)
qed

subsection \<open>Calling settle twice\<close>

text \<open>
  A run in which \<open>settle\<close> is called twice while an operation is tracked and
  running: the promise of the second call is fulfilled at once, the promise of the first
  call is pending, and the operation is still tracked and has not settled.
\<close>

theorem second_settle_returns_early:
  "case run plain Cascade [Launch AsyncWork, Tick, CallSettle, CallSettle] begin_call of
     None \<Rightarrow> False
   | Some st \<Rightarrow>
       heap st (SettleResult 1) = Some (Fulfilled Undefined) \<and> heap st (SettleResult 0) = None
       \<and> flows st = [0] \<and> heap st (FlowPromise 0) = None \<and> running st = [0]"
  by code_simp

text \<open>
  Claim C4, as the code has it. Only the first call of \<open>settle\<close> waits: it copies the
  tracked handles, returns a pending promise, and that promise settles only after every
  handle it copied has settled and left the tracking set. Every later call, made while the
  first one still waits or afterwards, starts no wait at all: it returns a promise that is
  fulfilled at once and changes nothing else, whether or not operations are still tracked.
\<close>

theorem settle_waits_once:
  assumes "run cfg pol evs begin_call = Some s"
  shows "(settled s \<longrightarrow>
            settle s = (SettleResult (settles s),
              s\<lparr>settles := Suc (settles s),
                heap := (heap s)(SettleResult (settles s) \<mapsto> Fulfilled Undefined)\<rparr>))
    \<and> (\<not> settled s \<longrightarrow>
          fst (settle s) = SettleResult (settles s)
          \<and> heap (snd (settle s)) (SettleResult (settles s)) = None
          \<and> snapshot (snd (settle s)) (settles s) = flows s
          \<and> settled (snd (settle s))
          \<and> (\<forall>evs' st oc. run cfg pol evs' (snd (settle s)) = Some st
                \<and> heap st (SettleResult (settles s)) = Some oc \<longrightarrow>
                settled st
                \<and> (\<forall>k\<in>set (flows s). heap st (FlowPromise k) \<noteq> None \<and> k \<notin> set (flows st))))"
proof -
  have a: "settled s \<longrightarrow>
            settle s = (SettleResult (settles s),
              s\<lparr>settles := Suc (settles s),
                heap := (heap s)(SettleResult (settles s) \<mapsto> Fulfilled Undefined)\<rparr>)"
    using settle_again [OF assms] by blast
  have b: "\<not> settled s \<longrightarrow>
          fst (settle s) = SettleResult (settles s)
          \<and> heap (snd (settle s)) (SettleResult (settles s)) = None
          \<and> snapshot (snd (settle s)) (settles s) = flows s
          \<and> settled (snd (settle s))"
    using settle_first [of s] by blast
  have c: "\<not> settled s \<longrightarrow> (\<forall>evs' st oc. run cfg pol evs' (snd (settle s)) = Some st
                \<and> heap st (SettleResult (settles s)) = Some oc \<longrightarrow>
                settled st
                \<and> (\<forall>k\<in>set (flows s). heap st (FlowPromise k) \<noteq> None \<and> k \<notin> set (flows st)))"
  proof (intro impI allI)
    fix evs' st oc
    assume ns: "\<not> settled s"
      and "run cfg pol evs' (snd (settle s)) = Some st
                \<and> heap st (SettleResult (settles s)) = Some oc"
    then have r2: "run cfg pol evs' (snd (settle s)) = Some st"
      and h: "heap st (SettleResult (settles s)) = Some oc"
      by simp_all
    have st: "step cfg pol CallSettle s = Some (snd (settle s))" by simp
    have r1: "run cfg pol (evs @ [CallSettle]) begin_call = Some (snd (settle s))"
      using assms by (simp add: run_append)
    have s1: "settled (snd (settle s))" by simp
    from settled_stays [OF r1 s1 r2] settle_drains(1) [OF assms ns st s1 r2 h]
    show "settled st
        \<and> (\<forall>k\<in>set (flows s). heap st (FlowPromise k) \<noteq> None \<and> k \<notin> set (flows st))"
      by blast
  qed
  from a b c show ?thesis by blast
qed

theorem settle_waits_once_witness:
  "heap (snd (settle (the (run plain Cascade [Launch AsyncWork, Tick, CallSettle] begin_call))))
      (SettleResult 1) = Some (Fulfilled Undefined)
   \<and> flows (snd (settle (the (run plain Cascade [Launch AsyncWork, Tick, CallSettle] begin_call))))
      = [0]
   \<and> heap (snd (settle (the (run plain Cascade [Launch AsyncWork, Tick] begin_call))))
      (SettleResult 0) = None
   \<and> heap (the (run plain Cascade [Finish 0 (Fulfilled (Num 7)), Tick, Tick, Tick, Tick]
        (snd (settle (the (run plain Cascade [Launch AsyncWork, Tick] begin_call))))))
      (FlowPromise 0) \<noteq> None
   \<and> 0 \<notin> set (flows (the (run plain Cascade [Finish 0 (Fulfilled (Num 7)), Tick, Tick, Tick, Tick]
        (snd (settle (the (run plain Cascade [Launch AsyncWork, Tick] begin_call)))))))"
proof -
  let ?a = "run plain Cascade [Launch AsyncWork, Tick, CallSettle] begin_call"
  let ?b = "run plain Cascade [Launch AsyncWork, Tick] begin_call"
  let ?c = "run plain Cascade [Finish 0 (Fulfilled (Num 7)), Tick, Tick, Tick, Tick]
        (snd (settle (the ?b)))"
  have a: "?a = Some (the ?a)"
    by (rule some_the) code_simp
  have b: "?b = Some (the ?b)"
    by (rule some_the) code_simp
  have c: "?c = Some (the ?c)"
    by (rule some_the) code_simp
  have d: "settled (the ?a)" "settles (the ?a) = 1" "flows (the ?a) = [0]"
    "\<not> settled (the ?b)" "settles (the ?b) = 0" "0 \<in> set (flows (the ?b))"
    "heap (the ?c) (SettleResult (settles (the ?b))) = Some (Fulfilled Undefined)"
    by code_simp+
  from settle_waits_once [OF a] d(1,2,3)
  have "heap (snd (settle (the ?a))) (SettleResult 1) = Some (Fulfilled Undefined)
    \<and> flows (snd (settle (the ?a))) = [0]"
    by (simp del: run.simps)
  moreover from settle_waits_once [OF b] d(4,6) c d(7)
  have "heap (snd (settle (the ?b))) (SettleResult (settles (the ?b))) = None
    \<and> heap (the ?c) (FlowPromise 0) \<noteq> None \<and> 0 \<notin> set (flows (the ?c))"
    by blast
  ultimately show ?thesis
    unfolding d(5) by blast
qed

subsection \<open>What holds when settle resolves\<close>

text \<open>
  A run of \<open>cascade\<close> in which an operation is launched while \<open>settle\<close> waits:
  the promise of \<open>settle\<close> is fulfilled, and the new operation is tracked and running.
\<close>

theorem settle_resolves_with_flows_tracked:
  "case run plain Cascade
       [Launch AsyncWork, BodyReturns, Tick, BodySettles (Fulfilled (Num 1)), Tick,
        Launch AsyncWork, Tick, Finish 0 (Fulfilled (Num 7)), Tick, Tick, Tick, Tick, Tick]
       begin_call of
     None \<Rightarrow> False
   | Some st \<Rightarrow>
       heap st (SettleResult 0) = Some (Fulfilled Undefined) \<and> flows st = [1]
       \<and> heap st (FlowPromise 1) = None \<and> running st = [1]"
  by code_simp

text \<open>
  Claim C5, as the code has it. The promise of a \<open>settle\<close> call is never rejected. When
  the promise of the call that waits is fulfilled, every operation that was tracked when
  the call began has left the tracking set, so the set holds only operations launched
  after that moment: it is empty when none was launched since, and in particular when the
  token was frozen as the call began. It is not empty in general: an operation launched
  while \<open>settle\<close> waits is not waited for.
\<close>

theorem settle_postcondition:
  assumes "run cfg pol evs begin_call = Some s" and "\<not> settled s"
    and "step cfg pol ev s = Some s1" and "settled s1"
    and "run cfg pol evs' s1 = Some st"
    and "heap st (SettleResult (settles s)) = Some oc"
  shows "oc = Fulfilled Undefined
    \<and> (\<forall>n x. heap st (SettleResult n) = Some x \<longrightarrow> x = Fulfilled Undefined)
    \<and> (\<forall>k\<in>set (flows s). k \<notin> set (flows st))
    \<and> set (flows st) \<subseteq> {k. launched s \<le> k \<and> k < launched st}
    \<and> (launched st = launched s \<longrightarrow> flows st = [])
    \<and> (estuary_isFrozen s1 \<longrightarrow> flows st = [])"
proof -
  have r3: "run cfg pol ((evs @ [ev]) @ evs') begin_call = Some st"
    using assms(1,3,5) by (simp only: run_append) simp
  have a: "\<forall>n x. heap st (SettleResult n) = Some x \<longrightarrow> x = Fulfilled Undefined"
    using settle_result_facts(1) [OF r3] by blast
  have b: "\<forall>k\<in>set (flows s). k \<notin> set (flows st)"
    using settle_drains(1) [OF assms] by blast
  have c: "set (flows st) \<subseteq> {k. launched s \<le> k \<and> k < launched st}"
    using settle_drains(2) [OF assms] .
  have d: "launched st = launched s \<longrightarrow> flows st = []"
  proof
    assume l: "launched st = launched s"
    have "k \<notin> set (flows st)" for k
    proof
      assume "k \<in> set (flows st)"
      with c have "launched s \<le> k \<and> k < launched st" by blast
      with l show False by simp
    qed
    then show "flows st = []" by (cases "flows st") auto
  qed
  have e: "estuary_isFrozen s1 \<longrightarrow> flows st = []"
  proof
    assume "estuary_isFrozen s1"
    then have "isFrozen (tideToken s1)" by (simp add: estuary_isFrozen_def)
    from frozen_run_closed [OF this assms(5)] have "launched st = launched s1" by simp
    moreover have "launched s1 = launched s"
      using assms(2,4) by (intro step_settled_launched [OF assms(3)]) simp
    ultimately show "flows st = []" using d by simp
  qed
  from a b c d e assms(6) show ?thesis by blast
qed

theorem settle_postcondition_witness:
  "flows (the (run plain Tributary [Finish 0 (Fulfilled (Num 7)), Tick, Tick, Tick, Tick]
      (the (step plain Tributary Tick
        (the (run plain Tributary
          [Launch AsyncWork, BodyReturns, Tick, BodySettles (Fulfilled (Num 1))] begin_call))))))
     = []
   \<and> flows (the (run plain Tributary
          [Launch AsyncWork, BodyReturns, Tick, BodySettles (Fulfilled (Num 1))] begin_call))
     = [0]"
proof -
  let ?a = "run plain Tributary
          [Launch AsyncWork, BodyReturns, Tick, BodySettles (Fulfilled (Num 1))] begin_call"
  let ?b = "step plain Tributary Tick (the ?a)"
  let ?c = "run plain Tributary [Finish 0 (Fulfilled (Num 7)), Tick, Tick, Tick, Tick] (the ?b)"
  have a: "?a = Some (the ?a)"
    by (rule some_the) code_simp
  have b: "?b = Some (the ?b)"
    by (rule some_the) code_simp
  have c: "?c = Some (the ?c)"
    by (rule some_the) code_simp
  have d: "\<not> settled (the ?a)" "settled (the ?b)"
    "heap (the ?c) (SettleResult (settles (the ?a))) = Some (Fulfilled Undefined)"
    "estuary_isFrozen (the ?b)" "flows (the ?a) = [0]"
    by code_simp+
  from settle_postcondition [OF a d(1) b d(2) c d(3)] d(4,5) show ?thesis
    by blast
qed

subsection \<open>The timer fires first\<close>

text \<open>
  Two runs in which the timer fires while the promise of the scope callback is pending.
  In the first an operation is tracked and running: the race is rejected, the token is
  frozen, no microtask is left and the timer cannot fire again, and the call is still
  pending. In the second the failure observer throws: the call is rejected with what the
  observer threw, not with the timeout Error.
\<close>

theorem deadline_call_pending_or_overridden:
  "(case run timed Cascade [Launch AsyncWork, BodyReturns, Tick, TimerFires, Tick, Tick]
       begin_call of
     None \<Rightarrow> False
   | Some st \<Rightarrow>
       heap st Race = Some (Rejected (ErrorObj ''Fjord timeout exceeded: 100ms''))
       \<and> estuary_isFrozen st \<and> heap st CallResult = None \<and> queue st = []
       \<and> flows st = [0] \<and> running st = [0] \<and> heap st (FlowPromise 0) = None
       \<and> Option.is_none (step timed Cascade Tick st)
       \<and> Option.is_none (step timed Cascade TimerFires st))
   \<and> (case run timed_grumpy Cascade [BodyReturns, TimerFires, Tick, Tick, Tick, Tick]
       begin_call of
     None \<Rightarrow> False
   | Some st \<Rightarrow>
       heap st Race = Some (Rejected (ErrorObj ''Fjord timeout exceeded: 20ms''))
       \<and> heap st CallResult = Some (Rejected (Str ''observer'')))"
  by code_simp

text \<open>
  Claim C6, as the code has it. With a truthy timeout the orchestrator awaits the race of
  the promise of the scope callback and a timer promise. When the timer fires while the
  promise of the scope callback is pending, the timer callback freezes the token and
  rejects the timer promise with the Error whose message carries the timeout, and the
  next microtask rejects the race with it. The call does not fail at that moment: its
  catch block awaits \<open>settle\<close> first. From then on the call cannot fulfil; when it
  settles, \<open>settle\<close> has been called, and the call is rejected with that Error unless
  the failure observer throws: then it is rejected with what the observer threw. And
  once every launched operation has settled, finitely many microtasks reject the call.
\<close>

theorem deadline_fires_first:
  assumes "run cfg pol evs begin_call = Some st" and "step cfg pol TimerFires st = Some st1"
    and "heap st Body = None"
  shows "truthy (timeout cfg)
    \<and> (truthy (timeout c) \<longrightarrow>
         timer (await_body c s) \<and> (Body, OnRace) \<in> set (reactions (await_body c s))
         \<and> (TimerPromise, OnRace) \<in> set (reactions (await_body c s))
         \<and> (Race, ResumeBody) \<in> set (reactions (await_body c s)))
    \<and> estuary_isFrozen st1
    \<and> heap st1 TimerPromise = Some (Rejected (timeout_error cfg))
    \<and> timeout_error cfg
         = ErrorObj (''Fjord timeout exceeded: '' @ to_string (timeout cfg) @ ''ms'')
    \<and> (\<exists>st2. step cfg pol Tick st1 = Some st2
          \<and> heap st2 Race = Some (Rejected (timeout_error cfg))
          \<and> (\<forall>evs' st' oc. run cfg pol evs' st2 = Some st' \<and> heap st' CallResult = Some oc \<longrightarrow>
                settled st' \<and>
                oc = Rejected (case onError cfg of
                                 None \<Rightarrow> timeout_error cfg
                               | Some obs \<Rightarrow>
                                   (case obs (timeout_error cfg) (tag pol) of
                                      None \<Rightarrow> timeout_error cfg
                                    | Some x \<Rightarrow> x)))
          \<and> (\<forall>evs' s'. run cfg pol evs' st2 = Some s'
                \<and> (\<forall>k<launched s'. heap s' (FlowPromise k) \<noteq> None) \<longrightarrow>
                (\<exists>m st'. run cfg pol (replicate m Tick) s' = Some st'
                   \<and> heap st' CallResult = Some (Rejected (case onError cfg of
                                 None \<Rightarrow> timeout_error cfg
                               | Some obs \<Rightarrow>
                                   (case obs (timeout_error cfg) (tag pol) of
                                      None \<Rightarrow> timeout_error cfg
                                    | Some x \<Rightarrow> x))))))"
proof -
  note d = deadline_facts [OF assms]
  have a: "truthy (timeout c) \<longrightarrow>
         timer (await_body c s) \<and> (Body, OnRace) \<in> set (reactions (await_body c s))
         \<and> (TimerPromise, OnRace) \<in> set (reactions (await_body c s))
         \<and> (Race, ResumeBody) \<in> set (reactions (await_body c s))"
    using await_body_races [of c s] by blast
  have e: "is_Error (timeout_error cfg)" by (simp add: timeout_error_def)
  from d(4) obtain st2 where s2: "step cfg pol Tick st1 = Some st2"
    and h2: "heap st2 Race = Some (Rejected (timeout_error cfg))"
    and l: "\<And>evs' st' oc. run cfg pol evs' st2 = Some st' \<Longrightarrow> heap st' CallResult = Some oc \<Longrightarrow>
              \<exists>e. oc = Rejected e \<and> rethrown cfg pol st' (timeout_error cfg) e"
    by blast
  have "\<forall>evs' st' oc. run cfg pol evs' st2 = Some st' \<and> heap st' CallResult = Some oc \<longrightarrow>
                settled st' \<and>
                oc = Rejected (case onError cfg of
                                 None \<Rightarrow> timeout_error cfg
                               | Some obs \<Rightarrow>
                                   (case obs (timeout_error cfg) (tag pol) of
                                      None \<Rightarrow> timeout_error cfg
                                    | Some x \<Rightarrow> x))"
  proof (intro allI impI)
    fix evs' st' oc
    assume a': "run cfg pol evs' st2 = Some st' \<and> heap st' CallResult = Some oc"
    with l obtain x where x: "oc = Rejected x" "rethrown cfg pol st' (timeout_error cfg) x"
      by blast
    have "run cfg pol ((evs @ [TimerFires, Tick]) @ evs') begin_call = Some st'"
      using assms(1,2) s2 a' by (simp only: run_append) simp
    from failure_facts [OF this, of x] a' x(1) have "settled st'" by blast
    with x rethrown_value [OF x(2)] e
    show "settled st' \<and> oc = Rejected (case onError cfg of
                                 None \<Rightarrow> timeout_error cfg
                               | Some obs \<Rightarrow>
                                   (case obs (timeout_error cfg) (tag pol) of
                                      None \<Rightarrow> timeout_error cfg
                                    | Some x \<Rightarrow> x))"
      by (cases "onError cfg") simp_all
  qed
  then have safe: "\<And>evs' st' oc. run cfg pol evs' st2 = Some st' \<Longrightarrow>
      heap st' CallResult = Some oc \<Longrightarrow>
      settled st' \<and> oc = Rejected (case onError cfg of
                                 None \<Rightarrow> timeout_error cfg
                               | Some obs \<Rightarrow>
                                   (case obs (timeout_error cfg) (tag pol) of
                                      None \<Rightarrow> timeout_error cfg
                                    | Some x \<Rightarrow> x))"
    by blast
  have r2: "run cfg pol (evs @ [TimerFires, Tick]) begin_call = Some st2"
    using assms(1,2) s2 by (simp add: run_append)
  have live: "\<forall>evs' s'. run cfg pol evs' st2 = Some s'
                \<and> (\<forall>k<launched s'. heap s' (FlowPromise k) \<noteq> None) \<longrightarrow>
                (\<exists>m st'. run cfg pol (replicate m Tick) s' = Some st'
                   \<and> heap st' CallResult = Some (Rejected (case onError cfg of
                                 None \<Rightarrow> timeout_error cfg
                               | Some obs \<Rightarrow>
                                   (case obs (timeout_error cfg) (tag pol) of
                                      None \<Rightarrow> timeout_error cfg
                                    | Some x \<Rightarrow> x))))"
  proof (intro allI impI)
    fix evs' s'
    assume a': "run cfg pol evs' st2 = Some s'
                \<and> (\<forall>k<launched s'. heap s' (FlowPromise k) \<noteq> None)"
    then have rs: "run cfg pol ((evs @ [TimerFires, Tick]) @ evs') begin_call = Some s'"
      using r2 by (simp only: run_append) simp
    have "heap s' Race = Some (Rejected (timeout_error cfg))"
      using run_grows [OF r2 conjunct1 [OF a']] h2 by (rule grows_heap)
    with d(1) have "heap s' (awaited cfg) \<noteq> None \<or> stage s' = Thrown"
      by (simp add: awaited_def)
    from call_settles [OF rs this conjunct2 [OF a']] obtain m st' where
      t: "run cfg pol (replicate m Tick) s' = Some st'" and n: "heap st' CallResult \<noteq> None"
      by blast
    from n obtain oc where oc: "heap st' CallResult = Some oc" by blast
    have "run cfg pol (evs' @ replicate m Tick) st2 = Some st'"
      using a' t by (simp add: run_append)
    from safe [OF this oc] oc t
    show "\<exists>m st'. run cfg pol (replicate m Tick) s' = Some st'
                   \<and> heap st' CallResult = Some (Rejected (case onError cfg of
                                 None \<Rightarrow> timeout_error cfg
                               | Some obs \<Rightarrow>
                                   (case obs (timeout_error cfg) (tag pol) of
                                      None \<Rightarrow> timeout_error cfg
                                    | Some x \<Rightarrow> x)))"
      by blast
  qed
  have sf: "\<forall>evs' st' oc. run cfg pol evs' st2 = Some st' \<and> heap st' CallResult = Some oc \<longrightarrow>
                settled st' \<and>
                oc = Rejected (case onError cfg of
                                 None \<Rightarrow> timeout_error cfg
                               | Some obs \<Rightarrow>
                                   (case obs (timeout_error cfg) (tag pol) of
                                      None \<Rightarrow> timeout_error cfg
                                    | Some x \<Rightarrow> x))"
    using safe by blast
  have b: "\<exists>st2. step cfg pol Tick st1 = Some st2
          \<and> heap st2 Race = Some (Rejected (timeout_error cfg))
          \<and> (\<forall>evs' st' oc. run cfg pol evs' st2 = Some st' \<and> heap st' CallResult = Some oc \<longrightarrow>
                settled st' \<and>
                oc = Rejected (case onError cfg of
                                 None \<Rightarrow> timeout_error cfg
                               | Some obs \<Rightarrow>
                                   (case obs (timeout_error cfg) (tag pol) of
                                      None \<Rightarrow> timeout_error cfg
                                    | Some x \<Rightarrow> x)))
          \<and> (\<forall>evs' s'. run cfg pol evs' st2 = Some s'
                \<and> (\<forall>k<launched s'. heap s' (FlowPromise k) \<noteq> None) \<longrightarrow>
                (\<exists>m st'. run cfg pol (replicate m Tick) s' = Some st'
                   \<and> heap st' CallResult = Some (Rejected (case onError cfg of
                                 None \<Rightarrow> timeout_error cfg
                               | Some obs \<Rightarrow>
                                   (case obs (timeout_error cfg) (tag pol) of
                                      None \<Rightarrow> timeout_error cfg
                                    | Some x \<Rightarrow> x)))))"
    by (intro exI [of _ st2] conjI s2 h2 live sf)
  show ?thesis
    by (intro conjI d(1) d(2) d(3) a b) (simp add: timeout_error_def)
qed

theorem deadline_fires_first_witness:
  "estuary_isFrozen (the (step timed Cascade TimerFires
      (the (run timed Cascade [Launch AsyncWork, BodyReturns, Tick] begin_call))))
   \<and> heap (the (step timed Cascade TimerFires
      (the (run timed Cascade [Launch AsyncWork, BodyReturns, Tick] begin_call)))) TimerPromise
       = Some (Rejected (ErrorObj ''Fjord timeout exceeded: 100ms''))
   \<and> (\<exists>m st'. run timed Cascade (replicate m Tick)
          (the (run timed Cascade [Finish 0 (Fulfilled (Num 7))]
            (the (step timed Cascade Tick
              (the (step timed Cascade TimerFires
                (the (run timed Cascade [Launch AsyncWork, BodyReturns, Tick]
                  begin_call)))))))) = Some st'
        \<and> heap st' CallResult = Some (Rejected (ErrorObj ''Fjord timeout exceeded: 100ms'')))"
proof -
  let ?a = "run timed Cascade [Launch AsyncWork, BodyReturns, Tick] begin_call"
  let ?b = "step timed Cascade TimerFires (the ?a)"
  let ?c = "step timed Cascade Tick (the ?b)"
  let ?e = "run timed Cascade [Finish 0 (Fulfilled (Num 7))] (the ?c)"
  have a: "?a = Some (the ?a)"
    by (rule some_the) code_simp
  have b: "?b = Some (the ?b)"
    by (rule some_the) code_simp
  have c: "heap (the ?a) Body = None"
    by code_simp
  have t: "?c = Some (the ?c)"
    by (rule some_the) code_simp
  have e: "?e = Some (the ?e)"
    by (rule some_the) code_simp
  have n: "launched (the ?e) = 1" "heap (the ?e) (FlowPromise 0) \<noteq> None"
    by code_simp+
  have k: "\<forall>k<launched (the ?e). heap (the ?e) (FlowPromise k) \<noteq> None"
    unfolding n(1) using n(2) by simp
  have d: "timeout_error timed = ErrorObj ''Fjord timeout exceeded: 100ms''"
    by code_simp
  have o: "onError timed = None"
    by (simp add: timed_def new_Fjord_def)
  note w = deadline_fires_first [OF a b c]
  from w obtain st2 where s2: "step timed Cascade Tick (the ?b) = Some st2"
    and live: "\<forall>evs' s'. run timed Cascade evs' st2 = Some s'
                \<and> (\<forall>k<launched s'. heap s' (FlowPromise k) \<noteq> None) \<longrightarrow>
                (\<exists>m st'. run timed Cascade (replicate m Tick) s' = Some st'
                   \<and> heap st' CallResult = Some (Rejected (case onError timed of
                                 None \<Rightarrow> timeout_error timed
                               | Some obs \<Rightarrow>
                                   (case obs (timeout_error timed) (tag Cascade) of
                                      None \<Rightarrow> timeout_error timed
                                    | Some x \<Rightarrow> x))))"
    by blast
  from s2 t have "st2 = the ?c" by (simp only: option.inject)
  with live e k
  have "\<exists>m st'. run timed Cascade (replicate m Tick) (the ?e) = Some st'
        \<and> heap st' CallResult = Some (Rejected (case onError timed of
                                 None \<Rightarrow> timeout_error timed
                               | Some obs \<Rightarrow>
                                   (case obs (timeout_error timed) (tag Cascade) of
                                      None \<Rightarrow> timeout_error timed
                                    | Some x \<Rightarrow> x)))"
    by blast
  then have "\<exists>m st'. run timed Cascade (replicate m Tick) (the ?e) = Some st'
        \<and> heap st' CallResult = Some (Rejected (ErrorObj ''Fjord timeout exceeded: 100ms''))"
    unfolding o d by (simp only: option.case)
  moreover from w
  have "estuary_isFrozen (the ?b)
    \<and> heap (the ?b) TimerPromise = Some (Rejected (ErrorObj ''Fjord timeout exceeded: 100ms''))"
    unfolding d by blast
  ultimately show ?thesis by blast
qed

subsection \<open>The failure path of cascade and tributary\<close>




subsection \<open>flow on an open scope\<close>

text \<open>
  Claim C8. A call of \<open>flow\<close> on a scope that is not frozen returns a promise (it has
  no error result) that is still pending when the call ends, whatever the undertaking is;
  the new handle is the last element of the tracking set; the undertaking has not been
  invoked: the job that will invoke it stands at the end of the microtask queue, and
  running that job is what invokes it.
\<close>

theorem flow_accepted_is_deferred:
  assumes "\<not> estuary_isFrozen st"
  shows "fst (flow u st) = Returned (launched st)
    \<and> heap (snd (flow u st)) (Returned (launched st)) = None
    \<and> heap (snd (flow u st)) (FlowPromise (launched st)) = None
    \<and> flows (snd (flow u st)) = flows st @ [launched st]
    \<and> queue (snd (flow u st)) = queue st @ [RunUndertaking (launched st) u]
    \<and> invoked (snd (flow u st)) = invoked st
    \<and> invoked (run_job cfg pol (RunUndertaking k u) s) = invoked s @ [k]"
proof -
  have "invoked (run_job cfg pol (RunUndertaking k u) s) = invoked s @ [k]"
    by (cases u) simp_all
  with assms show ?thesis
    by (simp add: estuary_isFrozen_def flow_def Let_def new_promise_def enqueue_def then_do_def)
qed

theorem flow_accepted_is_deferred_witness:
  "fst (flow (SyncValue (Num 1)) begin_call) = Returned 0
   \<and> heap (snd (flow (SyncValue (Num 1)) begin_call)) (Returned 0) = None
   \<and> flows (snd (flow (SyncValue (Num 1)) begin_call)) = [0]
   \<and> queue (snd (flow (SyncValue (Num 1)) begin_call)) = [RunUndertaking 0 (SyncValue (Num 1))]
   \<and> invoked (snd (flow (SyncValue (Num 1)) begin_call)) = []"
proof -
  have a: "\<not> estuary_isFrozen begin_call"
    by code_simp
  have b: "launched begin_call = 0" "flows begin_call = []" "queue begin_call = []"
    "invoked begin_call = []"
    by code_simp+
  from flow_accepted_is_deferred [OF a, of "SyncValue (Num 1)" plain Cascade 0 begin_call] b
  show ?thesis
    by simp
qed

subsection \<open>The token\<close>

text \<open>
  Claim C9. The token is one-way and idempotent: any number of freezes leaves it frozen,
  a freeze after the first changes nothing, \<open>freeze\<close> is a total function (it has no
  error result), and once \<open>isFrozen\<close> holds it holds after every later event of the
  scope and the orchestrator.
\<close>

theorem token_one_way:
  "isFrozen ((freeze ^^ Suc n) t) \<and> (freeze ^^ Suc n) t = freeze t \<and>
   freeze (freeze t) = freeze t \<and>
   (isFrozen t \<longrightarrow> freeze t = t) \<and>
   (isFrozen (tideToken st) \<and> run cfg pol evs st = Some st' \<longrightarrow> isFrozen (tideToken st'))"
  using frozen_run [of st cfg pol evs st']
  by (simp only: freeze_funpow) (simp add: isFrozen_freeze freeze_frozen)

theorem token_one_way_witness:
  "isFrozen ((freeze ^^ 3) new_TideToken)
   \<and> (freeze ^^ 3) new_TideToken = freeze new_TideToken
   \<and> isFrozen (tideToken (the (run plain Cascade
        [Launch AsyncWork, BodyReturns, CallSettle, Tick]
        (freeze_token begin_call))))"
proof -
  let ?s = "freeze_token begin_call"
  let ?r = "run plain Cascade
        [Launch AsyncWork, BodyReturns, CallSettle, Tick] ?s"
  have a: "isFrozen (tideToken ?s)"
    by code_simp
  have b: "?r = Some (the ?r)"
    by (rule some_the) code_simp
  have c: "(3::nat) = Suc 2"
    by simp
  from token_one_way [of 2 new_TideToken ?s plain Cascade _ "the ?r"] a b
  show ?thesis
    unfolding c by blast
qed

subsection \<open>A falsy timeout\<close>

text \<open>
  Claim C10. The constructor turns every falsy timeout into \<open>null\<close>, so an orchestrator
  built with timeout 0 (or \<open>NaN\<close>, the empty string, \<open>false\<close>, \<open>null\<close>) is the
  orchestrator built with no timeout. It awaits the promise of the scope callback itself:
  no timer is started, no race promise and no timer promise is created, the timer can
  never fire, and a rejected call was rejected by the scope callback.
\<close>

theorem falsy_timeout_is_no_timeout:
  assumes "\<not> truthy (opt_timeout opts)"
  shows "new_Fjord opts = new_Fjord (opts\<lparr>opt_timeout := Undefined\<rparr>)
    \<and> timeout (new_Fjord opts) = Null
    \<and> executeWithTimeout (new_Fjord opts) s = (Body, s)
    \<and> (run (new_Fjord opts) pol evs begin_call = Some st \<longrightarrow>
          \<not> timer st \<and> heap st TimerPromise = None \<and> heap st Race = None
          \<and> step (new_Fjord opts) pol TimerFires st = None
          \<and> (\<forall>e. heap st CallResult = Some (Rejected e) \<longrightarrow>
                (\<exists>err. heap st Body = Some (Rejected err) \<or> thrown st = Some err)))"
proof -
  let ?cfg = "new_Fjord opts"
  from assms have t: "\<not> truthy (timeout ?cfg)" by (simp add: new_Fjord_def)
  have a: "new_Fjord opts = new_Fjord (opts\<lparr>opt_timeout := Undefined\<rparr>)"
    using assms by (simp add: new_Fjord_def)
  have b: "timeout ?cfg = Null" using assms by (simp add: new_Fjord_def)
  have c: "executeWithTimeout ?cfg s = (Body, s)" using t by (simp add: executeWithTimeout_def)
  have d: "run ?cfg pol evs begin_call = Some st \<longrightarrow>
          \<not> timer st \<and> heap st TimerPromise = None \<and> heap st Race = None
          \<and> step ?cfg pol TimerFires st = None
          \<and> (\<forall>e. heap st CallResult = Some (Rejected e) \<longrightarrow>
                (\<exists>err. heap st Body = Some (Rejected err) \<or> thrown st = Some err))"
  proof
    assume r: "run ?cfg pol evs begin_call = Some st"
    have "\<forall>e. heap st CallResult = Some (Rejected e) \<longrightarrow>
                (\<exists>err. heap st Body = Some (Rejected err) \<or> thrown st = Some err)"
    proof (intro allI impI)
      fix e assume "heap st CallResult = Some (Rejected e)"
      from failure_facts [OF r this] obtain err where "raised ?cfg st err" by blast
      with t show "\<exists>err. heap st Body = Some (Rejected err) \<or> thrown st = Some err"
        by (auto simp: raised_def awaited_def)
    qed
    with no_timer_facts [OF r t]
    show "\<not> timer st \<and> heap st TimerPromise = None \<and> heap st Race = None
          \<and> step ?cfg pol TimerFires st = None
          \<and> (\<forall>e. heap st CallResult = Some (Rejected e) \<longrightarrow>
                (\<exists>err. heap st Body = Some (Rejected err) \<or> thrown st = Some err))"
      by blast
  qed
  from a b c d show ?thesis by blast
qed

theorem falsy_timeout_is_no_timeout_witness:
  "new_Fjord \<lparr>opt_timeout = Num 0, opt_onError = None\<rparr> = plain
   \<and> timeout (new_Fjord \<lparr>opt_timeout = Num 0, opt_onError = None\<rparr>) = Null
   \<and> step (new_Fjord \<lparr>opt_timeout = Num 0, opt_onError = None\<rparr>) Cascade TimerFires
       (the (run (new_Fjord \<lparr>opt_timeout = Num 0, opt_onError = None\<rparr>) Cascade
          [Launch AsyncWork, BodyReturns, Tick] begin_call)) = None"
proof -
  let ?o = "\<lparr>opt_timeout = Num 0, opt_onError = None\<rparr>"
  let ?r = "run (new_Fjord ?o) Cascade [Launch AsyncWork, BodyReturns, Tick] begin_call"
  have a: "\<not> truthy (opt_timeout ?o)"
    by simp
  have b: "?r = Some (the ?r)"
    by (rule some_the) code_simp
  have c: "?o\<lparr>opt_timeout := Undefined\<rparr> = \<lparr>opt_timeout = Undefined, opt_onError = None\<rparr>"
    by simp
  from falsy_timeout_is_no_timeout [OF a, of _ Cascade "[Launch AsyncWork, BodyReturns, Tick]" "the ?r"] b
  show ?thesis
    unfolding plain_def c [symmetric] by blast
qed

end
